(* ===== verification/Prelude.thy ===== *)
theory Prelude
  imports Main
begin

text \<open>
  Shared material of the development: the failures a C++ operation can have, the
  sequencing of operations that can fail, and the list operations by which the
  arrays of the program (\<open>memmove\<close>, \<open>memcpy\<close> on key and value arrays) are
  modelled, with the lemmas every component uses.
\<close>

section \<open>Failures and their sequencing\<close>

text \<open>
  \<open>Throw msg\<close> is a C++ \<open>throw\<close> with its message. The others are the undefined
  behaviours the code can run into: following a pointer to a node that was deleted or
  never created (\<open>BadPointer\<close>), following or writing through a null pointer
  (\<open>NullPointer\<close>), reading an array outside its bounds (\<open>OutOfBounds\<close>), reading
  a slot whose contents are not determined (\<open>Indeterminate\<close>). \<open>NoFuel\<close> is the
  result of a pointer walk that does not end.
\<close>

datatype err =
    Throw string
  | BadPointer
  | NullPointer
  | OutOfBounds
  | Indeterminate
  | NoFuel

definition bindE :: "err + 'a \<Rightarrow> ('a \<Rightarrow> err + 'b) \<Rightarrow> err + 'b" where
  "bindE m f = (case m of Inl e \<Rightarrow> Inl e | Inr x \<Rightarrow> f x)"

lemma bindE_simps [simp]:
  "bindE (Inl e) f = Inl e"
  "bindE (Inr x) f = f x"
  by (simp_all add: bindE_def)

lemma bindE_Inr_conv: "bindE m f = Inr y \<longleftrightarrow> (\<exists>x. m = Inr x \<and> f x = Inr y)"
  by (cases m) simp_all

lemma bindE_Inl_conv: "bindE m f = Inl e \<longleftrightarrow> m = Inl e \<or> (\<exists>x. m = Inr x \<and> f x = Inl e)"
  by (cases m) auto

lemma bindE_assoc: "bindE (bindE m f) g = bindE m (\<lambda>x. bindE (f x) g)"
  by (cases m) simp_all

text \<open>A checked array read.\<close>

definition nthE :: "'a list \<Rightarrow> nat \<Rightarrow> err + 'a" where
  "nthE xs i = (if i < length xs then Inr (xs ! i) else Inl OutOfBounds)"

lemma nthE_Inr [simp]: "i < length xs \<Longrightarrow> nthE xs i = Inr (xs ! i)"
  by (simp add: nthE_def)

lemma nthE_append_length [simp]: "nthE (xs @ y # ys) (length xs) = Inr y"
  by (simp add: nthE_def)

section \<open>Array edits\<close>

text \<open>
  \<open>insert_at i x xs\<close> is the shift of \<open>xs[i..]\<close> one place up followed by the
  store of \<open>x\<close> at \<open>i\<close>; \<open>delete_at i xs\<close> the shift of \<open>xs[i+1..]\<close> one
  place down.
\<close>

definition insert_at :: "nat \<Rightarrow> 'a \<Rightarrow> 'a list \<Rightarrow> 'a list" where
  "insert_at i x xs = take i xs @ x # drop i xs"

definition delete_at :: "nat \<Rightarrow> 'a list \<Rightarrow> 'a list" where
  "delete_at i xs = take i xs @ drop (Suc i) xs"

lemma length_insert_at [simp]: "length (insert_at i x xs) = Suc (length xs)"
  by (simp add: insert_at_def min_def)

lemma length_delete_at [simp]: "i < length xs \<Longrightarrow> length (delete_at i xs) = length xs - 1"
  by (simp add: delete_at_def)

lemma insert_at_append_length [simp]:
  "insert_at (length xs) x (xs @ ys) = xs @ x # ys"
  by (simp add: insert_at_def)

lemma insert_at_length [simp]: "insert_at (length xs) x xs = xs @ [x]"
  by (simp add: insert_at_def)

lemma insert_at_0 [simp]: "insert_at 0 x xs = x # xs"
  by (simp add: insert_at_def)

lemma insert_at_Suc [simp]: "insert_at (Suc i) x (y # ys) = y # insert_at i x ys"
  by (simp add: insert_at_def)

lemma insert_at_append_left:
  "i \<le> length xs \<Longrightarrow> insert_at i x (xs @ ys) = insert_at i x xs @ ys"
  by (simp add: insert_at_def)

lemma insert_at_append_right:
  "length xs \<le> i \<Longrightarrow> insert_at i x (xs @ ys) = xs @ insert_at (i - length xs) x ys"
  by (simp add: insert_at_def)

lemma delete_at_append_length [simp]:
  "delete_at (length xs) (xs @ y # ys) = xs @ ys"
  by (simp add: delete_at_def)

lemma delete_at_0 [simp]: "delete_at 0 (x # xs) = xs"
  by (simp add: delete_at_def)

lemma delete_at_Suc [simp]: "delete_at (Suc i) (x # xs) = x # delete_at i xs"
  by (simp add: delete_at_def)

lemma set_insert_at [simp]: "set (insert_at i x xs) = insert x (set xs)"
proof -
  have "set xs = set (take i xs) \<union> set (drop i xs)"
    by (metis append_take_drop_id set_append)
  then show ?thesis by (auto simp: insert_at_def)
qed

lemma set_delete_at_subset: "set (delete_at i xs) \<subseteq> set xs"
  by (auto simp: delete_at_def dest: in_set_takeD in_set_dropD)

lemma map_insert_at [simp]: "map f (insert_at i x xs) = insert_at i (f x) (map f xs)"
  by (simp add: insert_at_def take_map drop_map)

lemma map_delete_at [simp]: "map f (delete_at i xs) = delete_at i (map f xs)"
  by (simp add: delete_at_def take_map drop_map)

lemma split_list_at:
  "i < length xs \<Longrightarrow> \<exists>l x r. xs = l @ x # r \<and> length l = i"
  by (rule exI [of _ "take i xs"], rule exI [of _ "xs ! i"], rule exI [of _ "drop (Suc i) xs"])
    (simp add: id_take_nth_drop)

lemma split_list_upto:
  "i \<le> length xs \<Longrightarrow> \<exists>l r. xs = l @ r \<and> length l = i"
  by (rule exI [of _ "take i xs"], rule exI [of _ "drop i xs"]) simp

lemma nth_append_Suc_length [simp]: "(xs @ y # z # zs) ! Suc (length xs) = z"
  by (simp add: nth_append)

end
