(* ===== verification/Scalar.thy ===== *)
theory Scalar
  imports Prelude "HOL-Library.Word"
begin

text \<open>
  The scalar types of \<open>FastoreCommon/Type\<close>: the comparison functions, the binary
  search over a key array, and the conversion between scalars and the byte strings of
  the wire format. The interface the B-tree relies on is the locale \<open>scalar_order\<close>.
\<close>

section \<open>The scalar type descriptor\<close>

text \<open>
  \<open>struct ScalarType\<close> (Scalar.h). \<open>CopyIn\<close> copies a value into an array slot and
  is the identity on values. \<open>GetPointer\<close> reads a wire string as a scalar and
  \<open>CopyOut\<close> writes a scalar as a wire string; both can fail.
\<close>

record 'k ScalarType =
  TypeName :: string
  TypeSize :: nat
  Compare :: "'k \<Rightarrow> 'k \<Rightarrow> int"
  IndexOf :: "'k list \<Rightarrow> 'k \<Rightarrow> int"
  CopyOut :: "'k \<Rightarrow> err + string"
  GetPointer :: "string \<Rightarrow> err + 'k"

section \<open>Binary search\<close>

text \<open>
  \<open>CompareIndexOf\<close> (Scalar.h). The result is the index of an equal item, or \<open>~lo\<close>,
  the bitwise complement of the insertion point; \<open>~lo = - lo - 1\<close> in two's
  complement. The shift \<open>(lo + hi) >> 1\<close> is division by two. The integers are unbounded:
  the callers pass the keys of a node, of which there are at most 64, so no 32-bit sum overflows.
\<close>

function CompareIndexOf_loop :: "('k \<Rightarrow> 'k \<Rightarrow> int) \<Rightarrow> 'k list \<Rightarrow> 'k \<Rightarrow> int \<Rightarrow> int \<Rightarrow> int" where
  "CompareIndexOf_loop cmp items key lo hi =
     (if lo \<le> hi then
        (let split = (lo + hi) div 2;
             result = cmp key (items ! nat split)
         in if result = 0 then split
            else if result < 0 then CompareIndexOf_loop cmp items key lo (split - 1)
            else CompareIndexOf_loop cmp items key (split + 1) hi)
      else - lo - 1)"
  by pat_completeness auto
termination
  by (relation "measure (\<lambda>(cmp, items, key, lo, hi). nat (hi - lo + 1))") auto

declare CompareIndexOf_loop.simps [simp del]

definition CompareIndexOf :: "('k \<Rightarrow> 'k \<Rightarrow> int) \<Rightarrow> 'k list \<Rightarrow> 'k \<Rightarrow> int" where
  "CompareIndexOf cmp items key = CompareIndexOf_loop cmp items key 0 (int (length items) - 1)"

lemma search_steps:
  "hi < lo \<Longrightarrow> CompareIndexOf_loop cmp items key lo hi = - lo - 1"
  "lo \<le> hi \<Longrightarrow> cmp key (items ! nat ((lo + hi) div 2)) = 0 \<Longrightarrow>
     CompareIndexOf_loop cmp items key lo hi = (lo + hi) div 2"
  "lo \<le> hi \<Longrightarrow> cmp key (items ! nat ((lo + hi) div 2)) < 0 \<Longrightarrow>
     CompareIndexOf_loop cmp items key lo hi
     = CompareIndexOf_loop cmp items key lo ((lo + hi) div 2 - 1)"
  "lo \<le> hi \<Longrightarrow> 0 < cmp key (items ! nat ((lo + hi) div 2)) \<Longrightarrow>
     CompareIndexOf_loop cmp items key lo hi
     = CompareIndexOf_loop cmp items key ((lo + hi) div 2 + 1) hi"
  by (subst CompareIndexOf_loop.simps; simp add: Let_def)+

text \<open>
  What a search result means: an index of an equal item, or the complement of the
  position that separates the smaller items from the greater ones.
\<close>

definition search_spec :: "('k \<Rightarrow> 'k \<Rightarrow> int) \<Rightarrow> 'k list \<Rightarrow> 'k \<Rightarrow> int \<Rightarrow> bool" where
  "search_spec cmp items key r \<longleftrightarrow>
     (0 \<le> r \<and> r < int (length items) \<and> cmp key (items ! nat r) = 0) \<or>
     (r < 0 \<and> - r - 1 \<le> int (length items) \<and>
      (\<forall>j. 0 \<le> j \<and> j < - r - 1 \<longrightarrow> 0 < cmp key (items ! nat j)) \<and>
      (\<forall>j. - r - 1 \<le> j \<and> j < int (length items) \<longrightarrow> cmp key (items ! nat j) < 0))"

section \<open>The interface of a scalar type\<close>

text \<open>
  What the tree and the buffers rely on: on the set \<open>K\<close> of values in use the
  comparison is a total preorder and the search function is \<open>CompareIndexOf\<close> over
  that comparison. \<open>K\<close> is a parameter because the machine-integer comparisons are
  only ordered on part of their range.
\<close>

locale scalar_order =
  fixes ty :: "'k ScalarType" and K :: "'k set"
  assumes cmp_refl: "a \<in> K \<Longrightarrow> Compare ty a a = 0"
    and cmp_sym: "a \<in> K \<Longrightarrow> b \<in> K \<Longrightarrow> Compare ty a b < 0 \<longleftrightarrow> 0 < Compare ty b a"
    and cmp_trans: "a \<in> K \<Longrightarrow> b \<in> K \<Longrightarrow> c \<in> K \<Longrightarrow>
      Compare ty a b \<le> 0 \<Longrightarrow> Compare ty b c \<le> 0 \<Longrightarrow> Compare ty a c \<le> 0"
    and index_of: "IndexOf ty = CompareIndexOf (Compare ty)"
begin

lemma cmp_eq_sym: "a \<in> K \<Longrightarrow> b \<in> K \<Longrightarrow> Compare ty a b = 0 \<longleftrightarrow> Compare ty b a = 0"
  using cmp_sym [of a b] cmp_sym [of b a] by linarith

lemma cmp_lt_le_trans:
  assumes "a \<in> K" "b \<in> K" "c \<in> K" "Compare ty a b < 0" "Compare ty b c \<le> 0"
  shows "Compare ty a c < 0"
proof (rule ccontr)
  assume "\<not> Compare ty a c < 0"
  then have "Compare ty c a \<le> 0"
    using cmp_sym [of c a] cmp_sym [of a c] assms(1,3) cmp_eq_sym by linarith
  with assms have "Compare ty b a \<le> 0" using cmp_trans [of b c a] by simp
  with assms show False using cmp_sym [of a b] by simp
qed

lemma cmp_le_lt_trans:
  assumes "a \<in> K" "b \<in> K" "c \<in> K" "Compare ty a b \<le> 0" "Compare ty b c < 0"
  shows "Compare ty a c < 0"
proof (rule ccontr)
  assume "\<not> Compare ty a c < 0"
  then have "Compare ty c a \<le> 0"
    using cmp_sym [of c a] cmp_sym [of a c] assms(1,3) cmp_eq_sym by linarith
  with assms have "Compare ty c b \<le> 0" using cmp_trans [of c a b] by simp
  with assms show False using cmp_sym [of b c] by simp
qed

lemma cmp_le_iff: "a \<in> K \<Longrightarrow> b \<in> K \<Longrightarrow> Compare ty a b \<le> 0 \<longleftrightarrow> \<not> Compare ty b a < 0"
  using cmp_sym [of b a] by auto

lemma cmp_pos_iff: "a \<in> K \<Longrightarrow> b \<in> K \<Longrightarrow> 0 < Compare ty a b \<longleftrightarrow> Compare ty b a < 0"
  using cmp_sym [of b a] by simp

lemma search_loop:
  assumes "sorted_wrt (\<lambda>a b. Compare ty a b < 0) items" "set items \<subseteq> K" "key \<in> K"
    and "0 \<le> lo" "lo \<le> hi + 1" "hi < int (length items)"
    and "\<forall>j. 0 \<le> j \<and> j < lo \<longrightarrow> 0 < Compare ty key (items ! nat j)"
    and "\<forall>j. hi < j \<and> j < int (length items) \<longrightarrow> Compare ty key (items ! nat j) < 0"
  shows "search_spec (Compare ty) items key (CompareIndexOf_loop (Compare ty) items key lo hi)"
  using assms(4-8)
proof (induction "nat (hi - lo + 1)" arbitrary: lo hi rule: less_induct)
  case less
  have sorted: "Compare ty (items ! nat i) (items ! nat j) < 0"
    if "0 \<le> i" "i < j" "j < int (length items)" for i j
    using assms(1) that by (simp add: sorted_wrt_iff_nth_less)
  have inK: "items ! nat j \<in> K" if "0 \<le> j" "j < int (length items)" for j
    using assms(2) that by (simp add: subset_iff)
  define m where "m = (lo + hi) div 2"
  consider (stop) "hi < lo" | (eq) "lo \<le> hi" "Compare ty key (items ! nat m) = 0"
    | (lt) "lo \<le> hi" "Compare ty key (items ! nat m) < 0"
    | (gt) "lo \<le> hi" "0 < Compare ty key (items ! nat m)"
    by linarith
  then show ?case
  proof cases
    case stop
    with less.prems show ?thesis by (auto simp: search_steps search_spec_def)
  next
    case eq
    with less.prems show ?thesis by (auto simp: search_steps m_def search_spec_def)
  next
    case lt
    then have m: "lo \<le> m" "m \<le> hi" by (auto simp: m_def)
    have "Compare ty key (items ! nat j) < 0" if "m - 1 < j" "j < int (length items)" for j
    proof (cases "j = m")
      case False
      with that m less.prems have "Compare ty (items ! nat m) (items ! nat j) \<le> 0"
        using sorted [of m j] by simp
      with lt(2) show ?thesis
        using cmp_lt_le_trans [of key "items ! nat m" "items ! nat j"] assms(3) inK that m less.prems
        by simp
    qed (use lt in simp)
    then have "search_spec (Compare ty) items key (CompareIndexOf_loop (Compare ty) items key lo (m - 1))"
      using less.hyps [of "m - 1" lo] m less.prems by simp
    with lt show ?thesis by (simp add: search_steps m_def)
  next
    case gt
    then have m: "lo \<le> m" "m \<le> hi" by (auto simp: m_def)
    have "0 < Compare ty key (items ! nat j)" if "0 \<le> j" "j < m + 1" for j
    proof (cases "j = m")
      case False
      with that m less.prems have "Compare ty (items ! nat j) (items ! nat m) \<le> 0"
        using sorted [of j m] by simp
      moreover have "Compare ty (items ! nat m) key < 0"
        using gt(2) cmp_pos_iff assms(3) inK m less.prems by simp
      ultimately have "Compare ty (items ! nat j) key < 0"
        using cmp_le_lt_trans [of "items ! nat j" "items ! nat m" key] assms(3) inK that m less.prems
        by simp
      then show ?thesis using cmp_pos_iff assms(3) inK that m less.prems by simp
    qed (use gt in simp)
    then have "search_spec (Compare ty) items key (CompareIndexOf_loop (Compare ty) items key (m + 1) hi)"
      using less.hyps [of hi "m + 1"] m less.prems by simp
    with gt show ?thesis by (simp add: search_steps m_def)
  qed
qed

lemma search_correct:
  assumes "sorted_wrt (\<lambda>a b. Compare ty a b < 0) items" "set items \<subseteq> K" "key \<in> K"
  shows "search_spec (Compare ty) items key (CompareIndexOf (Compare ty) items key)"
  unfolding CompareIndexOf_def using assms by (intro search_loop) auto

end


section \<open>The standard types\<close>

subsection \<open>Long and Int\<close>

text \<open>
  \<open>LongCompare\<close> and \<open>IntCompare\<close> (BaseTypes.cpp) subtract machine integers. The
  subtraction wraps at the width of the type, as it does on the machines the program is built
  for; C++ leaves the overflow undefined.
\<close>

definition LongCompare :: "64 word \<Rightarrow> 64 word \<Rightarrow> int" where
  "LongCompare left right =
     (let result = left - right
      in if 0 < sint result then 1 else if result = 0 then 0 else - 1)"

definition IntCompare :: "32 word \<Rightarrow> 32 word \<Rightarrow> int" where
  "IntCompare left right = sint (left - right)"

text \<open>
  \<open>CopyOutOfArray\<close> and \<open>GetPointerFromString\<close> (Scalar.h) move the bytes of a value,
  least significant first. Reading a string shorter than the value is out of bounds.
\<close>

fun le_bytes :: "nat \<Rightarrow> nat \<Rightarrow> string" where
  "le_bytes 0 x = []"
| "le_bytes (Suc n) x = char_of (x mod 256) # le_bytes n (x div 256)"

fun le_value :: "string \<Rightarrow> nat" where
  "le_value [] = 0"
| "le_value (c # cs) = of_char c + 256 * le_value cs"

definition CopyOutOfArray :: "nat \<Rightarrow> 'a::len word \<Rightarrow> err + string" where
  "CopyOutOfArray n x = Inr (le_bytes n (unat x))"

definition GetPointerFromString :: "nat \<Rightarrow> string \<Rightarrow> err + 'a::len word" where
  "GetPointerFromString n s =
     (if n \<le> length s then Inr (of_nat (le_value (take n s))) else Inl OutOfBounds)"

definition LongType :: "64 word ScalarType" where
  "LongType = \<lparr>TypeName = ''Long'', TypeSize = 8, Compare = LongCompare,
     IndexOf = CompareIndexOf LongCompare, CopyOut = CopyOutOfArray 8,
     GetPointer = GetPointerFromString 8\<rparr>"

definition IntType :: "32 word ScalarType" where
  "IntType = \<lparr>TypeName = ''Int'', TypeSize = 4, Compare = IntCompare,
     IndexOf = CompareIndexOf IntCompare, CopyOut = CopyOutOfArray 4,
     GetPointer = GetPointerFromString 4\<rparr>"

lemma length_le_bytes [simp]: "length (le_bytes n x) = n"
  by (induction n arbitrary: x) auto

lemma le_value_bytes: "le_value (le_bytes n x) = x mod 256 ^ n"
proof (induction n arbitrary: x)
  case (Suc n)
  have "x mod 256 + 256 * (x div 256 mod 256 ^ n) = x mod (256 * 256 ^ n)"
    by (simp add: mod_mult2_eq)
  with Suc show ?case by simp
qed simp

lemma wire_round_trip:
  assumes "LENGTH('a) = 8 * n"
  shows "bindE (CopyOutOfArray n (x :: 'a::len word)) (GetPointerFromString n) = Inr x"
proof -
  have "unat x < 2 ^ (8 * n)" using unsigned_less [of x] assms by simp
  then have "unat x mod 256 ^ n = unat x" by (simp add: power_mult)
  then show ?thesis
    by (simp add: CopyOutOfArray_def GetPointerFromString_def le_value_bytes)
qed

text \<open>
  On the values whose differences fit the width, the comparisons are the order of the
  signed integers.
\<close>

lemma sint_diff:
  assumes "- (2 ^ (LENGTH('a) - 1)) \<le> sint (a :: 'a::len word) - sint b"
    and "sint a - sint b < 2 ^ (LENGTH('a) - 1)"
  shows "sint (a - b) = sint a - sint b"
  using assms by (simp add: sint_word_ariths signed_take_bit_int_eq_self)

definition half_range :: "'a::len word set" where
  "half_range = {x. - (2 ^ (LENGTH('a) - 2)) \<le> sint x \<and> sint x < 2 ^ (LENGTH('a) - 2)}"

lemma sint_diff_half_range:
  assumes "2 \<le> LENGTH('a)" "a \<in> half_range" "b \<in> half_range"
  shows "sint (a - b) = sint a - sint (b :: 'a::len word)"
proof -
  have "(2 :: int) ^ (LENGTH('a) - 1) = 2 * 2 ^ (LENGTH('a) - 2)"
    using assms(1) by (simp flip: power_Suc add: Suc_diff_le numeral_2_eq_2)
  with assms(2,3) show ?thesis by (intro sint_diff) (auto simp: half_range_def)
qed

lemma LongCompare_sgn:
  "a \<in> half_range \<Longrightarrow> b \<in> half_range \<Longrightarrow> LongCompare a b = sgn (sint a - sint b)"
  using sint_diff_half_range [of a b] signed_eq_0_iff [of "a - b"]
  by (auto simp: LongCompare_def Let_def sgn_if)

lemma IntCompare_diff:
  "a \<in> half_range \<Longrightarrow> b \<in> half_range \<Longrightarrow> IntCompare a b = sint a - sint b"
  using sint_diff_half_range [of a b] by (simp add: IntCompare_def)

interpretation longT: scalar_order LongType half_range
  by unfold_locales (auto simp: LongType_def LongCompare_sgn sgn_if split: if_splits)

interpretation intT: scalar_order IntType half_range
  by unfold_locales (auto simp: IntType_def IntCompare_diff)

subsection \<open>Bool\<close>

definition BoolCompare :: "bool \<Rightarrow> bool \<Rightarrow> int" where
  "BoolCompare left right = (if left = right then 0 else if left then 1 else - 1)"

definition BoolType :: "bool ScalarType" where
  "BoolType = \<lparr>TypeName = ''Bool'', TypeSize = 1, Compare = BoolCompare,
     IndexOf = CompareIndexOf BoolCompare,
     CopyOut = (\<lambda>b. Inr [char_of (if b then 1 else 0 :: nat)]),
     GetPointer = (\<lambda>s. case s of [] \<Rightarrow> Inl OutOfBounds | c # _ \<Rightarrow> Inr (of_char c \<noteq> (0 :: nat)))\<rparr>"

interpretation boolT: scalar_order BoolType UNIV
  by unfold_locales (auto simp: BoolType_def BoolCompare_def split: if_splits)

subsection \<open>String\<close>

text \<open>
  \<open>StringCompare\<close> (StringTypes.cpp) is \<open>strcasecmp\<close> on the C strings: it stops at
  the first NUL and folds the ASCII capitals.
\<close>

definition c_str :: "string \<Rightarrow> string" where
  "c_str s = takeWhile (\<lambda>c. c \<noteq> char_of (0 :: nat)) s"

definition tolower :: "char \<Rightarrow> int" where
  "tolower c = (let n = int (of_char c) in if 65 \<le> n \<and> n \<le> 90 then n + 32 else n)"

fun strcasecmp :: "string \<Rightarrow> string \<Rightarrow> int" where
  "strcasecmp [] [] = 0"
| "strcasecmp [] (d # ds) = - tolower d"
| "strcasecmp (c # cs) [] = tolower c"
| "strcasecmp (c # cs) (d # ds) =
     (if tolower c = tolower d then strcasecmp cs ds else tolower c - tolower d)"

definition StringCompare :: "string \<Rightarrow> string \<Rightarrow> int" where
  "StringCompare left right = strcasecmp (c_str left) (c_str right)"

text \<open>
  The size of \<open>std::string\<close> depends on the platform; 32 is that of the GNU library on 64-bit
  machines. No definition or lemma depends on it.
\<close>

definition StringType :: "string ScalarType" where
  "StringType = \<lparr>TypeName = ''String'', TypeSize = 32, Compare = StringCompare,
     IndexOf = CompareIndexOf StringCompare, CopyOut = Inr, GetPointer = Inr\<rparr>"

lemma tolower_pos: "c \<noteq> char_of (0 :: nat) \<Longrightarrow> 0 < tolower c"
proof -
  assume "c \<noteq> char_of (0 :: nat)"
  then have "of_char c \<noteq> (0 :: nat)" by (metis char_of_char)
  then show ?thesis by (simp add: tolower_def Let_def)
qed

definition no_nul :: "string \<Rightarrow> bool" where
  "no_nul s \<longleftrightarrow> (\<forall>c\<in>set s. 0 < tolower c)"

lemma no_nul_c_str: "no_nul (c_str s)"
  by (auto simp: no_nul_def c_str_def dest: set_takeWhileD intro: tolower_pos)

lemma no_nul_Cons [simp]: "no_nul (c # cs) \<longleftrightarrow> 0 < tolower c \<and> no_nul cs"
  by (simp add: no_nul_def)

lemma strcasecmp_sym: "strcasecmp s t = - strcasecmp t s"
  by (induction s t rule: strcasecmp.induct) auto

lemma strcasecmp_trans:
  "no_nul s \<Longrightarrow> no_nul t \<Longrightarrow> no_nul u \<Longrightarrow>
   strcasecmp s t \<le> 0 \<Longrightarrow> strcasecmp t u \<le> 0 \<Longrightarrow> strcasecmp s u \<le> 0"
proof (induction s t arbitrary: u rule: strcasecmp.induct)
  case (4 c cs d ds)
  then show ?case by (cases u) (auto split: if_splits)
qed (case_tac u; auto split: if_splits)+

lemma strcasecmp_refl: "strcasecmp s s = 0"
  by (induction s) auto

interpretation stringT: scalar_order StringType UNIV
proof unfold_locales
  fix a b c :: string
  show "Compare StringType a a = 0"
    by (simp add: StringType_def StringCompare_def strcasecmp_refl)
  show "Compare StringType a b < 0 \<longleftrightarrow> 0 < Compare StringType b a"
    using strcasecmp_sym [of "c_str a" "c_str b"]
    by (auto simp: StringType_def StringCompare_def)
  show "Compare StringType a c \<le> 0" if "Compare StringType a b \<le> 0" "Compare StringType b c \<le> 0"
    using that strcasecmp_trans [of "c_str a" "c_str b" "c_str c"] no_nul_c_str
    by (simp add: StringType_def StringCompare_def)
  show "IndexOf StringType = CompareIndexOf (Compare StringType)"
    by (simp add: StringType_def)
qed

section \<open>The wire format\<close>

text \<open>
  What the buffers rely on when they answer a request: every value in use is written to a
  wire string, and reading that string gives the value back.
\<close>

locale wire_type = scalar_order +
  assumes wire: "a \<in> K \<Longrightarrow> bindE (CopyOut ty a) (GetPointer ty) = Inr a"
begin

lemma CopyOut_total: "a \<in> K \<Longrightarrow> \<exists>s. CopyOut ty a = Inr s \<and> GetPointer ty s = Inr a"
  using wire by (simp add: bindE_Inr_conv)

end

interpretation longW: wire_type LongType half_range
  by unfold_locales (simp add: LongType_def wire_round_trip)

interpretation intW: wire_type IntType half_range
  by unfold_locales (simp add: IntType_def wire_round_trip)

interpretation boolW: wire_type BoolType UNIV
  by unfold_locales (simp add: BoolType_def)

interpretation stringW: wire_type StringType UNIV
  by unfold_locales (simp add: StringType_def)

section \<open>Properties\<close>

text \<open>
  C7. Binary search: over a strictly increasing array \<open>CompareIndexOf\<close> returns the index of
  an equal item, or the complement of the index that separates the smaller items from the
  greater ones.
\<close>

theorem CompareIndexOf_correct:
  assumes "scalar_order ty K" "sorted_wrt (\<lambda>a b. Compare ty a b < 0) items" "set items \<subseteq> K" "key \<in> K"
  shows "search_spec (Compare ty) items key (CompareIndexOf (Compare ty) items key)"
  using scalar_order.search_correct [OF assms] .

theorem CompareIndexOf_correct_witness:
  "search_spec BoolCompare [False, True] True (CompareIndexOf BoolCompare [False, True] True)"
  using CompareIndexOf_correct [OF boolT.scalar_order_axioms, of "[False, True]" True]
  by (simp add: BoolType_def BoolCompare_def)

text \<open>
  C11. Range of the comparison of long integers: \<open>LongCompare\<close> gives the sign of the
  difference exactly when the difference is representable in 64 bits; otherwise the
  subtraction has wrapped and the answer is the opposite one.
\<close>

theorem LongCompare_range:
  "LongCompare a b = (if - (2 ^ 63) \<le> sint a - sint b \<and> sint a - sint b < 2 ^ 63
     then sgn (sint a - sint b) else - sgn (sint a - sint b))"
proof (cases "- (2 ^ 63) \<le> sint a - sint b \<and> sint a - sint b < 2 ^ 63")
  case True
  then have "sint (a - b) = sint a - sint b" by (intro sint_diff) simp_all
  with True show ?thesis using signed_eq_0_iff [of "a - b"] by (auto simp: LongCompare_def Let_def sgn_if)
next
  case False
  have b: "- (2 ^ 63) \<le> sint a" "sint a < 2 ^ 63" "- (2 ^ 63) \<le> sint b" "sint b < 2 ^ 63"
    using sint_ge [of a] sint_lt [of a] sint_ge [of b] sint_lt [of b] by simp_all
  define d where "d = (if 0 < sint a - sint b then sint a - sint b - 2 ^ 64 else sint a - sint b + 2 ^ 64)"
  have "signed_take_bit 63 (sint a - sint b) = signed_take_bit 63 d"
    unfolding d_def by (simp add: signed_take_bit_eq_iff_take_bit_eq take_bit_eq_mod mod_diff_right_eq mod_add_right_eq)
  also have "signed_take_bit 63 d = d"
    using False b by (intro signed_take_bit_int_eq_self) (auto simp: d_def split: if_splits)
  finally have "sint (a - b) = d" by (simp add: sint_word_ariths)
  with False b show ?thesis
    using signed_eq_0_iff [of "a - b"] by (auto simp: LongCompare_def Let_def d_def sgn_if split: if_splits)
qed

text \<open>
  C12. Wire round trip: for the four types of scalars, the string \<open>CopyOut\<close> writes is read
  back by \<open>GetPointer\<close> as the same value, for every value of the type.
\<close>

theorem CopyOut_GetPointer:
  "bindE (CopyOut LongType l) (GetPointer LongType) = Inr l \<and>
   bindE (CopyOut IntType i) (GetPointer IntType) = Inr i \<and>
   bindE (CopyOut BoolType b) (GetPointer BoolType) = Inr b \<and>
   bindE (CopyOut StringType s) (GetPointer StringType) = Inr s"
  using boolW.wire stringW.wire by (simp_all add: LongType_def IntType_def wire_round_trip)

end
