(* ===== verification/BTree.thy ===== *)
theory BTree
  imports Scalar
begin

text \<open>
  The B-tree of \<open>FastoreCommon/Tree\<close> (BTree.h, BTree.cpp): the nodes as a store from
  addresses to nodes, the search paths, insertion with splits, deletion with
  rebalancing, and the iterators. Definitions only; the proofs are in the theories
  \<open>BTree_Rep\<close>, \<open>BTree_Insert\<close>, \<open>BTree_Delete\<close> and \<open>BTree_Iter\<close>.
\<close>

section \<open>Nodes, trees and paths\<close>

type_synonym addr = nat

text \<open>
  \<open>class Node\<close>. The parallel arrays \<open>_keys\<close> and \<open>_values\<close> of a leaf are one list of
  slots; the value of a slot is \<open>None\<close> in a key-only tree, whose \<open>_values\<close> is
  null. A branch has \<open>_count\<close> separators and \<open>_count + 1\<close> child pointers.
  \<open>_count\<close> is the length of the key list. A child list shorter than \<open>_count + 1\<close>
  stands for slots whose contents are not determined.
\<close>

datatype ('k, 'v) Node =
    Leaf "('k \<times> 'v option) list"
  | Branch "'k list" "addr list"

type_synonym ('k, 'v) heap = "addr \<Rightarrow> ('k, 'v) Node option"

fun node_count :: "('k, 'v) Node \<Rightarrow> nat" where
  "node_count (Leaf es) = length es"
| "node_count (Branch ks cs) = length ks"

text \<open>\<open>struct PathNode\<close> and \<open>struct Path\<close>: the branches from the root down, then the leaf.\<close>

type_synonym PathNode = "addr \<times> nat"

record Path =
  Branches :: "PathNode list"
  PathLeaf :: addr
  LeafIndex :: nat
  Match :: bool

text \<open>
  \<open>class BTree\<close>. Each tree owns its nodes: \<open>heap\<close> holds them and \<open>nextAddr\<close> is the
  address of the next \<open>new Node\<close>.
\<close>

record ('k, 'v) BTree =
  keyType :: "'k ScalarType"
  keyOnly :: bool
  root :: addr
  heap :: "('k, 'v) heap"
  nextAddr :: addr
  treeCount :: int
  listCapacity :: nat

definition DefaultListCapacity :: nat where
  "DefaultListCapacity = 64"

text \<open>The two constructors: with a value type, and with keys only.\<close>

definition new_BTree :: "'k ScalarType \<Rightarrow> bool \<Rightarrow> ('k, 'v) BTree" where
  "new_BTree ty ko = \<lparr>keyType = ty, keyOnly = ko, root = 0, heap = [0 \<mapsto> Leaf []],
     nextAddr = 1, treeCount = 0, listCapacity = 1\<rparr>"

text \<open>\<open>delete p\<close> on a node.\<close>

definition free :: "('k, 'v) BTree \<Rightarrow> addr \<Rightarrow> ('k, 'v) BTree" where
  "free T p = T\<lparr>heap := (heap T)(p := None)\<rparr>"

text \<open>A store through a node pointer.\<close>

definition store :: "('k, 'v) BTree \<Rightarrow> addr \<Rightarrow> ('k, 'v) Node \<Rightarrow> ('k, 'v) BTree" where
  "store T p n = T\<lparr>heap := (heap T)(p \<mapsto> n)\<rparr>"

text \<open>\<open>new Node(...)\<close>: a fresh address.\<close>

definition alloc :: "('k, 'v) BTree \<Rightarrow> ('k, 'v) Node \<Rightarrow> ('k, 'v) BTree" where
  "alloc T n = T\<lparr>heap := (heap T)(nextAddr T \<mapsto> n), nextAddr := Suc (nextAddr T)\<rparr>"

definition deref :: "('k, 'v) heap \<Rightarrow> addr \<Rightarrow> err + ('k, 'v) Node" where
  "deref h p = (case h p of None \<Rightarrow> Inl BadPointer | Some n \<Rightarrow> Inr n)"

definition deref_leaf :: "('k, 'v) heap \<Rightarrow> addr \<Rightarrow> err + ('k \<times> 'v option) list" where
  "deref_leaf h p = (case h p of Some (Leaf es) \<Rightarrow> Inr es | _ \<Rightarrow> Inl BadPointer)"

definition deref_branch :: "('k, 'v) heap \<Rightarrow> addr \<Rightarrow> err + 'k list \<times> addr list" where
  "deref_branch h p = (case h p of Some (Branch ks cs) \<Rightarrow> Inr (ks, cs) | _ \<Rightarrow> Inl BadPointer)"

text \<open>Reading a child slot.\<close>

definition child :: "addr list \<Rightarrow> nat \<Rightarrow> err + addr" where
  "child cs i = (if i < length cs then Inr (cs ! i) else Inl Indeterminate)"

section \<open>Search\<close>

text \<open>\<open>Node::IndexOf(key, match)\<close>, for leaves.\<close>

definition leaf_IndexOf :: "'k ScalarType \<Rightarrow> 'k list \<Rightarrow> 'k \<Rightarrow> nat \<times> bool" where
  "leaf_IndexOf ty ks key =
     (let n = IndexOf ty ks key; match = 0 \<le> n
      in (if match then nat n else nat (- n - 1), match))"

text \<open>\<open>Node::IndexOf(key)\<close>, for branches.\<close>

definition branch_IndexOf :: "'k ScalarType \<Rightarrow> 'k list \<Rightarrow> 'k \<Rightarrow> nat" where
  "branch_IndexOf ty ks key =
     (let result = IndexOf ty ks key
      in if 0 \<le> result then nat (result + 1) else nat (- result - 1))"

text \<open>
  \<open>Node::GetPath\<close>. The descent follows pointers, so it carries fuel; a tree has fewer
  levels than addresses, and \<open>GetPath\<close> passes \<open>nextAddr\<close>.
\<close>

fun Node_GetPath :: "nat \<Rightarrow> 'k ScalarType \<Rightarrow> ('k, 'v) heap \<Rightarrow> addr \<Rightarrow> 'k \<Rightarrow> PathNode list \<Rightarrow> err + Path" where
  "Node_GetPath 0 ty h p key brs = Inl NoFuel"
| "Node_GetPath (Suc fuel) ty h p key brs =
     (case h p of
        None \<Rightarrow> Inl BadPointer
      | Some (Branch ks cs) \<Rightarrow>
          (let index = branch_IndexOf ty ks key
           in bindE (child cs index)
                (\<lambda>c. Node_GetPath fuel ty h c key (brs @ [(p, index)])))
      | Some (Leaf es) \<Rightarrow>
          (let (i, match) = leaf_IndexOf ty (map fst es) key
           in Inr \<lparr>Branches = brs, PathLeaf = p, LeafIndex = i, Match = match\<rparr>))"

definition GetPath :: "('k, 'v) BTree \<Rightarrow> 'k \<Rightarrow> err + Path" where
  "GetPath T key = Node_GetPath (nextAddr T) (keyType T) (heap T) (root T) key []"

fun SeekToFirst :: "nat \<Rightarrow> ('k, 'v) heap \<Rightarrow> addr \<Rightarrow> PathNode list \<Rightarrow> err + Path" where
  "SeekToFirst 0 h p brs = Inl NoFuel"
| "SeekToFirst (Suc fuel) h p brs =
     (case h p of
        None \<Rightarrow> Inl BadPointer
      | Some (Branch ks cs) \<Rightarrow>
          bindE (child cs 0) (\<lambda>c. SeekToFirst fuel h c (brs @ [(p, 0)]))
      | Some (Leaf es) \<Rightarrow> Inr \<lparr>Branches = brs, PathLeaf = p, LeafIndex = 0, Match = False\<rparr>)"

fun SeekToLast :: "nat \<Rightarrow> ('k, 'v) heap \<Rightarrow> addr \<Rightarrow> PathNode list \<Rightarrow> err + Path" where
  "SeekToLast 0 h p brs = Inl NoFuel"
| "SeekToLast (Suc fuel) h p brs =
     (case h p of
        None \<Rightarrow> Inl BadPointer
      | Some (Branch ks cs) \<Rightarrow>
          bindE (child cs (length ks)) (\<lambda>c. SeekToLast fuel h c (brs @ [(p, length ks)]))
      | Some (Leaf es) \<Rightarrow>
          Inr \<lparr>Branches = brs, PathLeaf = p, LeafIndex = length es - 1, Match = False\<rparr>)"

text \<open>\<open>Node::GetChildKey\<close>: the first key of the leftmost leaf below a node.\<close>

fun GetChildKey :: "nat \<Rightarrow> ('k, 'v) heap \<Rightarrow> addr \<Rightarrow> err + 'k" where
  "GetChildKey 0 h p = Inl NoFuel"
| "GetChildKey (Suc fuel) h p =
     (case h p of
        None \<Rightarrow> Inl BadPointer
      | Some (Branch ks cs) \<Rightarrow> bindE (child cs 0) (GetChildKey fuel h)
      | Some (Leaf es) \<Rightarrow> (case es of [] \<Rightarrow> Inl Indeterminate | e # _ \<Rightarrow> Inr (fst e)))"

text \<open>
  \<open>Node::GetKey\<close>: the key of the first slot whose value satisfies the predicate. The
  predicate is a callback that can fail.
\<close>

fun GetKey_loop :: "('v option \<Rightarrow> err + bool) \<Rightarrow> ('k \<times> 'v option) list \<Rightarrow> err + 'k" where
  "GetKey_loop pred [] = Inl (Throw ''Value not found in Node!'')"
| "GetKey_loop pred ((k, v) # es) =
     bindE (pred v) (\<lambda>b. if b then Inr k else GetKey_loop pred es)"

definition Node_GetKey :: "('k, 'v) heap \<Rightarrow> addr \<Rightarrow> ('v option \<Rightarrow> err + bool) \<Rightarrow> err + 'k" where
  "Node_GetKey h p pred = bindE (deref_leaf h p) (GetKey_loop pred)"

section \<open>Insertion\<close>

text \<open>\<open>struct Split\<close>: the separator and the new right node.\<close>

type_synonym 'k Split = "'k \<times> addr"

text \<open>
  \<open>BTree::DoValuesMoved\<close>: the calls of the values-moved callback for the slots of a leaf,
  in order. The callback of a buffer changes its other tree only, so the calls are
  returned and replayed by the buffer.
\<close>

definition DoValuesMoved :: "addr \<Rightarrow> ('k \<times> 'v option) list \<Rightarrow> ('v \<times> addr) list" where
  "DoValuesMoved p es = List.map_filter (\<lambda>(k, v). map_option (\<lambda>x. (x, p)) v) es"

text \<open>The slot written by \<open>InternalInsertIndex\<close>: no value in a key-only tree.\<close>

definition slot :: "('k, 'v) BTree \<Rightarrow> 'k \<Rightarrow> 'v \<Rightarrow> 'k \<times> 'v option" where
  "slot T key v = (key, if keyOnly T then None else Some v)"

text \<open>\<open>Node::Insert(index, key, value)\<close>, for leaves.\<close>

definition Leaf_Insert ::
  "('k, 'v) BTree \<Rightarrow> addr \<Rightarrow> nat \<Rightarrow> 'k \<Rightarrow> 'v \<Rightarrow> err + ('k, 'v) BTree \<times> 'k Split option \<times> ('v \<times> addr) list"
where
  "Leaf_Insert T p index key v =
     bindE (deref_leaf (heap T) p) (\<lambda>es.
       if length es < index then Inl OutOfBounds
       else if length es \<noteq> listCapacity T then
         Inr (store T p (Leaf (insert_at index (slot T key v) es)), None, [])
       else
         (let n = (listCapacity T + 1) div 2;
              c = length es - n;
              new = take n (drop n es);
              old = take c es;
              new' = (if index < c then new else insert_at (index - c) (slot T key v) new);
              old' = (if index < c then insert_at index (slot T key v) old else old);
              q = nextAddr T
          in bindE (nthE new' 0) (\<lambda>e.
               Inr (alloc (store T p (Leaf old')) (Leaf new'), Some (fst e, q),
                    DoValuesMoved q new'))))"

text \<open>\<open>Node::Insert(index, key, child)\<close>, for branches.\<close>

definition Branch_Insert ::
  "('k, 'v) BTree \<Rightarrow> addr \<Rightarrow> nat \<Rightarrow> 'k \<Rightarrow> addr \<Rightarrow> err + ('k, 'v) BTree \<times> 'k Split option"
where
  "Branch_Insert T p index key c =
     bindE (deref_branch (heap T) p) (\<lambda>(ks, cs).
       if length ks < index then Inl OutOfBounds
       else if length ks \<noteq> listCapacity T - 1 then
         Inr (store T p (Branch (insert_at index key ks) (insert_at (Suc index) c cs)), None)
       else
         (let mid = (length ks + 1) div 2;
              n = length ks - mid;
              newKs = take n (drop mid ks);
              newCs = take (n + 1) (drop mid cs);
              oldKs = take (mid - 1) ks;
              oldCs = take mid cs;
              q = nextAddr T;
              old' = (if index \<le> mid - 1
                      then Branch (insert_at index key oldKs) (insert_at (Suc index) c oldCs)
                      else Branch oldKs oldCs);
              new' = (if index \<le> mid - 1 then Branch newKs newCs
                      else Branch (insert_at (index - mid) key newKs)
                                  (insert_at (Suc (index - mid)) c newCs))
          in bindE (child newCs 0) (\<lambda>c0.
             bindE (GetChildKey (nextAddr T) (heap T) c0) (\<lambda>k.
               Inr (alloc (store T p old') new', Some (k, q))))))"

text \<open>The loop of \<open>BTree::Insert\<close> over the branches of the path, innermost first.\<close>

fun Insert_loop ::
  "('k, 'v) BTree \<Rightarrow> PathNode list \<Rightarrow> 'k Split option \<Rightarrow> err + ('k, 'v) BTree \<times> 'k Split option"
where
  "Insert_loop T brs None = Inr (T, None)"
| "Insert_loop T [] (Some s) = Inr (T, Some s)"
| "Insert_loop T ((p, index) # brs) (Some (key, node)) =
     bindE (Branch_Insert T p index key node) (\<lambda>(T', result). Insert_loop T' brs result)"

text \<open>
  The first part of \<open>BTree::Insert\<close>: a full root leaf of a tree that has not reached its
  final capacity is replaced by one of twice the capacity.
\<close>

definition Insert_leaf ::
  "('k, 'v) BTree \<Rightarrow> Path \<Rightarrow> 'k \<Rightarrow> 'v \<Rightarrow> err + ('k, 'v) BTree \<times> 'k Split option \<times> ('v \<times> addr) list"
where
  "Insert_leaf T path key v =
     bindE (deref (heap T) (PathLeaf path)) (\<lambda>leaf.
       if listCapacity T < DefaultListCapacity \<and> node_count leaf = listCapacity T then
         bindE (deref_leaf (heap T) (root T)) (\<lambda>es.
           (let temp = nextAddr T;
                T1 = alloc (T\<lparr>listCapacity := listCapacity T * 2\<rparr>) (Leaf es);
                T2 = (free T1 (root T))\<lparr>root := temp\<rparr>
            in bindE (Leaf_Insert T2 temp (LeafIndex path) key v) (\<lambda>(T3, result, moved).
               bindE (deref_leaf (heap T3) temp) (\<lambda>es'.
                 Inr (T3, result, moved @ DoValuesMoved temp es')))))
       else Leaf_Insert T (PathLeaf path) (LeafIndex path) key v)"

definition Insert ::
  "('k, 'v) BTree \<Rightarrow> Path \<Rightarrow> 'k \<Rightarrow> 'v \<Rightarrow> err + ('k, 'v) BTree \<times> ('v \<times> addr) list"
where
  "Insert T path key v =
     bindE (Insert_leaf T path key v) (\<lambda>(T1, result, moved).
     bindE (Insert_loop T1 (rev (Branches path)) result) (\<lambda>(T2, result').
       (case result' of
          None \<Rightarrow> Inr (T2\<lparr>treeCount := treeCount T2 + 1\<rparr>, moved)
        | Some (k, right) \<Rightarrow>
            (let T3 = alloc T2 (Branch [k] [root T2, right])
             in Inr (T3\<lparr>root := nextAddr T2, treeCount := treeCount T3 + 1\<rparr>, moved)))))"

section \<open>Deletion\<close>

text \<open>\<open>Node::Delete(index)\<close>, for leaves.\<close>

definition Leaf_Delete :: "('k, 'v) BTree \<Rightarrow> addr \<Rightarrow> nat \<Rightarrow> err + ('k, 'v) BTree" where
  "Leaf_Delete T p index =
     bindE (deref_leaf (heap T) p) (\<lambda>es.
       if index < length es then Inr (store T p (Leaf (delete_at index es)))
       else Inl OutOfBounds)"

text \<open>\<open>path.Branches.at(i)\<close>.\<close>

definition path_at :: "PathNode list \<Rightarrow> nat \<Rightarrow> err + PathNode" where
  "path_at brs i = (if i < length brs then Inr (brs ! i) else Inl (Throw ''out_of_range''))"

text \<open>
  \<open>Node::UpdateKey\<close>. The recursive call goes to the node the path holds at \<open>depth\<close>, with
  the index it holds there. Keys are values here. In the program a separator is a bytewise copy
  of the key it is taken from; for the types of fixed width that is the same thing, while a
  separator of type \<open>std::string\<close> shares the buffer of the key and can outlive it.
\<close>

definition SetKey :: "('k, 'v) BTree \<Rightarrow> addr \<Rightarrow> nat \<Rightarrow> err + ('k, 'v) BTree" where
  "SetKey T p index =
     bindE (deref_branch (heap T) p) (\<lambda>(ks, cs).
     bindE (child cs index) (\<lambda>c.
     bindE (GetChildKey (nextAddr T) (heap T) c) (\<lambda>k.
       if index - 1 < length ks then Inr (store T p (Branch (ks[index - 1 := k]) cs))
       else Inl OutOfBounds)))"

fun UpdateKey :: "nat \<Rightarrow> ('k, 'v) BTree \<Rightarrow> addr \<Rightarrow> nat \<Rightarrow> PathNode list \<Rightarrow> err + ('k, 'v) BTree" where
  "UpdateKey 0 T p index brs =
     bindE (path_at brs 0) (\<lambda>pathNode. if index \<noteq> 0 then SetKey T p index else Inr T)"
| "UpdateKey (Suc depth) T p index brs =
     bindE (path_at brs (Suc depth)) (\<lambda>pathNode.
       if index \<noteq> 0 then SetKey T p index
       else UpdateKey depth T (fst pathNode) (snd pathNode) brs)"

text \<open>
  \<open>Node::BranchDelete\<close>: removes a separator and the child to its right. It moves
  \<open>_count - index\<close> keys and children, one of each more than there are behind the removed
  ones; on a full branch, whose arrays have \<open>_listCapacity - 1\<close> keys and \<open>_listCapacity\<close>
  children, that reads behind both arrays.
\<close>

definition BranchDelete :: "('k, 'v) BTree \<Rightarrow> addr \<Rightarrow> nat \<Rightarrow> err + ('k, 'v) BTree" where
  "BranchDelete T p index =
     bindE (deref_branch (heap T) p) (\<lambda>(ks, cs).
       if index < length ks \<and> length ks < listCapacity T - 1
       then Inr (store T p (Branch (delete_at index ks) (delete_at (Suc index) cs)))
       else Inl OutOfBounds)"

text \<open>The sibling pointers of both rebalancing routines; \<open>None\<close> is a null pointer.\<close>

definition right_sibling :: "'k list \<Rightarrow> addr list \<Rightarrow> nat \<Rightarrow> err + addr option" where
  "right_sibling pks pcs pIndex =
     (if pIndex < length pks then bindE (child pcs (pIndex + 1)) (\<lambda>q. Inr (Some q)) else Inr None)"

definition left_sibling :: "addr list \<Rightarrow> nat \<Rightarrow> err + addr option" where
  "left_sibling pcs pIndex =
     (if 0 < pIndex then bindE (child pcs (pIndex - 1)) (\<lambda>q. Inr (Some q)) else Inr None)"

text \<open>A test \<open>sib != NULL && ... sib->_count ...\<close>.\<close>

definition sib_test :: "('k, 'v) heap \<Rightarrow> addr option \<Rightarrow> (nat \<Rightarrow> bool) \<Rightarrow> err + bool" where
  "sib_test h sib P =
     (case sib of None \<Rightarrow> Inr False | Some q \<Rightarrow> bindE (deref h q) (\<lambda>n. Inr (P (node_count n))))"

subsection \<open>Branches\<close>

text \<open>
  The four cases of \<open>Node::RebalanceBranch\<close>, for the node \<open>p\<close> at position \<open>Suc d\<close> of the
  path, with its parent \<open>pp\<close> at position \<open>d\<close>.
\<close>

definition BranchBorrowRight ::
  "nat \<Rightarrow> ('k, 'v) BTree \<Rightarrow> addr \<Rightarrow> addr \<Rightarrow> addr \<Rightarrow> nat \<Rightarrow> PathNode list \<Rightarrow> err + ('k, 'v) BTree"
where
  "BranchBorrowRight d T p q pp pIndex brs =
     bindE (deref_branch (heap T) p) (\<lambda>(ks, cs).
     bindE (deref_branch (heap T) q) (\<lambda>(rks, rcs).
     bindE (child rcs 0) (\<lambda>c0.
     bindE (GetChildKey (nextAddr T) (heap T) c0) (\<lambda>k.
       UpdateKey d
         (store (store T p (Branch (ks @ [k]) (cs @ [c0]))) q (Branch (tl rks) (tl rcs)))
         pp (pIndex + 1) brs))))"

text \<open>
  Borrowing from the left reads the child array itself as a node (the cast of line 601
  has no dereference).
\<close>

definition BranchBorrowLeft :: "err + ('k, 'v) BTree" where
  "BranchBorrowLeft = Inl BadPointer"

definition BranchMergeRight ::
  "nat \<Rightarrow> ('k, 'v) BTree \<Rightarrow> addr \<Rightarrow> addr \<Rightarrow> addr \<Rightarrow> nat \<Rightarrow> PathNode list \<Rightarrow> err + ('k, 'v) BTree"
where
  "BranchMergeRight d T p q pp pIndex brs =
     bindE (deref_branch (heap T) p) (\<lambda>(ks, cs).
     bindE (deref_branch (heap T) q) (\<lambda>(rks, rcs).
     bindE (child rcs 0) (\<lambda>c0.
     bindE (GetChildKey (nextAddr T) (heap T) c0) (\<lambda>k.
     bindE (BranchDelete (free (store T p (Branch (ks @ k # rks) (cs @ rcs))) q) pp pIndex) (\<lambda>T'.
       if pIndex = 0 then UpdateKey d T' pp 0 brs else Inr T')))))"

text \<open>
  Merging into the left sibling copies \<open>_count\<close> child pointers and not \<open>_count + 1\<close>: the
  slot of the last child is not written.
\<close>

definition BranchMergeLeft ::
  "('k, 'v) BTree \<Rightarrow> addr \<Rightarrow> addr \<Rightarrow> addr \<Rightarrow> nat \<Rightarrow> err + ('k, 'v) BTree"
where
  "BranchMergeLeft T p q pp pIndex =
     bindE (deref_branch (heap T) p) (\<lambda>(ks, cs).
     bindE (deref_branch (heap T) q) (\<lambda>(lks, lcs).
     bindE (child cs 0) (\<lambda>c0.
     bindE (GetChildKey (nextAddr T) (heap T) c0) (\<lambda>k.
       BranchDelete
         (free (store T q (Branch (lks @ k # ks) (lcs @ take (length ks) cs))) p)
         pp (pIndex - 1)))))"

fun RebalanceBranch ::
  "nat \<Rightarrow> ('k, 'v) BTree \<Rightarrow> addr \<Rightarrow> PathNode list \<Rightarrow> err + ('k, 'v) BTree \<times> addr option"
where
  "RebalanceBranch 0 T p brs =
     bindE (deref_branch (heap T) p) (\<lambda>(ks, cs).
       if length ks = 0 then bindE (child cs 0) (\<lambda>c. Inr (free T p, Some c))
       else Inr (T, None))"
| "RebalanceBranch (Suc d) T p brs =
     bindE (deref_branch (heap T) p) (\<lambda>(ks, cs).
       if listCapacity T div 2 \<le> length ks + 1 then Inr (T, None)
       else
         bindE (path_at brs d) (\<lambda>(pp, pIndex).
         bindE (deref_branch (heap T) pp) (\<lambda>(pks, pcs).
         bindE (right_sibling pks pcs pIndex) (\<lambda>rightSib.
         bindE (left_sibling pcs pIndex) (\<lambda>leftSib.
         bindE (sib_test (heap T) rightSib (\<lambda>c. listCapacity T div 2 < c + 1)) (\<lambda>borrowRight.
         if borrowRight then
           bindE (BranchBorrowRight d T p (the rightSib) pp pIndex brs) (\<lambda>T'. Inr (T', None))
         else
         bindE (sib_test (heap T) leftSib (\<lambda>c. listCapacity T div 2 < c + 1)) (\<lambda>borrowLeft.
         if borrowLeft then bindE BranchBorrowLeft (\<lambda>T'. Inr (T', None))
         else
         bindE (sib_test (heap T) rightSib (\<lambda>c. c + 1 + length ks + 1 \<le> listCapacity T)) (\<lambda>mergeRight.
         if mergeRight then
           bindE (BranchMergeRight d T p (the rightSib) pp pIndex brs) (\<lambda>T'.
             RebalanceBranch d T' pp brs)
         else
         bindE (sib_test (heap T) leftSib (\<lambda>c. c + 1 + length ks + 1 \<le> listCapacity T)) (\<lambda>mergeLeft.
         if mergeLeft then
           bindE (BranchMergeLeft T p (the leftSib) pp pIndex) (\<lambda>T'.
             RebalanceBranch d T' pp brs)
         else Inl (Throw ''Branch rebalancing failed'') )))))))))"

subsection \<open>Leaves\<close>

text \<open>
  The four cases of \<open>Node::RebalanceLeaf\<close>. Each of them copies through \<open>_values\<close> without
  asking for \<open>_keyOnly\<close>, so that a key-only tree dereferences a null pointer. None of them
  calls \<open>DoValuesMoved\<close>. The borrowing cases shift an array with a \<open>memcpy\<close> whose source and
  destination overlap, which C++ leaves undefined; it is taken here to move the entries, as
  \<open>memmove\<close> does, also in the borrowing cases of branches and in \<open>BranchDelete\<close>.
\<close>

definition LeafBorrowRight ::
  "nat \<Rightarrow> ('k, 'v) BTree \<Rightarrow> addr \<Rightarrow> addr \<Rightarrow> addr \<Rightarrow> nat \<Rightarrow> PathNode list \<Rightarrow> err + ('k, 'v) BTree"
where
  "LeafBorrowRight d T p q pp pIndex brs =
     bindE (deref_leaf (heap T) p) (\<lambda>es.
     bindE (deref_leaf (heap T) q) (\<lambda>res.
     bindE (nthE res 0) (\<lambda>e.
       if keyOnly T then Inl NullPointer
       else UpdateKey d (store (store T p (Leaf (es @ [e]))) q (Leaf (tl res))) pp (pIndex + 1) brs)))"

definition LeafBorrowLeft ::
  "nat \<Rightarrow> ('k, 'v) BTree \<Rightarrow> addr \<Rightarrow> addr \<Rightarrow> addr \<Rightarrow> nat \<Rightarrow> PathNode list \<Rightarrow> err + ('k, 'v) BTree"
where
  "LeafBorrowLeft d T p q pp pIndex brs =
     bindE (deref_leaf (heap T) p) (\<lambda>es.
     bindE (deref_leaf (heap T) q) (\<lambda>les.
     bindE (nthE les (length les - 1)) (\<lambda>e.
       if keyOnly T then Inl NullPointer
       else UpdateKey d (store (store T p (Leaf (e # es))) q (Leaf (butlast les))) pp pIndex brs)))"

definition LeafMergeRight ::
  "nat \<Rightarrow> ('k, 'v) BTree \<Rightarrow> addr \<Rightarrow> addr \<Rightarrow> addr \<Rightarrow> nat \<Rightarrow> PathNode list \<Rightarrow> err + ('k, 'v) BTree"
where
  "LeafMergeRight d T p q pp pIndex brs =
     bindE (deref_leaf (heap T) p) (\<lambda>es.
     bindE (deref_leaf (heap T) q) (\<lambda>res.
       if keyOnly T then Inl NullPointer
       else
         bindE (BranchDelete (free (store T p (Leaf (es @ res))) q) pp pIndex) (\<lambda>T'.
           if pIndex = 0 then UpdateKey d T' pp 0 brs else Inr T')))"

definition LeafMergeLeft ::
  "('k, 'v) BTree \<Rightarrow> addr \<Rightarrow> addr \<Rightarrow> addr \<Rightarrow> nat \<Rightarrow> err + ('k, 'v) BTree"
where
  "LeafMergeLeft T p q pp pIndex =
     bindE (deref_leaf (heap T) p) (\<lambda>es.
     bindE (deref_leaf (heap T) q) (\<lambda>les.
       if keyOnly T then Inl NullPointer
       else BranchDelete (free (store T q (Leaf (les @ es))) p) pp (pIndex - 1)))"

definition RebalanceLeaf ::
  "nat \<Rightarrow> ('k, 'v) BTree \<Rightarrow> addr \<Rightarrow> PathNode list \<Rightarrow> err + ('k, 'v) BTree \<times> addr option"
where
  "RebalanceLeaf depth T p brs =
     bindE (deref_leaf (heap T) p) (\<lambda>es.
       if listCapacity T div 2 \<le> length es \<or> depth = 0 then Inr (T, None)
       else
         bindE (path_at brs (depth - 1)) (\<lambda>(pp, pIndex).
         bindE (deref_branch (heap T) pp) (\<lambda>(pks, pcs).
         bindE (right_sibling pks pcs pIndex) (\<lambda>rightSib.
         bindE (left_sibling pcs pIndex) (\<lambda>leftSib.
         bindE (sib_test (heap T) rightSib (\<lambda>c. listCapacity T div 2 < c)) (\<lambda>borrowRight.
         if borrowRight then
           bindE (LeafBorrowRight (depth - 1) T p (the rightSib) pp pIndex brs) (\<lambda>T'. Inr (T', None))
         else
         bindE (sib_test (heap T) leftSib (\<lambda>c. listCapacity T div 2 < c)) (\<lambda>borrowLeft.
         if borrowLeft then
           bindE (LeafBorrowLeft (depth - 1) T p (the leftSib) pp pIndex brs) (\<lambda>T'. Inr (T', None))
         else
         bindE (sib_test (heap T) rightSib (\<lambda>c. c + length es \<le> listCapacity T)) (\<lambda>mergeRight.
         if mergeRight then
           bindE (LeafMergeRight (depth - 1) T p (the rightSib) pp pIndex brs) (\<lambda>T'.
             RebalanceBranch (depth - 1) T' pp brs)
         else
         bindE (sib_test (heap T) leftSib (\<lambda>c. c + length es \<le> listCapacity T)) (\<lambda>mergeLeft.
         if mergeLeft then
           bindE (LeafMergeLeft T p (the leftSib) pp pIndex) (\<lambda>T'.
             RebalanceBranch (depth - 1) T' pp brs)
         else Inl (Throw ''Leaf rebalancing failed'') )))))))))"

text \<open>\<open>BTree::Delete\<close>.\<close>

definition Delete :: "('k, 'v) BTree \<Rightarrow> Path \<Rightarrow> err + ('k, 'v) BTree" where
  "Delete T path =
     bindE (Leaf_Delete T (PathLeaf path) (LeafIndex path)) (\<lambda>T1.
       if PathLeaf path = root T1 then Inr (T1\<lparr>treeCount := treeCount T1 - 1\<rparr>)
       else
         (let brs = Branches path; depth = length brs
          in bindE (if LeafIndex path = 0
                    then bindE (path_at brs (depth - 1)) (\<lambda>(pn, i). UpdateKey (depth - 1) T1 pn i brs)
                    else Inr T1) (\<lambda>T2.
             bindE (RebalanceLeaf depth T2 (PathLeaf path) brs) (\<lambda>(T3, result).
               (let T4 = (case result of None \<Rightarrow> T3 | Some r \<Rightarrow> T3\<lparr>root := r\<rparr>)
                in Inr (T4\<lparr>treeCount := treeCount T4 - 1\<rparr>))))))"

section \<open>Iterators\<close>

text \<open>\<open>class BTree::iterator\<close>.\<close>

record iter =
  itPath :: Path
  eof :: bool

text \<open>
  The loops of \<open>MoveNext\<close> and \<open>MovePrior\<close> that drop the branches that are at their last
  (first) child; the branches are innermost first.
\<close>

fun pop_maxed :: "('k, 'v) heap \<Rightarrow> PathNode list \<Rightarrow> err + PathNode list" where
  "pop_maxed h [] = Inr []"
| "pop_maxed h ((p, i) # brs) =
     bindE (deref h p) (\<lambda>n. if i = node_count n then pop_maxed h brs else Inr ((p, i) # brs))"

fun pop_min :: "PathNode list \<Rightarrow> PathNode list" where
  "pop_min [] = []"
| "pop_min ((p, i) # brs) = (if i = 0 then pop_min brs else (p, i) # brs)"

definition MoveNext :: "('k, 'v) BTree \<Rightarrow> iter \<Rightarrow> err + iter" where
  "MoveNext T it =
     (if eof it then Inl (Throw ''Iteration past end of tree'')
      else
        (let path = itPath it
         in bindE (deref (heap T) (PathLeaf path)) (\<lambda>leaf.
              if int (node_count leaf) - 1 \<le> int (LeafIndex path) then
                bindE (pop_maxed (heap T) (rev (Branches path))) (\<lambda>brs.
                  (case brs of
                     [] \<Rightarrow> Inr \<lparr>itPath = path\<lparr>LeafIndex := node_count leaf\<rparr>, eof = True\<rparr>
                   | (p, i) # up \<Rightarrow>
                       bindE (deref_branch (heap T) p) (\<lambda>(ks, cs).
                       bindE (child cs (i + 1)) (\<lambda>c.
                       bindE (SeekToFirst (nextAddr T) (heap T) c (rev up @ [(p, i + 1)])) (\<lambda>path'.
                         Inr \<lparr>itPath = path', eof = False\<rparr>)))))
              else Inr (it\<lparr>itPath := path\<lparr>LeafIndex := LeafIndex path + 1\<rparr>\<rparr>))))"

definition MovePrior :: "('k, 'v) BTree \<Rightarrow> iter \<Rightarrow> err + iter" where
  "MovePrior T it =
     (let path = itPath it
      in if LeafIndex path = 0 then
           (case pop_min (rev (Branches path)) of
              [] \<Rightarrow> Inl (Throw ''Iteration past start of tree'')
            | (p, i) # up \<Rightarrow>
                bindE (deref_branch (heap T) p) (\<lambda>(ks, cs).
                bindE (child cs (i - 1)) (\<lambda>c.
                bindE (SeekToLast (nextAddr T) (heap T) c (rev up @ [(p, i - 1)])) (\<lambda>path'.
                  Inr \<lparr>itPath = path', eof = False\<rparr>))))
         else Inr \<lparr>itPath = path\<lparr>LeafIndex := LeafIndex path - 1\<rparr>, eof = False\<rparr>)"

text \<open>The constructor of the iterator, which validates the path.\<close>

definition new_iterator :: "('k, 'v) BTree \<Rightarrow> Path \<Rightarrow> err + iter" where
  "new_iterator T path =
     (let it = \<lparr>itPath = path, eof = False\<rparr>
      in if Match path then Inr it
         else
           bindE (deref (heap T) (PathLeaf path)) (\<lambda>leaf.
           bindE (if node_count leaf \<le> LeafIndex path \<and> Branches path \<noteq> []
                  then bindE (deref (heap T) (fst (last (Branches path)))) (\<lambda>n.
                         if snd (last (Branches path)) < node_count n then MoveNext T it else Inr it)
                  else Inr it) (\<lambda>it1.
           bindE (deref (heap T) (PathLeaf (itPath it1))) (\<lambda>leaf1.
             Inr (if node_count leaf1 \<le> LeafIndex (itPath it1) then it1\<lparr>eof := True\<rparr> else it1)))))"

definition SeekToBegin :: "('k, 'v) BTree \<Rightarrow> err + Path" where
  "SeekToBegin T = SeekToFirst (nextAddr T) (heap T) (root T) []"

definition SeekToEnd :: "('k, 'v) BTree \<Rightarrow> err + Path" where
  "SeekToEnd T =
     bindE (SeekToLast (nextAddr T) (heap T) (root T) []) (\<lambda>path.
     bindE (deref (heap T) (PathLeaf path)) (\<lambda>leaf.
       Inr (path\<lparr>LeafIndex := node_count leaf\<rparr>)))"

definition iter_begin :: "('k, 'v) BTree \<Rightarrow> err + iter" where
  "iter_begin T = bindE (SeekToBegin T) (new_iterator T)"

definition iter_end :: "('k, 'v) BTree \<Rightarrow> err + iter" where
  "iter_end T = bindE (SeekToEnd T) (new_iterator T)"

definition iter_find :: "('k, 'v) BTree \<Rightarrow> 'k \<Rightarrow> err + iter" where
  "iter_find T key =
     bindE (GetPath T key) (\<lambda>p. if Match p then new_iterator T p else iter_end T)"

definition iter_findNearest :: "('k, 'v) BTree \<Rightarrow> 'k \<Rightarrow> err + iter \<times> bool" where
  "iter_findNearest T key =
     bindE (GetPath T key) (\<lambda>p. bindE (new_iterator T p) (\<lambda>it. Inr (it, Match p)))"

text \<open>\<open>operator==\<close> and \<open>operator*\<close>.\<close>

definition iter_eq :: "iter \<Rightarrow> iter \<Rightarrow> bool" where
  "iter_eq a b = (PathLeaf (itPath a) = PathLeaf (itPath b) \<and>
     LeafIndex (itPath a) = LeafIndex (itPath b) \<and> eof a = eof b)"

definition iter_get :: "('k, 'v) BTree \<Rightarrow> iter \<Rightarrow> err + 'k \<times> 'v option" where
  "iter_get T it =
     bindE (deref_leaf (heap T) (PathLeaf (itPath it))) (\<lambda>es.
       if length es \<le> LeafIndex (itPath it) then Inl (Throw ''Iterator not dereferenceable'')
       else nthE es (LeafIndex (itPath it)))"

end
