(* ===== verification/BTree_Rep.thy ===== *)
theory BTree_Rep
  imports BTree "HOL-Library.Multiset"
begin

text \<open>
  The abstract trees the node store of a B-tree stands for, and the invariant of the
  tree. A path is a zipper into the abstract tree (a list of frames, innermost first);
  the store represents a tree exactly when it represents the focus and the frames, so
  that an operation on one node is followed by rewriting with the frame rules. Order is
  one \<open>sorted_wrt\<close> over the sequence of separators and entries from left to right.
\<close>

section \<open>Abstract trees and zippers\<close>

datatype ('k, 'v) gtree =
    GLeaf addr "('k \<times> 'v option) list"
  | GBranch addr "'k list" "('k, 'v) gtree list"

fun addr_of :: "('k, 'v) gtree \<Rightarrow> addr" where
  "addr_of (GLeaf a es) = a"
| "addr_of (GBranch a ks ts) = a"

fun addrs :: "('k, 'v) gtree \<Rightarrow> addr list" where
  "addrs (GLeaf a es) = [a]"
| "addrs (GBranch a ks ts) = a # concat (map addrs ts)"

fun rep :: "('k, 'v) heap \<Rightarrow> ('k, 'v) gtree \<Rightarrow> bool" where
  "rep h (GLeaf a es) \<longleftrightarrow> h a = Some (Leaf es)"
| "rep h (GBranch a ks ts) \<longleftrightarrow>
     h a = Some (Branch ks (map addr_of ts)) \<and> (\<forall>t\<in>set ts. rep h t)"

text \<open>What a tree holds from left to right: separators, and entries with their leaf.\<close>

datatype ('k, 'v) item = Sep 'k | Ent addr "'k \<times> 'v option"

fun key_of :: "('k, 'v) item \<Rightarrow> 'k" where
  "key_of (Sep k) = k"
| "key_of (Ent a e) = fst e"

fun weaveL :: "'k list \<Rightarrow> ('k, 'v) item list list \<Rightarrow> ('k, 'v) item list" where
  "weaveL (k # ks) (x # xs) = x @ Sep k # weaveL ks xs"
| "weaveL _ _ = []"

fun weaveR :: "'k list \<Rightarrow> ('k, 'v) item list list \<Rightarrow> ('k, 'v) item list" where
  "weaveR (k # ks) (x # xs) = Sep k # x @ weaveR ks xs"
| "weaveR _ _ = []"

fun weave :: "'k list \<Rightarrow> ('k, 'v) item list list \<Rightarrow> ('k, 'v) item list" where
  "weave ks [] = []"
| "weave ks (x # xs) = x @ weaveR ks xs"

fun inorder :: "('k, 'v) gtree \<Rightarrow> ('k, 'v) item list" where
  "inorder (GLeaf a es) = map (Ent a) es"
| "inorder (GBranch a ks ts) = weave ks (map inorder ts)"

text \<open>The entries with their leaves, and the entries alone.\<close>

fun locs :: "('k, 'v) item list \<Rightarrow> (addr \<times> 'k \<times> 'v option) list" where
  "locs [] = []"
| "locs (Sep k # xs) = locs xs"
| "locs (Ent a e # xs) = (a, e) # locs xs"

definition ents :: "('k, 'v) item list \<Rightarrow> ('k \<times> 'v option) list" where
  "ents xs = map snd (locs xs)"

datatype ('k, 'v) frame =
  Frame addr "'k list" "('k, 'v) gtree list" "'k list" "('k, 'v) gtree list"

fun plug :: "('k, 'v) frame list \<Rightarrow> ('k, 'v) gtree \<Rightarrow> ('k, 'v) gtree" where
  "plug [] t = t"
| "plug (Frame a kl tsl kr tsr # fs) t = plug fs (GBranch a (kl @ kr) (tsl @ t # tsr))"

fun path_of :: "('k, 'v) frame list \<Rightarrow> PathNode list" where
  "path_of [] = []"
| "path_of (Frame a kl tsl kr tsr # fs) = (a, length tsl) # path_of fs"

fun ctx_addrs :: "('k, 'v) frame list \<Rightarrow> addr list" where
  "ctx_addrs [] = []"
| "ctx_addrs (Frame a kl tsl kr tsr # fs) =
     a # concat (map addrs tsl) @ concat (map addrs tsr) @ ctx_addrs fs"

fun rep_ctx :: "('k, 'v) heap \<Rightarrow> ('k, 'v) frame list \<Rightarrow> addr \<Rightarrow> bool" where
  "rep_ctx h [] p \<longleftrightarrow> True"
| "rep_ctx h (Frame a kl tsl kr tsr # fs) p \<longleftrightarrow>
     h a = Some (Branch (kl @ kr) (map addr_of tsl @ p # map addr_of tsr)) \<and>
     (\<forall>t\<in>set tsl \<union> set tsr. rep h t) \<and> rep_ctx h fs a"

text \<open>The address of the root when the focus is at \<open>p\<close>.\<close>

fun ctx_root :: "('k, 'v) frame list \<Rightarrow> addr \<Rightarrow> addr" where
  "ctx_root [] p = p"
| "ctx_root (Frame a kl tsl kr tsr # fs) p = ctx_root fs a"

fun lefts :: "('k, 'v) frame list \<Rightarrow> ('k, 'v) item list" where
  "lefts [] = []"
| "lefts (Frame a kl tsl kr tsr # fs) = lefts fs @ weaveL kl (map inorder tsl)"

fun rights :: "('k, 'v) frame list \<Rightarrow> ('k, 'v) item list" where
  "rights [] = []"
| "rights (Frame a kl tsl kr tsr # fs) = weaveR kr (map inorder tsr) @ rights fs"

lemma plug_append: "plug (gs @ fs) t = plug fs (plug gs t)"
  by (induction gs t rule: plug.induct) simp_all

lemma path_of_append [simp]: "path_of (gs @ fs) = path_of gs @ path_of fs"
  by (induction gs rule: path_of.induct) simp_all

lemma lefts_append [simp]: "lefts (gs @ fs) = lefts fs @ lefts gs"
  by (induction gs rule: lefts.induct) simp_all

lemma rights_append [simp]: "rights (gs @ fs) = rights gs @ rights fs"
  by (induction gs rule: rights.induct) simp_all

lemma addr_of_in_addrs [simp]: "addr_of t \<in> set (addrs t)"
  by (cases t) simp_all

lemma addr_of_plug [simp]: "addr_of (plug fs t) = ctx_root fs (addr_of t)"
  by (induction fs t rule: plug.induct) simp_all

lemma rep_plug: "rep h (plug fs t) \<longleftrightarrow> rep h t \<and> rep_ctx h fs (addr_of t)"
  by (induction fs t rule: plug.induct) auto

lemma rep_upd [simp]: "a \<notin> set (addrs t) \<Longrightarrow> rep (h(a := n)) t \<longleftrightarrow> rep h t"
  by (induction t) auto

lemma rep_ctx_upd [simp]:
  "a \<notin> set (ctx_addrs fs) \<Longrightarrow> rep_ctx (h(a := n)) fs p \<longleftrightarrow> rep_ctx h fs p"
  by (induction h fs p rule: rep_ctx.induct) (auto simp: ball_Un)

lemma mset_addrs_plug: "mset (addrs (plug fs t)) = mset (addrs t) + mset (ctx_addrs fs)"
  by (induction fs t rule: plug.induct) simp_all

lemma distinct_addrs_plug [simp]:
  "distinct (addrs (plug fs t)) \<longleftrightarrow> distinct (addrs t @ ctx_addrs fs)"
  by (rule mset_eq_imp_distinct_iff) (simp add: mset_addrs_plug)

lemma set_addrs_plug [simp]: "set (addrs (plug fs t)) = set (addrs t) \<union> set (ctx_addrs fs)"
  using mset_eq_setD [of "addrs (plug fs t)" "addrs t @ ctx_addrs fs"]
  by (simp add: mset_addrs_plug)

subsection \<open>The sequence of a plugged tree\<close>

lemma weaveL_append [simp]:
  "length kl = length xl \<Longrightarrow> weaveL (kl @ kr) (xl @ xr) = weaveL kl xl @ weaveL kr xr"
  by (induction kl xl rule: list_induct2) simp_all

lemma weaveR_append [simp]:
  "length kl = length xl \<Longrightarrow> weaveR (kl @ kr) (xl @ xr) = weaveR kl xl @ weaveR kr xr"
  by (induction kl xl rule: list_induct2) simp_all

lemma weave_split [simp]:
  "length kl = length xl \<Longrightarrow> weave (kl @ kr) (xl @ x # xr) = weaveL kl xl @ x @ weaveR kr xr"
proof (induction kl xl rule: list_induct2)
  case (Cons k kl y xl)
  then show ?case by (cases xl) (auto simp: neq_Nil_conv)
qed simp

text \<open>Frames whose separators and children match.\<close>

fun frames_ok :: "('k, 'v) frame list \<Rightarrow> bool" where
  "frames_ok [] \<longleftrightarrow> True"
| "frames_ok (Frame a kl tsl kr tsr # fs) \<longleftrightarrow>
     length kl = length tsl \<and> length kr = length tsr \<and> frames_ok fs"

lemma frames_ok_append [simp]: "frames_ok (gs @ fs) \<longleftrightarrow> frames_ok gs \<and> frames_ok fs"
  by (induction gs rule: frames_ok.induct) auto

lemma inorder_plug:
  "frames_ok fs \<Longrightarrow> inorder (plug fs t) = lefts fs @ inorder t @ rights fs"
  by (induction fs t rule: plug.induct) simp_all

lemma locs_append [simp]: "locs (xs @ ys) = locs xs @ locs ys"
  by (induction xs rule: locs.induct) simp_all

lemma locs_map_Ent [simp]: "locs (map (Ent a) es) = map (Pair a) es"
  by (induction es) simp_all

lemma ents_append [simp]: "ents (xs @ ys) = ents xs @ ents ys"
  by (simp add: ents_def)

lemma ents_Cons [simp]:
  "ents [] = []" "ents (Sep k # xs) = ents xs" "ents (Ent a e # xs) = e # ents xs"
  by (simp_all add: ents_def)

lemma ents_map_Ent [simp]: "ents (map (Ent a) es) = es"
  by (induction es) (simp_all add: ents_def)

lemma locs_eq_append_ents: "Ent a e \<in> set xs \<longleftrightarrow> (a, e) \<in> set (locs xs)"
  by (induction xs rule: locs.induct) auto

section \<open>Order\<close>

fun before :: "'k ScalarType \<Rightarrow> 'k set \<Rightarrow> ('k, 'v) item \<Rightarrow> ('k, 'v) item \<Rightarrow> bool" where
  "before ty K (Sep a) (Ent p e) \<longleftrightarrow> a \<in> K \<and> fst e \<in> K \<and> Compare ty a (fst e) \<le> 0"
| "before ty K x y \<longleftrightarrow> key_of x \<in> K \<and> key_of y \<in> K \<and> Compare ty (key_of x) (key_of y) < 0"

definition ordered :: "'k ScalarType \<Rightarrow> 'k set \<Rightarrow> ('k, 'v) item list \<Rightarrow> bool" where
  "ordered ty K xs \<longleftrightarrow> key_of ` set xs \<subseteq> K \<and> sorted_wrt (before ty K) xs"

lemma ordered_append:
  "ordered ty K (xs @ ys) \<longleftrightarrow>
     ordered ty K xs \<and> ordered ty K ys \<and> (\<forall>x\<in>set xs. \<forall>y\<in>set ys. before ty K x y)"
  by (auto simp: ordered_def sorted_wrt_append)

lemma ordered_Cons:
  "ordered ty K (x # xs) \<longleftrightarrow> key_of x \<in> K \<and> ordered ty K xs \<and> (\<forall>y\<in>set xs. before ty K x y)"
  by (auto simp: ordered_def)

lemma ordered_Nil [simp]: "ordered ty K []"
  by (simp add: ordered_def)

lemmas ordered_simps = ordered_append ordered_Cons

text \<open>Order looks at keys only: not at values, and not at the leaf of an entry.\<close>

lemma before_leaf:
  "before ty K (Ent a e) y \<longleftrightarrow> fst e \<in> K \<and> key_of y \<in> K \<and> Compare ty (fst e) (key_of y) < 0"
  "before ty K x (Sep k) \<longleftrightarrow> key_of x \<in> K \<and> k \<in> K \<and> Compare ty (key_of x) k < 0"
  by (cases y; simp) (cases x; simp)

declare before.simps [simp del]

lemmas before_simps = before.simps(1) before_leaf

section \<open>Shape and the tree invariant\<close>

text \<open>
  \<open>shape cap d t\<close>: all leaves at depth \<open>d\<close>, and every node between half full and full. A
  branch of capacity \<open>cap\<close> has up to \<open>cap\<close> children. \<open>rshape\<close> is the same for a root, which
  may be less than half full.
\<close>

fun shape :: "nat \<Rightarrow> nat \<Rightarrow> ('k, 'v) gtree \<Rightarrow> bool" where
  "shape cap 0 (GLeaf a es) \<longleftrightarrow> cap div 2 \<le> length es \<and> length es \<le> cap"
| "shape cap (Suc d) (GBranch a ks ts) \<longleftrightarrow>
     length ts = Suc (length ks) \<and> cap div 2 \<le> length ts \<and> length ts \<le> cap \<and>
     (\<forall>t\<in>set ts. shape cap d t)"
| "shape cap _ _ \<longleftrightarrow> False"

fun rshape :: "nat \<Rightarrow> nat \<Rightarrow> ('k, 'v) gtree \<Rightarrow> bool" where
  "rshape cap 0 (GLeaf a es) \<longleftrightarrow> length es \<le> cap"
| "rshape cap (Suc d) (GBranch a ks ts) \<longleftrightarrow>
     length ts = Suc (length ks) \<and> 2 \<le> length ts \<and> length ts \<le> cap \<and>
     (\<forall>t\<in>set ts. shape cap d t)"
| "rshape cap _ _ \<longleftrightarrow> False"

text \<open>
  The shape of frames around a focus at height \<open>d\<close> in a tree of height \<open>D\<close>.
\<close>

fun ctx_shape :: "nat \<Rightarrow> nat \<Rightarrow> nat \<Rightarrow> ('k, 'v) frame list \<Rightarrow> bool" where
  "ctx_shape cap D d [] \<longleftrightarrow> D = d"
| "ctx_shape cap D d (Frame a kl tsl kr tsr # fs) \<longleftrightarrow>
     length kl = length tsl \<and> length kr = length tsr \<and>
     (\<forall>t\<in>set tsl \<union> set tsr. shape cap d t) \<and>
     Suc (length tsl + length tsr) \<le> cap \<and>
     (if fs = [] then 2 else cap div 2) \<le> Suc (length tsl + length tsr) \<and>
     ctx_shape cap D (Suc d) fs"

lemma ctx_shape_frames_ok: "ctx_shape cap D d fs \<Longrightarrow> frames_ok fs"
  by (induction cap D d fs rule: ctx_shape.induct) simp_all

text \<open>
  The capacities a tree goes through: it doubles from 1 to 64, and below 64 the root is
  a leaf.
\<close>

definition capacity_ok :: "nat \<Rightarrow> nat \<Rightarrow> bool" where
  "capacity_ok cap d \<longleftrightarrow> cap \<in> {1, 2, 4, 8, 16, 32, 64} \<and> (cap \<noteq> 64 \<longrightarrow> d = 0)"

definition tree_core ::
  "'k ScalarType \<Rightarrow> 'k set \<Rightarrow> ('k, 'v) BTree \<Rightarrow> nat \<Rightarrow> ('k, 'v) gtree \<Rightarrow> bool"
where
  "tree_core ty K T D t \<longleftrightarrow>
     keyType T = ty \<and> rep (heap T) t \<and> addr_of t = root T \<and> distinct (addrs t) \<and>
     (\<forall>a\<in>set (addrs t). a < nextAddr T) \<and> rshape (listCapacity T) D t \<and>
     capacity_ok (listCapacity T) D \<and> ordered ty K (inorder t)"

definition tree_inv ::
  "'k ScalarType \<Rightarrow> 'k set \<Rightarrow> ('k, 'v) BTree \<Rightarrow> nat \<Rightarrow> ('k, 'v) gtree \<Rightarrow> bool"
where
  "tree_inv ty K T D t \<longleftrightarrow>
     tree_core ty K T D t \<and> treeCount T = int (length (ents (inorder t)))"

text \<open>The invariant of a B-tree: its store represents some abstract tree.\<close>

definition btree_inv :: "'k ScalarType \<Rightarrow> 'k set \<Rightarrow> ('k, 'v) BTree \<Rightarrow> bool" where
  "btree_inv ty K T \<longleftrightarrow> (\<exists>D t. tree_inv ty K T D t)"

text \<open>
  The entries of a tree from left to right, read off the store: the abstract value
  every operation is specified by.
\<close>

fun collect :: "nat \<Rightarrow> ('k, 'v) heap \<Rightarrow> addr \<Rightarrow> ('k \<times> 'v option) list" where
  "collect 0 h p = []"
| "collect (Suc fuel) h p =
     (case h p of
        None \<Rightarrow> []
      | Some (Leaf es) \<Rightarrow> es
      | Some (Branch ks cs) \<Rightarrow> concat (map (collect fuel h) cs))"

definition contents :: "('k, 'v) BTree \<Rightarrow> ('k \<times> 'v option) list" where
  "contents T = collect (nextAddr T) (heap T) (root T)"

text \<open>A new tree.\<close>

lemma new_BTree_inv: "tree_inv ty K (new_BTree ty ko) 0 (GLeaf 0 [])"
  by (simp add: tree_inv_def tree_core_def new_BTree_def capacity_ok_def)

end
