(* ===== verification/BTree_Search.thy ===== *)
theory BTree_Search
  imports BTree_Rep
begin

text \<open>
  Search in the B-tree: \<open>GetPath\<close> reaches the leaf and position where the key belongs,
  \<open>GetChildKey\<close> reads the first key of a subtree, and the fuel \<open>nextAddr\<close> is enough for
  every descent.
\<close>

section \<open>Shapes of plugged trees\<close>

definition focus_shape :: "nat \<Rightarrow> ('k, 'v) frame list \<Rightarrow> nat \<Rightarrow> ('k, 'v) gtree \<Rightarrow> bool" where
  "focus_shape cap fs d t \<longleftrightarrow> (if fs = [] then rshape cap d t else shape cap d t)"

lemma shape_GBranch: "shape cap d (GBranch a ks ts) \<longleftrightarrow>
  (\<exists>d'. d = Suc d' \<and> length ts = Suc (length ks) \<and> cap div 2 \<le> length ts \<and> length ts \<le> cap \<and>
     (\<forall>t\<in>set ts. shape cap d' t))"
  by (cases d) simp_all

lemma rshape_GBranch: "rshape cap d (GBranch a ks ts) \<longleftrightarrow>
  (\<exists>d'. d = Suc d' \<and> length ts = Suc (length ks) \<and> 2 \<le> length ts \<and> length ts \<le> cap \<and>
     (\<forall>t\<in>set ts. shape cap d' t))"
  by (cases d) simp_all

lemma shape_GLeaf: "shape cap d (GLeaf a es) \<longleftrightarrow> d = 0 \<and> cap div 2 \<le> length es \<and> length es \<le> cap"
  by (cases d) simp_all

lemma rshape_GLeaf: "rshape cap d (GLeaf a es) \<longleftrightarrow> d = 0 \<and> length es \<le> cap"
  by (cases d) simp_all

lemma rshape_plugI:
  "ctx_shape cap D d fs \<Longrightarrow> focus_shape cap fs d t \<Longrightarrow> rshape cap D (plug fs t)"
proof (induction fs t arbitrary: d rule: plug.induct)
  case (2 a kl tsl kr tsr fs t)
  then have "focus_shape cap fs (Suc d) (GBranch a (kl @ kr) (tsl @ t # tsr))"
    by (auto simp: focus_shape_def split: if_splits)
  from 2(1) [OF _ this] 2(2) show ?case by simp
qed (simp add: focus_shape_def)

lemma frames_shape:
  assumes "rshape cap D (plug fs t)" "frames_ok fs"
  shows "\<exists>d. D = d + length fs \<and> ctx_shape cap D d fs \<and> focus_shape cap fs d t"
  using assms
proof (induction fs t rule: plug.induct)
  case (2 a kl tsl kr tsr fs t)
  then obtain d where "D = d + length fs" "ctx_shape cap D d fs"
    "focus_shape cap fs d (GBranch a (kl @ kr) (tsl @ t # tsr))" by auto
  with 2 show ?case
    by (auto simp: focus_shape_def shape_GBranch rshape_GBranch split: if_splits)
qed (simp add: focus_shape_def)

section \<open>Enough fuel\<close>

lemma height_less_addrs: "shape cap d t \<or> rshape cap d t \<Longrightarrow> d < length (addrs t)"
proof (induction t arbitrary: d)
  case (GBranch a ks ts)
  then obtain d' t ts' where d: "d = Suc d'" "ts = t # ts'" "shape cap d' t"
    by (cases ts) (auto simp: shape_GBranch rshape_GBranch)
  with GBranch.IH [of t d'] show ?case by simp
qed (auto simp: shape_GLeaf rshape_GLeaf)

lemma length_addrs_le: "distinct as \<Longrightarrow> \<forall>a\<in>set as. a < n \<Longrightarrow> length as \<le> (n :: nat)"
  using card_mono [of "{..<n}" "set as"] by (auto simp: distinct_card)

lemma height_less_next:
  assumes "shape cap d t \<or> rshape cap d t" "distinct (addrs t)" "\<forall>a\<in>set (addrs t). a < n"
  shows "d < n"
  using height_less_addrs [OF assms(1)] length_addrs_le [OF assms(2,3)] by simp

section \<open>The first key of a subtree\<close>

lemma GetChildKey_rep:
  assumes "rep h t" "shape cap d t" "2 \<le> cap" "d < fuel"
  shows "\<exists>a e xs. inorder t = Ent a e # xs \<and> GetChildKey fuel h (addr_of t) = Inr (fst e)"
  using assms
proof (induction t arbitrary: d fuel)
  case (GLeaf a es)
  then obtain e es' where "es = e # es'" by (cases es) (auto simp: shape_GLeaf)
  moreover obtain f where "fuel = Suc f" using GLeaf by (cases fuel) auto
  ultimately show ?case using GLeaf by simp
next
  case (GBranch a ks ts)
  obtain d' t ts' where d: "d = Suc d'" "ts = t # ts'" "shape cap d' t"
    using GBranch.prems(2) by (cases ts) (auto simp: shape_GBranch)
  obtain f where f: "fuel = Suc f" using GBranch.prems by (cases fuel) auto
  with d GBranch.prems GBranch.IH [of t d' f] show ?case by (auto simp: child_def)
qed

section \<open>The contents of a tree\<close>

lemma ents_weaveR: "length ks = length xs \<Longrightarrow> ents (weaveR ks xs) = concat (map ents xs)"
  by (induction ks xs rule: list_induct2) simp_all

lemma ents_weave: "length xs = Suc (length ks) \<Longrightarrow> ents (weave ks xs) = concat (map ents xs)"
  by (cases xs) (simp_all add: ents_weaveR)

lemma collect_rep:
  assumes "rep h t" "shape cap d t \<or> rshape cap d t" "d < fuel"
  shows "collect fuel h (addr_of t) = ents (inorder t)"
  using assms
proof (induction t arbitrary: d fuel)
  case (GLeaf a es)
  then show ?case by (cases fuel) auto
next
  case (GBranch a ks ts)
  obtain d' where d: "d = Suc d'" "length ts = Suc (length ks)" "\<forall>t\<in>set ts. shape cap d' t"
    using GBranch.prems(2) by (auto simp: shape_GBranch rshape_GBranch)
  obtain f where f: "fuel = Suc f" "d' < f" using GBranch.prems d by (cases fuel) auto
  have "map (collect f h \<circ> addr_of) ts = map (ents \<circ> inorder) ts"
    using GBranch.IH [of _ d' f] GBranch.prems(1) d f by (intro map_cong) auto
  with GBranch.prems(1) f d show ?case by (simp add: ents_weave comp_def cong: map_cong)
qed

lemma tree_inv_height: "tree_inv ty K T D t \<Longrightarrow> D < nextAddr T"
  unfolding tree_inv_def tree_core_def by (blast intro: height_less_next)

lemma contents_inorder: "tree_inv ty K T D t \<Longrightarrow> contents T = ents (inorder t)"
  using tree_inv_height [of ty K T D t] collect_rep [of "heap T" t "listCapacity T" D "nextAddr T"]
  by (auto simp: contents_def tree_inv_def tree_core_def)

section \<open>Order and the position of a key\<close>

text \<open>
  The position a descent for \<open>key\<close> reaches below a subtree \<open>t\<close>: the frames \<open>gs\<close>, the leaf
  \<open>a\<close> with the entries \<open>l\<close> below the key and the entries \<open>r\<close> from it on.
\<close>

definition position ::
  "'k ScalarType \<Rightarrow> 'k set \<Rightarrow> 'k \<Rightarrow> ('k, 'v) gtree \<Rightarrow> ('k, 'v) frame list \<Rightarrow> addr \<Rightarrow>
   ('k \<times> 'v option) list \<Rightarrow> ('k \<times> 'v option) list \<Rightarrow> bool \<Rightarrow> bool"
where
  "position ty K key t gs a l r m \<longleftrightarrow>
     t = plug gs (GLeaf a (l @ r)) \<and> frames_ok gs \<and>
     (\<forall>x\<in>set (lefts gs @ map (Ent a) l). \<forall>b v. before ty K x (Ent b (key, v))) \<and>
     (\<forall>x\<in>set (rights gs). \<forall>b v. before ty K (Ent b (key, v)) x) \<and>
     (m \<longrightarrow> (\<exists>e r'. r = e # r' \<and> Compare ty key (fst e) = 0)) \<and>
     (\<not> m \<longrightarrow> (\<forall>e\<in>set r. \<forall>a b v. before ty K (Ent b (key, v)) (Ent a e)))"

context scalar_order
begin

lemma before_trans: "before ty K x y \<Longrightarrow> before ty K y z \<Longrightarrow> before ty K x z"
  using cmp_lt_le_trans [of "key_of x" "key_of y" "key_of z"]
    cmp_le_lt_trans [of "key_of x" "key_of y" "key_of z"]
  by (cases x; cases y; cases z) (auto simp: before_simps)

lemma branch_IndexOf_spec:
  assumes "sorted_wrt (\<lambda>a b. Compare ty a b < 0) ks" "set ks \<subseteq> K" "key \<in> K"
  shows "\<exists>l r. ks = l @ r \<and> branch_IndexOf ty ks key = length l \<and>
    (\<forall>x\<in>set l. Compare ty x key \<le> 0) \<and> (\<forall>x\<in>set r. Compare ty key x < 0)"
proof -
  let ?i = "CompareIndexOf (Compare ty) ks key"
  have "search_spec (Compare ty) ks key ?i" by (rule search_correct [OF assms])
  then consider (found) "0 \<le> ?i" "?i < int (length ks)" "Compare ty key (ks ! nat ?i) = 0"
    | (missing) "?i < 0" "- ?i - 1 \<le> int (length ks)"
      "\<forall>j. 0 \<le> j \<and> j < - ?i - 1 \<longrightarrow> 0 < Compare ty key (ks ! nat j)"
      "\<forall>j. - ?i - 1 \<le> j \<and> j < int (length ks) \<longrightarrow> Compare ty key (ks ! nat j) < 0"
    unfolding search_spec_def by blast
  then show ?thesis
  proof cases
    case found
    define n where "n = nat ?i"
    have n: "n < length ks" "?i = int n" using found by (auto simp: n_def)
    obtain l x r where ks: "ks = l @ x # r" "length l = n" using split_list_at [OF n(1)] by blast
    have x: "Compare ty x key = 0" "x \<in> K" using found ks n assms cmp_eq_sym [of key x] by auto
    have "Compare ty y key \<le> 0" if "y \<in> set l" for y
      using that assms x cmp_trans [of y x key] ks by (auto simp: sorted_wrt_append less_imp_le)
    moreover have "Compare ty key y < 0" if "y \<in> set r" for y
      using that assms x cmp_le_lt_trans [of key x y] cmp_eq_sym [of key x] ks
      by (auto simp: sorted_wrt_append)
    ultimately show ?thesis using ks n x
      by (intro exI [of _ "l @ [x]"] exI [of _ r])
        (auto simp: branch_IndexOf_def index_of nat_add_distrib)
  next
    case missing
    define n where "n = nat (- ?i - 1)"
    have n: "n \<le> length ks" "?i = - int n - 1" using missing by (auto simp: n_def)
    obtain l r where ks: "ks = l @ r" "length l = n" using split_list_upto [OF n(1)] by blast
    have "Compare ty (l ! j) key \<le> 0" if "j < length l" for j
      using missing(3) [rule_format, of "int j"] that n ks assms cmp_pos_iff [of key "l ! j"]
      by (auto simp: nth_append subset_iff)
    moreover have "Compare ty key (r ! j) < 0" if "j < length r" for j
      using missing(4) [rule_format, of "int (n + j)"] that n ks by (simp add: nth_append nat_int_add)
    ultimately show ?thesis using ks n
      by (intro exI [of _ l] exI [of _ r]) (auto simp: branch_IndexOf_def index_of in_set_conv_nth)
  qed
qed

lemma leaf_IndexOf_spec:
  assumes "sorted_wrt (\<lambda>a b. Compare ty a b < 0) (map fst es)" "fst ` set es \<subseteq> K" "key \<in> K"
  shows "\<exists>l r m. es = l @ r \<and> leaf_IndexOf ty (map fst es) key = (length l, m) \<and>
    (\<forall>e\<in>set l. Compare ty (fst e) key < 0) \<and>
    (m \<longrightarrow> (\<exists>e r'. r = e # r' \<and> Compare ty key (fst e) = 0)) \<and>
    (\<not> m \<longrightarrow> (\<forall>e\<in>set r. Compare ty key (fst e) < 0))"
proof -
  let ?ks = "map fst es"
  let ?i = "CompareIndexOf (Compare ty) ?ks key"
  have sK: "set ?ks \<subseteq> K" using assms by auto
  have "search_spec (Compare ty) ?ks key ?i" by (rule search_correct [OF assms(1) sK assms(3)])
  then consider (found) "0 \<le> ?i" "?i < int (length ?ks)" "Compare ty key (?ks ! nat ?i) = 0"
    | (missing) "?i < 0" "- ?i - 1 \<le> int (length ?ks)"
      "\<forall>j. 0 \<le> j \<and> j < - ?i - 1 \<longrightarrow> 0 < Compare ty key (?ks ! nat j)"
      "\<forall>j. - ?i - 1 \<le> j \<and> j < int (length ?ks) \<longrightarrow> Compare ty key (?ks ! nat j) < 0"
    unfolding search_spec_def by blast
  then show ?thesis
  proof cases
    case found
    define n where "n = nat ?i"
    have n: "n < length es" "?i = int n" using found by (auto simp: n_def)
    obtain l x r where es: "es = l @ x # r" "length l = n" using split_list_at [OF n(1)] by blast
    have "map fst es ! n = fst x" using es by (simp add: nth_append)
    then have x: "Compare ty key (fst x) = 0" "fst x \<in> K" using found(3) es n assms(2) by auto
    have "Compare ty (fst y) key < 0" if "y \<in> set l" for y
      using that assms x cmp_lt_le_trans [of "fst y" "fst x" key] cmp_eq_sym [of key "fst x"] es
      by (auto simp: sorted_wrt_append)
    with es n x show ?thesis
      by (intro exI [of _ l] exI [of _ "x # r"] exI [of _ True])
        (auto simp: leaf_IndexOf_def index_of Let_def)
  next
    case missing
    define n where "n = nat (- ?i - 1)"
    have n: "n \<le> length es" "?i = - int n - 1" using missing by (auto simp: n_def)
    obtain l r where es: "es = l @ r" "length l = n" using split_list_upto [OF n(1)] by blast
    have "Compare ty (fst (l ! j)) key < 0" if "j < length l" for j
      using missing(3) [rule_format, of "int j"] that n es assms cmp_pos_iff [of key "fst (l ! j)"]
      by (auto simp: nth_append subset_iff)
    moreover have "Compare ty key (fst (r ! j)) < 0" if "j < length r" for j
      using missing(4) [rule_format, of "int (n + j)"] that n es by (simp add: nth_append nat_int_add)
    ultimately have "\<forall>e\<in>set l. Compare ty (fst e) key < 0" "\<forall>e\<in>set r. Compare ty key (fst e) < 0"
      by (metis in_set_conv_nth)+
    with es n show ?thesis
      by - (rule exI [of _ l], rule exI [of _ r], rule exI [of _ False],
        simp add: leaf_IndexOf_def index_of Let_def)
  qed
qed

lemma ordered_leaf:
  assumes "ordered ty K (map (Ent a) es)"
  shows "sorted_wrt (\<lambda>a b. Compare ty a b < 0) (map fst es)" "fst ` set es \<subseteq> K"
  using assms by (auto simp: ordered_def before_simps sorted_wrt_map image_image elim: sorted_wrt_mono_rel [rotated])

lemma ordered_separators:
  assumes "length ks = length xs" "ordered ty K (weaveR ks xs)"
  shows "set ks \<subseteq> K \<and> sorted_wrt (\<lambda>a b. Compare ty a b < 0) ks \<and> Sep ` set ks \<subseteq> set (weaveR ks xs)"
  using assms
proof (induction ks xs rule: list_induct2)
  case (Cons k ks y ys)
  then have "\<forall>x\<in>set (weaveR ks ys). before ty K (Sep k) x" "Sep ` set ks \<subseteq> set (weaveR ks ys)"
    by (auto simp: ordered_simps)
  then have "Compare ty k k' < 0" if "k' \<in> set ks" for k'
    using that by (fastforce simp: before_simps)
  with Cons show ?case by (auto simp: ordered_simps before_simps)
qed simp

lemma weaveL_before:
  assumes "length ks = length xs" "ordered ty K (weaveL ks xs)" "key \<in> K"
    and "\<forall>k\<in>set ks. Compare ty k key \<le> 0" "x \<in> set (weaveL ks xs)"
  shows "before ty K x (Ent b (key, v))"
  using assms
proof (induction ks xs rule: list_induct2)
  case (Cons k ks y ys)
  then have "before ty K (Sep k) (Ent b (key, v))" by (simp add: ordered_simps before_simps)
  moreover have "before ty K z (Sep k)" if "z \<in> set y" for z
    using Cons.prems(1) that by (simp add: ordered_simps)
  ultimately show ?case using Cons by (auto simp: ordered_simps intro: before_trans)
qed simp

lemma weaveR_after:
  assumes "length ks = length xs" "ordered ty K (weaveR ks xs)" "key \<in> K"
    and "\<forall>k\<in>set ks. Compare ty key k < 0" "x \<in> set (weaveR ks xs)"
  shows "before ty K (Ent b (key, v)) x"
  using assms
proof (induction ks xs rule: list_induct2)
  case (Cons k ks y ys)
  then have "before ty K (Ent b (key, v)) (Sep k)" by (simp add: ordered_simps before_simps)
  moreover have "before ty K (Sep k) z" if "z \<in> set y" for z
    using Cons.prems(1) that by (simp add: ordered_simps)
  ultimately show ?case using Cons by (auto simp: ordered_simps intro: before_trans)
qed simp

lemma GetPath_descend:
  assumes "rep h t" "shape cap d t \<or> rshape cap d t" "ordered ty K (inorder t)" "key \<in> K" "d < fuel"
  shows "\<exists>gs a l r m. position ty K key t gs a l r m \<and> length gs = d \<and>
    Node_GetPath fuel ty h (addr_of t) key brs =
      Inr \<lparr>Branches = brs @ rev (path_of gs), PathLeaf = a, LeafIndex = length l, Match = m\<rparr>"
  using assms
proof (induction t arbitrary: d fuel brs)
  case (GLeaf a es)
  obtain f where f: "fuel = Suc f" using GLeaf.prems by (cases fuel) auto
  have es: "ordered ty K (map (Ent a) es)" using GLeaf.prems(3) by simp
  obtain l r m where lr: "es = l @ r" "leaf_IndexOf ty (map fst es) key = (length l, m)"
    "\<forall>e\<in>set l. Compare ty (fst e) key < 0"
    "m \<longrightarrow> (\<exists>e r'. r = e # r' \<and> Compare ty key (fst e) = 0)"
    "\<not> m \<longrightarrow> (\<forall>e\<in>set r. Compare ty key (fst e) < 0)"
    using leaf_IndexOf_spec [OF ordered_leaf [OF es] GLeaf.prems(4)] by blast
  have "position ty K key (GLeaf a es) [] a l r m"
    using lr GLeaf.prems(4) ordered_leaf(2) [OF es] by (auto simp: position_def before_simps)
  with lr(2) f GLeaf.prems show ?case
    by - (rule exI [of _ "[]"], auto simp: rshape_GLeaf shape_GLeaf)
next
  case (GBranch a ks ts)
  obtain d' where d: "d = Suc d'" "length ts = Suc (length ks)" "\<forall>t\<in>set ts. shape cap d' t"
    using GBranch.prems(2) by (auto simp: shape_GBranch rshape_GBranch)
  obtain f where f: "fuel = Suc f" "d' < f" using GBranch.prems d by (cases fuel) auto
  obtain t0 ts' where "ts = t0 # ts'" using d(2) by (cases ts) auto
  with GBranch.prems(3) d(2) have "ordered ty K (weaveR ks (map inorder ts'))" "length ks = length (map inorder ts')"
    by (auto simp: ordered_simps)
  then have ks: "sorted_wrt (\<lambda>a b. Compare ty a b < 0) ks" "set ks \<subseteq> K"
    using ordered_separators by blast+
  obtain kl kr where k: "ks = kl @ kr" "branch_IndexOf ty ks key = length kl"
    "\<forall>x\<in>set kl. Compare ty x key \<le> 0" "\<forall>x\<in>set kr. Compare ty key x < 0"
    using branch_IndexOf_spec [OF ks GBranch.prems(4)] by blast
  obtain tsl t tsr where t: "ts = tsl @ t # tsr" "length tsl = length kl"
    using split_list_at [of "length kl" ts] d(2) k(1) by auto
  have len: "length kr = length tsr" using d(2) k(1) t by simp
  have o: "ordered ty K (weaveL kl (map inorder tsl))" "ordered ty K (inorder t)"
    "ordered ty K (weaveR kr (map inorder tsr))"
    using GBranch.prems(3) k(1) t by (auto simp: ordered_append)
  obtain gs b l r m where g: "position ty K key t gs b l r m" "length gs = d'"
    "Node_GetPath f ty h (addr_of t) key (brs @ [(a, length kl)]) =
      Inr \<lparr>Branches = (brs @ [(a, length kl)]) @ rev (path_of gs), PathLeaf = b, LeafIndex = length l, Match = m\<rparr>"
    using GBranch.IH [of t d' f "brs @ [(a, length kl)]"] GBranch.prems t d(3) o(2) f(2) by auto
  let ?F = "Frame a kl tsl kr tsr"
  have fo: "frames_ok (gs @ [?F])" using g(1) t(2) len
    by (simp add: position_def)
  have "position ty K key (GBranch a ks ts) (gs @ [?F]) b l r m"
    using g(1) k t(2) t(1) len fo weaveL_before [of kl "map inorder tsl" key] o
      weaveR_after [of kr "map inorder tsr" key] GBranch.prems(4)
    by (auto simp: position_def plug_append ball_Un)
  moreover have "Node_GetPath fuel ty h (addr_of (GBranch a ks ts)) key brs =
      Inr \<lparr>Branches = brs @ rev (path_of (gs @ [?F])), PathLeaf = b, LeafIndex = length l, Match = m\<rparr>"
    using g(3) f GBranch.prems(1) k(2) t by (simp add: child_def nth_append)
  ultimately show ?case using g(2) d(1) by - (rule exI [of _ "gs @ [?F]"], auto)
qed

lemma GetPath_position:
  assumes "tree_inv ty K T D t" "key \<in> K"
  shows "\<exists>gs a l r m. position ty K key t gs a l r m \<and> length gs = D \<and>
    GetPath T key = Inr \<lparr>Branches = rev (path_of gs), PathLeaf = a, LeafIndex = length l, Match = m\<rparr>"
  using GetPath_descend [of "heap T" t "listCapacity T" D key "nextAddr T" "[]"] assms
    tree_inv_height [OF assms(1)]
  by (auto simp: GetPath_def tree_inv_def tree_core_def)

lemma position_ents:
  "position ty K key t gs a l r m \<Longrightarrow>
   ents (inorder t) = ents (lefts gs) @ l @ r @ ents (rights gs)"
  by (auto simp: position_def inorder_plug)

text \<open>A descent reports a match exactly when the tree holds an equal key.\<close>

lemma position_match:
  assumes "position ty K key t gs a l r m" "key \<in> K"
  shows "m \<longleftrightarrow> (\<exists>e\<in>set (ents (inorder t)). Compare ty key (fst e) = 0)"
proof -
  have side: "Compare ty key (fst e) \<noteq> 0"
    if "e \<in> set (ents xs)" "\<forall>x\<in>set xs. (\<forall>b v. before ty K x (Ent b (key, v))) \<or>
      (\<forall>b v. before ty K (Ent b (key, v)) x)" for e and xs :: "('k, 'b) item list"
  proof -
    have "\<exists>b. Ent b e \<in> set xs"
      using that(1) by (auto simp: ents_def locs_eq_append_ents)
    then obtain b where "Ent b e \<in> set xs" ..
    then have "before ty K (Ent b e) (Ent b (key, snd e)) \<or> before ty K (Ent b (key, snd e)) (Ent b e)"
      using that(2) by blast
    then show ?thesis using cmp_sym [of "fst e" key] by (auto simp: before_simps)
  qed
  have l: "Compare ty key (fst e) \<noteq> 0" if "e \<in> set (ents (lefts gs)) \<union> set l" for e
    using side [of e "lefts gs @ map (Ent a) l"] that assms(1) by (auto simp: position_def)
  have r: "Compare ty key (fst e) \<noteq> 0" if "e \<in> set (ents (rights gs))" for e
    using side [of e "rights gs"] that assms(1) by (auto simp: position_def)
  show ?thesis
  proof (cases m)
    case True
    then show ?thesis using assms by (auto simp: position_def inorder_plug)
  next
    case False
    with assms(1) have "Compare ty key (fst e) \<noteq> 0" if "e \<in> set r" for e
      using that by (fastforce simp: position_def before_simps)
    with False l r show ?thesis by (auto simp: position_ents [OF assms(1)])
  qed
qed

lemma GetPath_entry:
  assumes "btree_inv ty K T" "key \<in> K"
  shows "\<exists>path. GetPath T key = Inr path \<and>
    (Match path \<longleftrightarrow> (\<exists>e\<in>set (contents T). Compare ty key (fst e) = 0)) \<and>
    (Match path \<longrightarrow> (\<exists>es. heap T (PathLeaf path) = Some (Leaf es) \<and> LeafIndex path < length es \<and>
      es ! LeafIndex path \<in> set (contents T) \<and> Compare ty key (fst (es ! LeafIndex path)) = 0))"
proof -
  obtain D t where inv: "tree_inv ty K T D t" using assms(1) by (auto simp: btree_inv_def)
  obtain fs a l r m where pos: "position ty K key t fs a l r m" and
    path: "GetPath T key = Inr \<lparr>Branches = rev (path_of fs), PathLeaf = a, LeafIndex = length l, Match = m\<rparr>"
    using GetPath_position [OF inv assms(2)] by blast
  have "heap T a = Some (Leaf (l @ r))"
    using inv pos by (auto simp: tree_inv_def tree_core_def position_def rep_plug)
  moreover have "m \<longleftrightarrow> (\<exists>e\<in>set (contents T). Compare ty key (fst e) = 0)"
    using position_match [OF pos assms(2)] contents_inorder [OF inv] by simp
  moreover have "m \<longrightarrow> (\<exists>e r'. r = e # r' \<and> Compare ty key (fst e) = 0)" using pos by (auto simp: position_def)
  moreover have "contents T = ents (lefts fs) @ l @ r @ ents (rights fs)"
    using position_ents [OF pos] contents_inorder [OF inv] by simp
  ultimately show ?thesis using path by auto
qed

end

section \<open>A sample tree\<close>

definition sample_tree :: "(64 word, 64 word) BTree" where
  "sample_tree = \<lparr>keyType = LongType, keyOnly = False, root = 0,
     heap = [0 \<mapsto> Leaf [(3, Some 30), (5, Some 50)]], nextAddr = 1, treeCount = 2, listCapacity = 2\<rparr>"

lemma sample_inv: "btree_inv LongType half_range sample_tree"
  unfolding btree_inv_def sample_tree_def
  by (intro exI [of _ 0] exI [of _ "GLeaf 0 [(3, Some 30), (5, Some 50)]"])
    (simp add: tree_inv_def tree_core_def ordered_def before_simps capacity_ok_def LongType_def
      LongCompare_def half_range_def)

lemma sample_keys: "(3 :: 64 word) \<in> half_range" "(4 :: 64 word) \<in> half_range" "(5 :: 64 word) \<in> half_range"
  by (simp_all add: half_range_def)

section \<open>Properties\<close>

text \<open>
  C3. Search: on a tree that satisfies the invariant, \<open>GetPath\<close> ends and reports a match
  exactly when the tree holds an equal key; the path then points to an entry with that key.
\<close>

theorem GetPath_correct:
  assumes "scalar_order ty K" "btree_inv ty K T" "key \<in> K"
  shows "\<exists>path. GetPath T key = Inr path \<and>
    (Match path \<longleftrightarrow> (\<exists>e\<in>set (contents T). Compare ty key (fst e) = 0)) \<and>
    (Match path \<longrightarrow> (\<exists>es. heap T (PathLeaf path) = Some (Leaf es) \<and> LeafIndex path < length es \<and>
      es ! LeafIndex path \<in> set (contents T) \<and> Compare ty key (fst (es ! LeafIndex path)) = 0))"
  using scalar_order.GetPath_entry [OF assms] .

theorem GetPath_correct_witness:
  "\<exists>path es. GetPath sample_tree 5 = Inr path \<and> Match path \<and> heap sample_tree (PathLeaf path) = Some (Leaf es) \<and>
     Compare LongType 5 (fst (es ! LeafIndex path)) = 0"
proof -
  have "contents sample_tree = [(3, Some 30), (5, Some 50)]" "Compare LongType 5 5 = 0" by code_simp+
  then show ?thesis
    using GetPath_correct [OF longT.scalar_order_axioms sample_inv sample_keys(3)] by force
qed

end
