(* ===== verification/BTree_Insert.thy ===== *)
theory BTree_Insert
  imports BTree_Search
begin

text \<open>
  Insertion into the B-tree: the leaf case with its split and with the growth of a small
  root leaf, the split of branches, the loop up the path and the new root. The result is
  that \<open>Insert\<close> at the position a search has found always succeeds, keeps the invariant,
  adds exactly the new entry, and reports every entry that has changed its leaf.
\<close>

section \<open>Order under edits of separators\<close>

lemma before_relabel:
  "before ty K (Ent a e) y \<longleftrightarrow> before ty K (Ent b e) y"
  "before ty K x (Ent a e) \<longleftrightarrow> before ty K x (Ent b e)"
  by (auto simp: before_simps) (cases x; auto simp: before_simps)+

lemma ordered_relabel:
  "ordered ty K (xs @ map (Ent a) es @ ys) \<Longrightarrow> ordered ty K (xs @ map (Ent b) es @ ys)"
proof (induction es arbitrary: xs)
  case (Cons e es)
  then have "ordered ty K ((xs @ [Ent a e]) @ map (Ent b) es @ ys)"
    by (intro Cons.IH) simp
  then show ?case by (auto simp: ordered_simps before_relabel(1) [of _ _ a _ _ b] before_relabel(2) [of _ _ _ a _ b])
qed simp

lemma ordered_insert:
  assumes "ordered ty K (xs @ ys)" "key_of z \<in> K"
    and "\<forall>x\<in>set xs. before ty K x z" "\<forall>y\<in>set ys. before ty K z y"
  shows "ordered ty K (xs @ z # ys)"
  using assms by (auto simp: ordered_simps)

lemma ordered_remove: "ordered ty K (xs @ z # ys) \<Longrightarrow> ordered ty K (xs @ ys)"
  by (auto simp: ordered_simps)

context scalar_order
begin

lemma Sep_before:
  assumes "before ty K (Ent b f) y"
  shows "before ty K (Sep (fst f)) y"
  using assms by (cases y) (auto simp: before_simps)

lemma ordered_separate:
  assumes "ordered ty K (xs @ Ent a e # Ent b f # ys)"
  shows "ordered ty K (xs @ Ent a e # Sep (fst f) # Ent b f # ys)"
proof -
  have e: "before ty K (Ent a e) (Sep (fst f))" and f: "fst f \<in> K"
    using assms by (auto simp: ordered_simps before_simps)
  have l: "\<forall>x\<in>set xs. before ty K x (Sep (fst f))"
    using assms before_trans [OF _ e] by (auto simp: ordered_simps)
  have r: "\<forall>y\<in>set ys. before ty K (Sep (fst f)) y"
    using assms Sep_before [of b f] by (auto simp: ordered_simps)
  have "before ty K (Sep (fst f)) (Ent b f)" using f cmp_refl by (simp add: before_simps)
  with assms e f l r show ?thesis by (auto simp: ordered_simps)
qed

lemma ordered_reseparate:
  assumes "ordered ty K (xs @ Sep k # Ent b f # ys)"
  shows "ordered ty K (xs @ Sep (fst f) # Ent b f # ys)"
proof -
  have k: "before ty K (Sep k) (Ent b f)" "fst f \<in> K" using assms by (auto simp: ordered_simps)
  have "before ty K x (Sep (fst f))" if "x \<in> set xs" for x
  proof -
    have "before ty K x (Sep k)" using assms that by (auto simp: ordered_simps)
    with k show ?thesis using cmp_lt_le_trans [of "key_of x" k "fst f"] by (auto simp: before_simps)
  qed
  moreover have "\<forall>y\<in>set ys. before ty K (Sep (fst f)) y"
    using assms Sep_before [of b f] by (auto simp: ordered_simps)
  moreover have "before ty K (Sep (fst f)) (Ent b f)" using k cmp_refl by (simp add: before_simps)
  ultimately show ?thesis using assms k by (auto simp: ordered_simps)
qed

end

section \<open>One node\<close>

text \<open>An array cut at \<open>c\<close> with an insertion in the half the index belongs to.\<close>

lemma cut_insert:
  assumes "es = l @ r" "c \<le> length es"
  shows "(if length l < c then insert_at (length l) s (take c es) else take c es) @
    (if length l < c then drop c es else insert_at (length l - c) s (drop c es)) = l @ s # r"
proof (cases "length l < c")
  case True
  then have "insert_at (length l) s (take c es) = l @ s # take (c - length l) r"
    using assms by (simp add: insert_at_def min_def)
  with True assms show ?thesis by simp
next
  case False
  then have "insert_at (length l - c) s (drop c es) = drop c l @ s # r"
    using assms by (simp add: insert_at_def)
  with False assms show ?thesis by (simp flip: append_assoc)
qed

lemma store_fields [simp]:
  "heap (store T p n) = (heap T)(p \<mapsto> n)" "nextAddr (store T p n) = nextAddr T"
  "root (store T p n) = root T" "keyType (store T p n) = keyType T" "keyOnly (store T p n) = keyOnly T"
  "listCapacity (store T p n) = listCapacity T" "treeCount (store T p n) = treeCount T"
  by (simp_all add: store_def)

lemma alloc_fields [simp]:
  "heap (alloc T n) = (heap T)(nextAddr T \<mapsto> n)" "nextAddr (alloc T n) = Suc (nextAddr T)"
  "root (alloc T n) = root T" "keyType (alloc T n) = keyType T" "keyOnly (alloc T n) = keyOnly T"
  "listCapacity (alloc T n) = listCapacity T" "treeCount (alloc T n) = treeCount T"
  by (simp_all add: alloc_def)

lemma free_fields [simp]:
  "heap (free T p) = (heap T)(p := None)" "nextAddr (free T p) = nextAddr T"
  "root (free T p) = root T" "keyType (free T p) = keyType T" "keyOnly (free T p) = keyOnly T"
  "listCapacity (free T p) = listCapacity T" "treeCount (free T p) = treeCount T"
  by (simp_all add: free_def)

lemma deref_simps [simp]:
  "h p = Some n \<Longrightarrow> deref h p = Inr n"
  "h p = Some (Leaf es) \<Longrightarrow> deref_leaf h p = Inr es"
  "h p = Some (Branch ks cs) \<Longrightarrow> deref_branch h p = Inr (ks, cs)"
  by (simp_all add: deref_def deref_leaf_def deref_branch_def)

lemma child_append_length [simp]: "child (xs @ y # ys) (length xs) = Inr y"
  by (simp add: child_def)

lemma child_0 [simp]: "child (y # ys) 0 = Inr y"
  by (simp add: child_def)

lemma slot_cong: "keyOnly T' = keyOnly T \<Longrightarrow> slot T' k v = slot T k v"
  by (simp add: slot_def)

text \<open>A leaf with room, and a full leaf of the final capacity.\<close>

lemma Leaf_Insert_room:
  assumes "heap T p = Some (Leaf (l @ r))" "length (l @ r) \<noteq> listCapacity T"
  shows "Leaf_Insert T p (length l) key v =
    Inr (store T p (Leaf (l @ slot T key v # r)), None, [])"
  using assms by (simp add: Leaf_Insert_def)

lemma Leaf_Insert_split:
  assumes "heap T p = Some (Leaf (l @ r))" "length (l @ r) = 64" "listCapacity T = 64"
  shows "\<exists>old new e new'. l @ slot T key v # r = old @ new \<and> new = e # new' \<and>
    32 \<le> length old \<and> length old \<le> 64 \<and> 32 \<le> length new \<and> length new \<le> 64 \<and>
    Leaf_Insert T p (length l) key v =
      Inr (alloc (store T p (Leaf old)) (Leaf new), Some (fst e, nextAddr T), DoValuesMoved (nextAddr T) new)"
proof -
  define es where "es = l @ r"
  let ?s = "slot T key v"
  define old where "old = (if length l < 32 then insert_at (length l) ?s (take 32 es) else take 32 es)"
  define new where "new = (if length l < 32 then drop 32 es else insert_at (length l - 32) ?s (drop 32 es))"
  have es: "length es = 64" "heap T p = Some (Leaf es)" "length l \<le> 64"
    using assms by (auto simp: es_def)
  have cut: "l @ ?s # r = old @ new"
    using cut_insert [OF es_def, of 32 ?s] es(1) by (simp add: old_def new_def)
  have len: "32 \<le> length old" "length old \<le> 64" "32 \<le> length new" "length new \<le> 64"
    using es(1) by (auto simp: old_def new_def)
  then obtain e new' where new: "new = e # new'" by (cases new) auto
  have "length l < 32 \<Longrightarrow> length new' = 31"
    using arg_cong [OF new, of length] es(1) by (simp add: new_def)
  then have "Leaf_Insert T p (length l) key v =
      Inr (alloc (store T p (Leaf old)) (Leaf new), Some (fst e, nextAddr T), DoValuesMoved (nextAddr T) new)"
    using es assms(3) new
    by (cases "length l < 32") (simp_all add: Leaf_Insert_def Let_def nthE_def old_def new_def)
  with cut len new show ?thesis by blast
qed

section \<open>The state between two steps of the loop\<close>

text \<open>
  A node has been split into \<open>l\<close> (at the old address) and \<open>r\<close>, and its parent does not know
  of \<open>r\<close> yet.
\<close>

definition split_state ::
  "'k ScalarType \<Rightarrow> 'k set \<Rightarrow> ('k, 'v) BTree \<Rightarrow> nat \<Rightarrow> nat \<Rightarrow> ('k, 'v) frame list \<Rightarrow>
   ('k, 'v) gtree \<Rightarrow> 'k \<Rightarrow> ('k, 'v) gtree \<Rightarrow> bool"
where
  "split_state ty K T D d fs l k r \<longleftrightarrow>
     keyType T = ty \<and> rep (heap T) l \<and> rep (heap T) r \<and> rep_ctx (heap T) fs (addr_of l) \<and>
     ctx_root fs (addr_of l) = root T \<and> distinct (addrs l @ addrs r @ ctx_addrs fs) \<and>
     (\<forall>a\<in>set (addrs l @ addrs r @ ctx_addrs fs). a < nextAddr T) \<and> listCapacity T = 64 \<and>
     shape 64 d l \<and> shape 64 d r \<and> ctx_shape 64 D d fs \<and>
     ordered ty K (lefts fs @ inorder l @ Sep k # inorder r @ rights fs)"

lemma split_stateD:
  assumes "split_state ty K T D d fs l k r"
  shows "keyType T = ty" "rep (heap T) l" "rep (heap T) r" "rep_ctx (heap T) fs (addr_of l)"
    "ctx_root fs (addr_of l) = root T" "distinct (addrs l @ addrs r @ ctx_addrs fs)"
    "\<forall>a\<in>set (addrs l @ addrs r @ ctx_addrs fs). a < nextAddr T" "listCapacity T = 64"
    "shape 64 d l" "shape 64 d r" "ctx_shape 64 D d fs"
    "ordered ty K (lefts fs @ inorder l @ Sep k # inorder r @ rights fs)"
  using assms by (simp_all add: split_state_def)

text \<open>Rearranging the addresses of a tree.\<close>

lemma perm_addrs:
  assumes "mset xs = mset ys" "distinct ys" "\<forall>a\<in>set ys. a < (n :: nat)"
  shows "distinct xs" "\<forall>a\<in>set xs. a < n"
  using mset_eq_imp_distinct_iff [OF assms(1)] mset_eq_setD [OF assms(1)] assms(2,3) by simp_all

lemma ordered_trees_nonempty:
  "rep h t \<Longrightarrow> shape 64 d t \<Longrightarrow> \<exists>a e xs. inorder t = Ent a e # xs"
  using GetChildKey_rep [of h t 64 d "Suc d"] by auto

lemma Branch_Insert_room:
  assumes "split_state ty K T D d (Frame a kl tsl kr tsr # fs) l k r" "length tsl + length tsr < 63"
  shows "\<exists>T'. Branch_Insert T a (length tsl) k (addr_of r) = Inr (T', None) \<and>
    tree_core ty K T' D (plug fs (GBranch a (kl @ k # kr) (tsl @ l # r # tsr))) \<and>
    treeCount T' = treeCount T \<and> keyOnly T' = keyOnly T"
proof -
  let ?t = "GBranch a (kl @ k # kr) (tsl @ l # r # tsr)"
  let ?T = "store T a (Branch (kl @ k # kr) (map addr_of (tsl @ l # r # tsr)))"
  note st = split_stateD [OF assms(1)]
  have len: "length kl = length tsl" "length kr = length tsr" "ctx_shape 64 D (Suc d) fs"
    using st(11) by simp_all
  have sh: "\<forall>t\<in>set tsl \<union> set tsr. shape 64 d t" "Suc (length tsl + length tsr) \<le> 64"
    "(if fs = [] then 2 else 32) \<le> Suc (length tsl + length tsr)" using st(11) by auto
  have ctx: "heap T a = Some (Branch (kl @ kr) (map addr_of tsl @ addr_of l # map addr_of tsr))"
    "\<forall>t\<in>set tsl \<union> set tsr. rep (heap T) t" "rep_ctx (heap T) fs a" "ctx_root fs a = root T"
    using st(4,5) by simp_all
  have "insert_at (length kl) k (kl @ kr) = kl @ k # kr" by simp
  moreover have "insert_at (Suc (length kl)) (addr_of r) (map addr_of tsl @ addr_of l # map addr_of tsr)
      = map addr_of tsl @ addr_of l # addr_of r # map addr_of tsr"
    using insert_at_append_length [of "map addr_of tsl @ [addr_of l]" "addr_of r" "map addr_of tsr"] len
    by simp
  ultimately have run: "Branch_Insert T a (length tsl) k (addr_of r) = Inr (?T, None)"
    using ctx(1) st(8) assms(2) len by (simp add: Branch_Insert_def)
  have na: "a \<notin> set (ctx_addrs fs)" "\<forall>t\<in>set (tsl @ l # r # tsr). a \<notin> set (addrs t)"
    using st(6) by auto
  have rep: "rep (heap ?T) ?t" "rep_ctx (heap ?T) fs a" using st(2,3) ctx na by auto
  have perm: "mset (addrs ?t @ ctx_addrs fs) = mset (addrs l @ addrs r @ ctx_addrs (Frame a kl tsl kr tsr # fs))"
    by simp
  have shape: "rshape 64 D (plug fs ?t)"
    using sh st(9,10) assms(2) len by (intro rshape_plugI [OF len(3)]) (auto simp: focus_shape_def)
  have "inorder (plug fs ?t) = lefts fs @ inorder ?t @ rights fs"
    by (rule inorder_plug [OF ctx_shape_frames_ok [OF len(3)]])
  moreover have "inorder ?t = weaveL kl (map inorder tsl) @ inorder l @ Sep k # inorder r @ weaveR kr (map inorder tsr)"
    using len by simp
  ultimately have "ordered ty K (inorder (plug fs ?t))" using st(12) by simp
  then have "tree_core ty K ?T D (plug fs ?t)"
    using rep perm_addrs [OF perm st(6,7)] shape st(1,8) ctx(4)
    by (simp add: tree_core_def rep_plug capacity_ok_def ball_Un)
  with run show ?thesis by auto
qed

subsection \<open>The split of a branch\<close>

lemma weave_cut:
  assumes "length xs1 = Suc (length ks1)" "xs2 \<noteq> []"
  shows "weave (ks1 @ x # ks2) (xs1 @ xs2) = weave ks1 xs1 @ Sep x # weave ks2 xs2"
proof -
  obtain y ys z zs where "xs1 = y # ys" "xs2 = z # zs" using assms by (cases xs1; cases xs2) auto
  with assms show ?thesis by simp
qed

lemma inorder_grown:
  "length kl = length tsl \<Longrightarrow> weave (kl @ k # kr) (map inorder (tsl @ l # r # tsr)) =
     weaveL kl (map inorder tsl) @ inorder l @ Sep k # inorder r @ weaveR kr (map inorder tsr)"
  by simp

text \<open>What \<open>Branch_Insert\<close> computes on a full branch, in terms of that cut.\<close>

lemma Branch_Insert_full:
  assumes "heap T a = Some (Branch (kl @ kr) (map addr_of (tsl @ l # tsr)))" "listCapacity T = 64"
    and len: "length kl = length tsl" "length kr = length tsr" "length tsl + length tsr = 63"
  shows "\<exists>ks1 x ks2 ts1 c ts2. kl @ k # kr = ks1 @ x # ks2 \<and> tsl @ l # r # tsr = ts1 @ c # ts2 \<and>
    length ts1 = Suc (length ks1) \<and> length ts2 = length ks2 \<and> 32 \<le> length ts1 \<and> length ts1 \<le> 64 \<and>
    31 \<le> length ts2 \<and> length ts2 < 64 \<and> c \<in> set (tsl @ l # tsr) \<and>
    (\<forall>k'. GetChildKey (nextAddr T) (heap T) (addr_of c) = Inr k' \<longrightarrow>
      Branch_Insert T a (length tsl) k (addr_of r) =
        Inr (alloc (store T a (Branch ks1 (map addr_of ts1))) (Branch ks2 (map addr_of (c # ts2))),
             Some (k', nextAddr T)))"
proof -
  define ks ts i where "ks = kl @ kr" and "ts = tsl @ l # tsr" and "i = length tsl"
  have n: "length ks = 63" "length ts = 64" "i \<le> 63" using len by (auto simp: ks_def ts_def i_def)
  have h: "heap T a = Some (Branch ks (map addr_of ts))" using assms(1) by (simp add: ks_def ts_def)
  define x where "x = ks ! 31"
  have ks: "ks = take 31 ks @ x # drop 32 ks" using id_take_nth_drop [of 31 ks] n by (simp add: x_def)
  obtain c rest where c: "drop 32 ts = c # rest" "length rest = 31"
    using n(2) by (cases "drop 32 ts") (auto dest: arg_cong [of _ _ length])
  have ts: "ts = take 32 ts @ c # rest" using append_take_drop_id [of 32 ts] c(1) by simp
  have inK: "c \<in> set ts" using ts by (metis in_set_conv_decomp)
  have gk: "insert_at i k ks = kl @ k # kr" using len(1) by (simp add: ks_def i_def flip: len(1))
  have gt: "insert_at (Suc i) r ts = tsl @ l # r # tsr"
    using insert_at_append_length [of "tsl @ [l]" r tsr] by (simp add: ts_def i_def)
  have md: "drop 32 (map addr_of ts) = addr_of c # map addr_of rest" "take 32 (map addr_of ts) = map addr_of (take 32 ts)"
    using c(1) by (simp_all add: drop_map take_map)
  show ?thesis
  proof (cases "i \<le> 31")
    case True
    let ?ks1 = "insert_at i k (take 31 ks)" and ?ts1 = "insert_at (Suc i) r (take 32 ts)"
    have "kl @ k # kr = ?ks1 @ x # drop 32 ks"
      using gk ks True insert_at_append_left [of i "take 31 ks" k "x # drop 32 ks"] n by simp
    moreover have "tsl @ l # r # tsr = ?ts1 @ c # rest"
      using gt ts True insert_at_append_left [of "Suc i" "take 32 ts" r "c # rest"] n by simp
    moreover have "Branch_Insert T a i k (addr_of r) =
        Inr (alloc (store T a (Branch ?ks1 (map addr_of ?ts1))) (Branch (drop 32 ks) (map addr_of (c # rest))),
             Some (k', nextAddr T))"
      if "GetChildKey (nextAddr T) (heap T) (addr_of c) = Inr k'" for k'
      using h assms(2) n True that c(2) md by (simp add: Branch_Insert_def Let_def)
    ultimately show ?thesis using n c(2) inK True unfolding ts_def [symmetric] i_def [symmetric]
      by (intro exI [of _ ?ks1] exI [of _ x] exI [of _ "drop 32 ks"] exI [of _ ?ts1] exI [of _ c] exI [of _ rest])
        (simp add: i_def)
  next
    case False
    let ?ks2 = "insert_at (i - 32) k (drop 32 ks)" and ?ts2 = "insert_at (i - 32) r rest"
    have "kl @ k # kr = take 31 ks @ x # ?ks2"
      using gk ks False insert_at_append_right [of "take 31 ks @ [x]" i k "drop 32 ks"] n by simp
    moreover have "tsl @ l # r # tsr = take 32 ts @ c # ?ts2"
      using gt ts False insert_at_append_right [of "take 32 ts @ [c]" "Suc i" r rest] n by simp
    moreover have "Branch_Insert T a i k (addr_of r) =
        Inr (alloc (store T a (Branch (take 31 ks) (map addr_of (take 32 ts)))) (Branch ?ks2 (map addr_of (c # ?ts2))),
             Some (k', nextAddr T))"
      if "GetChildKey (nextAddr T) (heap T) (addr_of c) = Inr k'" for k'
      using h assms(2) n False that c(2) md by (simp add: Branch_Insert_def Let_def)
    ultimately show ?thesis using n c(2) inK False unfolding ts_def [symmetric] i_def [symmetric]
      by (intro exI [of _ "take 31 ks"] exI [of _ x] exI [of _ ?ks2] exI [of _ "take 32 ts"] exI [of _ c] exI [of _ ?ts2])
        (simp add: i_def)
  qed
qed

context scalar_order
begin

text \<open>
  The grown sequences of separators and children are cut in two: the left part stays at
  the old address, the separator between the parts is replaced by the first key of the
  right part.
\<close>

lemma branch_cut:
  assumes "split_state ty K T D d (Frame a kl tsl kr tsr # fs) l k r"
    and cut: "kl @ k # kr = ks1 @ x # ks2" "tsl @ l # r # tsr = ts1 @ c # ts2"
    and len: "length ts1 = Suc (length ks1)" "length ts2 = length ks2"
      "32 \<le> length ts1" "length ts1 \<le> 64" "31 \<le> length ts2" "length ts2 < 64"
    and key: "inorder c = Ent b e # xs"
  defines "T' \<equiv> alloc (store T a (Branch ks1 (map addr_of ts1))) (Branch ks2 (map addr_of (c # ts2)))"
    and "l' \<equiv> GBranch a ks1 ts1" and "r' \<equiv> GBranch (nextAddr T) ks2 (c # ts2)"
  shows "split_state ty K T' D (Suc d) fs l' (fst e) r'"
    "locs (lefts fs @ inorder l' @ Sep (fst e) # inorder r' @ rights fs) =
     locs (lefts (Frame a kl tsl kr tsr # fs) @ inorder l @ Sep k # inorder r @ rights (Frame a kl tsl kr tsr # fs))"
proof -
  note st = split_stateD [OF assms(1)]
  let ?F = "Frame a kl tsl kr tsr" and ?q = "nextAddr T"
  have ctx: "rep_ctx (heap T) fs a" "ctx_root fs a = root T" "ctx_shape 64 D (Suc d) fs" "length kl = length tsl"
    using st(4,5,11) by simp_all
  have sub: "\<forall>t\<in>set (ts1 @ c # ts2). rep (heap T) t \<and> shape 64 d t"
    unfolding cut(2) [symmetric] using st(2,3,4,9,10,11) by auto
  have perm: "mset (a # concat (map addrs (ts1 @ c # ts2)) @ ctx_addrs fs) = mset (addrs l @ addrs r @ ctx_addrs (?F # fs))"
    unfolding cut(2) [symmetric] by simp
  note da = perm_addrs [OF perm st(6,7)]
  have na: "a \<notin> set (ctx_addrs fs)" "\<forall>t\<in>set (ts1 @ c # ts2). a \<notin> set (addrs t)" "a \<noteq> ?q"
    using da by auto
  have lt: "\<forall>b\<in>set (ctx_addrs fs). b < ?q" "\<forall>t\<in>set (ts1 @ c # ts2). \<forall>b\<in>set (addrs t). b < ?q"
    using da(2) by auto
  have nq: "?q \<notin> set (ctx_addrs fs)" "\<forall>t\<in>set (ts1 @ c # ts2). ?q \<notin> set (addrs t)"
    using lt by (meson less_irrefl)+
  have rep: "rep (heap T') l'" "rep (heap T') r'" "rep_ctx (heap T') fs (addr_of l')"
    using sub ctx(1) na nq by (auto simp: T'_def l'_def r'_def)
  have perm': "mset (addrs l' @ addrs r' @ ctx_addrs fs) =
      mset (?q # a # concat (map addrs (ts1 @ c # ts2)) @ ctx_addrs fs)"
    by (simp add: l'_def r'_def)
  have da': "distinct (?q # a # concat (map addrs (ts1 @ c # ts2)) @ ctx_addrs fs)"
    "\<forall>b\<in>set (?q # a # concat (map addrs (ts1 @ c # ts2)) @ ctx_addrs fs). b < nextAddr T'"
    using da nq na(3) lt by (auto simp: T'_def intro: less_SucI)
  have whole: "lefts (?F # fs) @ inorder l @ Sep k # inorder r @ rights (?F # fs) =
      (lefts fs @ weave ks1 (map inorder ts1)) @ Sep x # Ent b e # (xs @ weaveR ks2 (map inorder ts2) @ rights fs)"
    using inorder_grown [OF ctx(4), of k kr l r tsr] weave_cut [of "map inorder ts1" ks1 "map inorder (c # ts2)" x ks2]
      cut len(1) key by simp
  have parts: "inorder l' = weave ks1 (map inorder ts1)" "inorder r' = Ent b e # xs @ weaveR ks2 (map inorder ts2)"
    using key by (simp_all add: l'_def r'_def)
  have "ordered ty K (lefts fs @ inorder l' @ Sep (fst e) # inorder r' @ rights fs)"
    using ordered_reseparate [OF st(12) [unfolded whole]] parts by simp
  moreover have "shape 64 (Suc d) l'" "shape 64 (Suc d) r'" using sub len by (auto simp: l'_def r'_def)
  ultimately show "split_state ty K T' D (Suc d) fs l' (fst e) r'"
    unfolding split_state_def using rep perm_addrs [OF perm' da'] st(1,8) ctx
    by (simp add: T'_def l'_def r'_def)
  show "locs (lefts fs @ inorder l' @ Sep (fst e) # inorder r' @ rights fs) =
     locs (lefts (?F # fs) @ inorder l @ Sep k # inorder r @ rights (?F # fs))"
    unfolding whole using parts by simp
qed

lemma Branch_Insert_split:
  assumes "split_state ty K T D d (Frame a kl tsl kr tsr # fs) l k r" "length tsl + length tsr = 63"
  shows "\<exists>T' l' k' r'. Branch_Insert T a (length tsl) k (addr_of r) = Inr (T', Some (k', addr_of r')) \<and>
    split_state ty K T' D (Suc d) fs l' k' r' \<and>
    locs (lefts fs @ inorder l' @ Sep k' # inorder r' @ rights fs) =
      locs (lefts (Frame a kl tsl kr tsr # fs) @ inorder l @ Sep k # inorder r @ rights (Frame a kl tsl kr tsr # fs)) \<and>
    treeCount T' = treeCount T \<and> keyOnly T' = keyOnly T"
proof -
  note st = split_stateD [OF assms(1)]
  have "heap T a = Some (Branch (kl @ kr) (map addr_of (tsl @ l # tsr)))"
    "length kl = length tsl" "length kr = length tsr" using st(4,11) by simp_all
  from Branch_Insert_full [OF this(1) st(8) this(2,3) assms(2), of k r]
  obtain ks1 x ks2 ts1 c ts2 where cut: "kl @ k # kr = ks1 @ x # ks2" "tsl @ l # r # tsr = ts1 @ c # ts2"
    and len: "length ts1 = Suc (length ks1)" "length ts2 = length ks2"
      "32 \<le> length ts1" "length ts1 \<le> 64" "31 \<le> length ts2" "length ts2 < 64"
    and c: "c \<in> set (tsl @ l # tsr)"
    and run: "\<And>k'. GetChildKey (nextAddr T) (heap T) (addr_of c) = Inr k' \<Longrightarrow>
      Branch_Insert T a (length tsl) k (addr_of r) =
        Inr (alloc (store T a (Branch ks1 (map addr_of ts1))) (Branch ks2 (map addr_of (c # ts2))),
             Some (k', nextAddr T))"
    by blast
  have "rep (heap T) c" "shape 64 d c" using c st(2,4,9,11) by auto
  moreover have "d < nextAddr T" using height_less_next [of 64 d l "nextAddr T"] st(6,7,9) by simp
  ultimately obtain b e xs where key: "inorder c = Ent b e # xs"
    and get: "GetChildKey (nextAddr T) (heap T) (addr_of c) = Inr (fst e)"
    using GetChildKey_rep [of "heap T" c 64 d "nextAddr T"] by auto
  show ?thesis
    using branch_cut [OF assms(1) cut len key] run [OF get]
    by (intro exI [of _ "alloc (store T a (Branch ks1 (map addr_of ts1))) (Branch ks2 (map addr_of (c # ts2)))"]
        exI [of _ "GBranch a ks1 ts1"] exI [of _ "fst e"] exI [of _ "GBranch (nextAddr T) ks2 (c # ts2)"] conjI)
      simp_all
qed

lemma Insert_loop_ok:
  assumes "split_state ty K T D d fs l k r"
  shows "\<exists>T' res. Insert_loop T (path_of fs) (Some (k, addr_of r)) = Inr (T', res) \<and>
    treeCount T' = treeCount T \<and> keyOnly T' = keyOnly T \<and>
    (case res of
       None \<Rightarrow> \<exists>t'. tree_core ty K T' D t' \<and>
         locs (inorder t') = locs (lefts fs @ inorder l @ Sep k # inorder r @ rights fs)
     | Some (k', q) \<Rightarrow> \<exists>l' r'. q = addr_of r' \<and> split_state ty K T' D D [] l' k' r' \<and>
         locs (inorder l' @ Sep k' # inorder r') = locs (lefts fs @ inorder l @ Sep k # inorder r @ rights fs))"
  using assms
proof (induction fs arbitrary: T d l k r)
  case Nil
  moreover from Nil have "d = D" by (simp add: split_state_def)
  ultimately show ?case by auto
next
  case (Cons f fs)
  obtain a kl tsl kr tsr where f: "f = Frame a kl tsl kr tsr" by (cases f)
  have st: "split_state ty K T D d (Frame a kl tsl kr tsr # fs) l k r" using Cons.prems f by simp
  have len: "length kl = length tsl" "frames_ok fs" "length tsl + length tsr \<le> 63"
    using split_stateD(11) [OF st] ctx_shape_frames_ok by auto
  show ?case
  proof (cases "length tsl + length tsr < 63")
    case True
    with Branch_Insert_room [OF st] f len show ?thesis by (fastforce simp: inorder_plug)
  next
    case False
    then obtain T' l' k' r' where 1: "Branch_Insert T a (length tsl) k (addr_of r) = Inr (T', Some (k', addr_of r'))"
      "split_state ty K T' D (Suc d) fs l' k' r'"
      "locs (lefts fs @ inorder l' @ Sep k' # inorder r' @ rights fs) =
        locs (lefts (f # fs) @ inorder l @ Sep k # inorder r @ rights (f # fs))"
      "treeCount T' = treeCount T" "keyOnly T' = keyOnly T"
      using Branch_Insert_split [OF st] len(3) f by auto
    have "Insert_loop T (path_of (f # fs)) (Some (k, addr_of r)) = Insert_loop T' (path_of fs) (Some (k', addr_of r'))"
      using 1(1) f by simp
    then show ?thesis using Cons.IH [OF 1(2)] unfolding 1(3,4,5) by simp
  qed
qed

end

text \<open>A new root above the two halves of the old one.\<close>

lemma new_root_core:
  assumes "split_state ty K T D D [] l k r"
  shows "tree_core ty K ((alloc T (Branch [k] [root T, addr_of r]))\<lparr>root := nextAddr T, treeCount := n\<rparr>)
    (Suc D) (GBranch (nextAddr T) [k] [l, r])"
proof -
  note st = split_stateD [OF assms]
  have "nextAddr T \<notin> set (addrs l)" "nextAddr T \<notin> set (addrs r)" using st(7) by auto
  then show ?thesis using st
    by (auto simp: tree_core_def capacity_ok_def intro: less_SucI)
qed

section \<open>The whole insertion\<close>

text \<open>
  What the values-moved calls tell: every entry of the changed part \<open>X\<close> is still in leaf
  \<open>a\<close> or has been reported with its leaf, and every report is true.
\<close>

definition moved_ok :: "addr \<Rightarrow> (addr \<times> 'k \<times> 'v option) list \<Rightarrow> ('v \<times> addr) list \<Rightarrow> bool" where
  "moved_ok a X moved \<longleftrightarrow>
     (\<forall>(b, k, w)\<in>set X. b = a \<or> (\<forall>v. w = Some v \<longrightarrow> (v, b) \<in> set moved)) \<and>
     (\<forall>(v, b)\<in>set moved. \<exists>k. (b, k, Some v) \<in> set X)"

lemma set_DoValuesMoved: "(v, b) \<in> set (DoValuesMoved q es) \<longleftrightarrow> b = q \<and> (\<exists>k. (k, Some v) \<in> set es)"
  by (force simp: DoValuesMoved_def List.map_filter_def)

lemma moved_ok_split:
  "moved_ok a (map (Pair a) old @ map (Pair q) new) (DoValuesMoved q new)"
  by (auto simp: moved_ok_def set_DoValuesMoved image_iff)

lemma moved_ok_same: "moved_ok a (map (Pair a) es) []"
  by (auto simp: moved_ok_def)

lemma moved_ok_grown: "moved_ok a (map (Pair q) es) (DoValuesMoved q es)"
  by (auto simp: moved_ok_def set_DoValuesMoved image_iff)

text \<open>The parts of the invariant at a leaf.\<close>

lemma leaf_focus:
  assumes "tree_core ty K T D (plug fs (GLeaf a es))" "frames_ok fs"
  shows "ctx_shape (listCapacity T) D 0 fs" "focus_shape (listCapacity T) fs 0 (GLeaf a es)"
    "heap T a = Some (Leaf es)" "rep_ctx (heap T) fs a" "ctx_root fs a = root T"
    "distinct (a # ctx_addrs fs)" "\<forall>b\<in>set (a # ctx_addrs fs). b < nextAddr T"
    "ordered ty K (lefts fs @ map (Ent a) es @ rights fs)" "capacity_ok (listCapacity T) D"
    "fs \<noteq> [] \<Longrightarrow> listCapacity T = 64" "length es \<le> listCapacity T" "keyType T = ty"
proof -
  note c = assms(1) [unfolded tree_core_def]
  obtain d where d: "D = d + length fs" "ctx_shape (listCapacity T) D d fs"
    "focus_shape (listCapacity T) fs d (GLeaf a es)"
    using frames_shape [OF _ assms(2), of "listCapacity T" D "GLeaf a es"] c by auto
  have "d = 0" using d(3) by (auto simp: focus_shape_def shape_GLeaf rshape_GLeaf split: if_splits)
  with d c show "ctx_shape (listCapacity T) D 0 fs" "focus_shape (listCapacity T) fs 0 (GLeaf a es)"
    "fs \<noteq> [] \<Longrightarrow> listCapacity T = 64"
    by (auto simp: capacity_ok_def)
  then show "length es \<le> listCapacity T" by (auto simp: focus_shape_def split: if_splits)
  show "heap T a = Some (Leaf es)" "rep_ctx (heap T) fs a" "ctx_root fs a = root T"
    "distinct (a # ctx_addrs fs)" "\<forall>b\<in>set (a # ctx_addrs fs). b < nextAddr T"
    "ordered ty K (lefts fs @ map (Ent a) es @ rights fs)" "capacity_ok (listCapacity T) D" "keyType T = ty"
    using c by (simp_all add: rep_plug inorder_plug [OF assms(2)])
qed

lemma tree_core_count [simp]: "tree_core ty K (T\<lparr>treeCount := n\<rparr>) D t \<longleftrightarrow> tree_core ty K T D t"
  by (simp add: tree_core_def)

lemma position_order:
  assumes "position ty K key t fs a l r False" "ordered ty K (inorder t)" "key \<in> K"
  shows "ordered ty K (lefts fs @ map (Ent b) (l @ (key, w) # r) @ rights fs)"
proof -
  have "ordered ty K ((lefts fs @ map (Ent a) l) @ Ent a (key, w) # map (Ent a) r @ rights fs)"
    using assms by (intro ordered_insert) (auto simp: position_def inorder_plug)
  then have "ordered ty K (lefts fs @ map (Ent a) (l @ (key, w) # r) @ rights fs)" by simp
  then show ?thesis by (rule ordered_relabel)
qed

text \<open>The leaf of an insertion: room, growth of the root leaf, split.\<close>

lemma Insert_leaf_room:
  assumes "tree_core ty K T D (plug fs (GLeaf a (l @ r)))" "frames_ok fs" "length (l @ r) \<noteq> listCapacity T"
    and "ordered ty K (lefts fs @ map (Ent a) (l @ slot T key v # r) @ rights fs)"
    and "PathLeaf path = a" "LeafIndex path = length l"
  shows "\<exists>T'. Insert_leaf T path key v = Inr (T', None, []) \<and> treeCount T' = treeCount T \<and>
    keyOnly T' = keyOnly T \<and> tree_core ty K T' D (plug fs (GLeaf a (l @ slot T key v # r)))"
proof -
  note lf = leaf_focus [OF assms(1,2)]
  let ?es = "l @ slot T key v # r"
  let ?T = "store T a (Leaf ?es)"
  have "Insert_leaf T path key v = Inr (?T, None, [])"
    using lf(3) assms(3,5,6) Leaf_Insert_room [OF lf(3) assms(3)] by (auto simp: Insert_leaf_def)
  moreover have "rshape (listCapacity T) D (plug fs (GLeaf a ?es))"
    using lf(1,2,11) assms(3) by (intro rshape_plugI [OF lf(1)]) (auto simp: focus_shape_def split: if_splits)
  then have "tree_core ty K ?T D (plug fs (GLeaf a ?es))"
    using lf assms(4) by (simp add: tree_core_def rep_plug inorder_plug [OF assms(2)])
  ultimately show ?thesis by auto
qed

lemma Insert_leaf_grow:
  assumes "tree_core ty K T D (GLeaf a (l @ r))" "length (l @ r) = listCapacity T" "listCapacity T < 64"
    and "ordered ty K (map (Ent (nextAddr T)) (l @ slot T key v # r))"
    and "PathLeaf path = a" "LeafIndex path = length l"
  shows "\<exists>T'. Insert_leaf T path key v = Inr (T', None, DoValuesMoved (nextAddr T) (l @ slot T key v # r)) \<and>
    treeCount T' = treeCount T \<and> keyOnly T' = keyOnly T \<and>
    tree_core ty K T' D (GLeaf (nextAddr T) (l @ slot T key v # r))"
proof -
  have lf: "heap T a = Some (Leaf (l @ r))" "a = root T" "keyType T = ty" "D = 0" "root T < nextAddr T"
    "capacity_ok (listCapacity T) D"
    using assms(1) by (auto simp: tree_core_def rshape_GLeaf)
  let ?es = "l @ slot T key v # r" and ?q = "nextAddr T"
  let ?T2 = "(free (alloc (T\<lparr>listCapacity := listCapacity T * 2\<rparr>) (Leaf (l @ r))) (root T))\<lparr>root := ?q\<rparr>"
  have "0 < listCapacity T" using lf(6) by (auto simp: capacity_ok_def)
  then have "Leaf_Insert ?T2 ?q (length l) key v = Inr (store ?T2 ?q (Leaf ?es), None, [])"
    using Leaf_Insert_room [of ?T2 ?q l r key v] lf(5) assms(2) slot_cong [of ?T2 T key v] by simp
  moreover have "heap (store ?T2 ?q (Leaf ?es)) ?q = Some (Leaf ?es)" by simp
  ultimately have "Insert_leaf T path key v = Inr (store ?T2 ?q (Leaf ?es), None, DoValuesMoved ?q ?es)"
    using lf assms(2,3,5,6) by (simp add: Insert_leaf_def Let_def DefaultListCapacity_def)
  moreover have "tree_core ty K (store ?T2 ?q (Leaf ?es)) D (GLeaf ?q ?es)"
    using lf assms(2,3,4) \<open>0 < listCapacity T\<close> by (auto simp: tree_core_def capacity_ok_def)
  ultimately show ?thesis by auto
qed

lemma Insert_leaf_split:
  assumes "scalar_order ty K" "tree_core ty K T D (plug fs (GLeaf a (l @ r)))" "frames_ok fs"
    "length (l @ r) = 64" "listCapacity T = 64"
    and "\<And>b. ordered ty K (lefts fs @ map (Ent b) (l @ slot T key v # r) @ rights fs)"
    and "PathLeaf path = a" "LeafIndex path = length l"
  shows "\<exists>T' old new k. Insert_leaf T path key v = Inr (T', Some (k, nextAddr T), DoValuesMoved (nextAddr T) new) \<and>
    l @ slot T key v # r = old @ new \<and> treeCount T' = treeCount T \<and> keyOnly T' = keyOnly T \<and>
    split_state ty K T' D 0 fs (GLeaf a old) k (GLeaf (nextAddr T) new)"
proof -
  note lf = leaf_focus [OF assms(2,3)]
  let ?q = "nextAddr T"
  obtain old new e new' where s: "l @ slot T key v # r = old @ new" "new = e # new'"
    "32 \<le> length old" "length old \<le> 64" "32 \<le> length new" "length new \<le> 64"
    "Leaf_Insert T a (length l) key v =
      Inr (alloc (store T a (Leaf old)) (Leaf new), Some (fst e, ?q), DoValuesMoved ?q new)"
    using Leaf_Insert_split [OF lf(3) assms(4,5), of key v] by blast
  let ?T = "alloc (store T a (Leaf old)) (Leaf new)"
  have run: "Insert_leaf T path key v = Inr (?T, Some (fst e, ?q), DoValuesMoved ?q new)"
    using s(7) lf(3) assms(4,5,7,8) by (simp add: Insert_leaf_def DefaultListCapacity_def)
  have q: "?q \<notin> set (ctx_addrs fs)" "?q \<noteq> a" using lf(7) by auto
  obtain old' f where f: "old = old' @ [f]" using s(3) by (cases old rule: rev_cases) auto
  have "ordered ty K ((lefts fs @ map (Ent a) old) @ map (Ent a) new @ rights fs)"
    using assms(6) [of a] s(1) by simp
  then have "ordered ty K ((lefts fs @ map (Ent a) old) @ map (Ent ?q) new @ rights fs)"
    by (rule ordered_relabel)
  then have "ordered ty K ((lefts fs @ map (Ent a) old') @ Ent a f # Ent ?q e # map (Ent ?q) new' @ rights fs)"
    using f s(2) by simp
  then have "ordered ty K ((lefts fs @ map (Ent a) old') @ Ent a f # Sep (fst e) # Ent ?q e # map (Ent ?q) new' @ rights fs)"
    by (rule scalar_order.ordered_separate [OF assms(1)])
  then have "ordered ty K (lefts fs @ map (Ent a) old @ Sep (fst e) # map (Ent ?q) new @ rights fs)"
    using f s(2) by simp
  then have "split_state ty K ?T D 0 fs (GLeaf a old) (fst e) (GLeaf ?q new)"
    using lf(1,4,5,6,7,12) q s(3-6) assms(5) by (auto simp: split_state_def intro: less_SucI)
  with run s(1) show ?thesis by auto
qed

context scalar_order
begin

lemma Insert_core:
  assumes "tree_core ty K T D t" "position ty K key t fs a l r False" "key \<in> K"
    and "Branches path = rev (path_of fs)" "PathLeaf path = a" "LeafIndex path = length l"
  shows "\<exists>T' D' t' moved X. Insert T path key v = Inr (T', moved) \<and> tree_core ty K T' D' t' \<and>
    treeCount T' = treeCount T + 1 \<and> keyOnly T' = keyOnly T \<and>
    locs (inorder t') = locs (lefts fs) @ X @ locs (rights fs) \<and>
    map snd X = l @ slot T key v # r \<and> moved_ok a X moved"
proof -
  let ?s = "slot T key v"
  have t: "t = plug fs (GLeaf a (l @ r))" "frames_ok fs" using assms(2) by (auto simp: position_def)
  have core: "tree_core ty K T D (plug fs (GLeaf a (l @ r)))" using assms(1) t by simp
  note lf = leaf_focus [OF core t(2)]
  have ord: "ordered ty K (lefts fs @ map (Ent b) (l @ ?s # r) @ rights fs)" for b
    using position_order [OF assms(2) _ assms(3)] assms(1) by (simp add: slot_def tree_core_def)
  consider (room) "length (l @ r) \<noteq> listCapacity T"
    | (grow) "length (l @ r) = listCapacity T" "listCapacity T < 64"
    | (split) "length (l @ r) = 64" "listCapacity T = 64"
    using lf(9) by (fastforce simp: capacity_ok_def)
  then show ?thesis
  proof cases
    case room
    obtain T1 where 1: "Insert_leaf T path key v = Inr (T1, None, [])" "treeCount T1 = treeCount T"
      "keyOnly T1 = keyOnly T" "tree_core ty K T1 D (plug fs (GLeaf a (l @ ?s # r)))"
      using Insert_leaf_room [OF core t(2) room ord assms(5,6)] by blast
    have "Insert T path key v = Inr (T1\<lparr>treeCount := treeCount T1 + 1\<rparr>, [])" using 1(1) by (simp add: Insert_def)
    moreover have "tree_core ty K (T1\<lparr>treeCount := treeCount T1 + 1\<rparr>) D (plug fs (GLeaf a (l @ ?s # r)))"
      using 1(4) by simp
    ultimately show ?thesis using 1 moved_ok_same [of a "l @ ?s # r"] inorder_plug [OF t(2), of "GLeaf a (l @ ?s # r)"]
      by (intro exI [of _ "T1\<lparr>treeCount := treeCount T1 + 1\<rparr>"] exI [of _ D]
          exI [of _ "plug fs (GLeaf a (l @ ?s # r))"] exI [of _ "[]"] exI [of _ "map (Pair a) (l @ ?s # r)"])
        (simp add: comp_def)
  next
    case grow
    then have fs: "fs = []" using lf(10) by auto
    let ?q = "nextAddr T" and ?m = "DoValuesMoved (nextAddr T) (l @ ?s # r)"
    obtain T1 where 1: "Insert_leaf T path key v = Inr (T1, None, ?m)" "treeCount T1 = treeCount T"
      "keyOnly T1 = keyOnly T" "tree_core ty K T1 D (GLeaf ?q (l @ ?s # r))"
      using Insert_leaf_grow [of ty K T D a l r key v path] core fs grow ord [of ?q] assms(5,6) by auto
    have "Insert T path key v = Inr (T1\<lparr>treeCount := treeCount T1 + 1\<rparr>, ?m)" using 1(1) by (simp add: Insert_def)
    moreover have "tree_core ty K (T1\<lparr>treeCount := treeCount T1 + 1\<rparr>) D (GLeaf ?q (l @ ?s # r))"
      using 1(4) by simp
    ultimately show ?thesis using 1 moved_ok_grown [of a ?q "l @ ?s # r"] fs
      by (intro exI [of _ "T1\<lparr>treeCount := treeCount T1 + 1\<rparr>"] exI [of _ D]
          exI [of _ "GLeaf ?q (l @ ?s # r)"] exI [of _ ?m] exI [of _ "map (Pair ?q) (l @ ?s # r)"])
        (simp add: comp_def)
  next
    case split
    let ?q = "nextAddr T"
    obtain T1 old new k where 1: "Insert_leaf T path key v = Inr (T1, Some (k, ?q), DoValuesMoved ?q new)"
      "l @ ?s # r = old @ new" "treeCount T1 = treeCount T" "keyOnly T1 = keyOnly T"
      "split_state ty K T1 D 0 fs (GLeaf a old) k (GLeaf ?q new)"
      using Insert_leaf_split [OF scalar_order_axioms core t(2) split ord assms(5,6)] by blast
    let ?X = "map (Pair a) old @ map (Pair ?q) new"
    have X: "map snd ?X = l @ ?s # r" "moved_ok a ?X (DoValuesMoved ?q new)"
      using 1(2) moved_ok_split by (auto simp: comp_def)
    have seq: "locs (lefts fs @ inorder (GLeaf a old) @ Sep k # inorder (GLeaf ?q new) @ rights fs) =
        locs (lefts fs) @ ?X @ locs (rights fs)" by simp
    obtain T2 res where 2: "Insert_loop T1 (path_of fs) (Some (k, ?q)) = Inr (T2, res)"
      "treeCount T2 = treeCount T" "keyOnly T2 = keyOnly T"
      "case res of None \<Rightarrow> \<exists>t'. tree_core ty K T2 D t' \<and> locs (inorder t') = locs (lefts fs) @ ?X @ locs (rights fs)
       | Some (k', q) \<Rightarrow> \<exists>l' r'. q = addr_of r' \<and> split_state ty K T2 D D [] l' k' r' \<and>
         locs (inorder l' @ Sep k' # inorder r') = locs (lefts fs) @ ?X @ locs (rights fs)"
      using Insert_loop_ok [OF 1(5), unfolded seq addr_of.simps 1(3,4)] by blast
    show ?thesis
    proof (cases res)
      case None
      then obtain t' where t': "tree_core ty K T2 D t'" "locs (inorder t') = locs (lefts fs) @ ?X @ locs (rights fs)"
        using 2(4) by auto
      have "tree_core ty K (T2\<lparr>treeCount := treeCount T2 + 1\<rparr>) D t'" using t'(1) by simp
      moreover have "Insert T path key v = Inr (T2\<lparr>treeCount := treeCount T2 + 1\<rparr>, DoValuesMoved ?q new)"
        using 1(1) 2(1) None assms(4) by (simp add: Insert_def)
      ultimately show ?thesis using t' X 2(2,3) by (intro exI conjI) (assumption | simp)+
    next
      case (Some kq)
      obtain k' l' r' where s: "kq = (k', addr_of r')" "split_state ty K T2 D D [] l' k' r'"
        "locs (inorder l' @ Sep k' # inorder r') = locs (lefts fs) @ ?X @ locs (rights fs)"
        using 2(4) Some by (auto split: prod.splits)
      let ?T3 = "alloc T2 (Branch [k'] [root T2, addr_of r'])"
      have "Insert T path key v =
          Inr (?T3\<lparr>root := nextAddr T2, treeCount := treeCount ?T3 + 1\<rparr>, DoValuesMoved ?q new)"
        using 1(1) 2(1) Some s(1) assms(4) by (simp add: Insert_def Let_def)
      then show ?thesis using new_root_core [OF s(2), of "treeCount ?T3 + 1"] X 2(2,3) s(3)
        by (intro exI [of _ "?T3\<lparr>root := nextAddr T2, treeCount := treeCount ?T3 + 1\<rparr>"] exI [of _ "Suc D"]
            exI [of _ "GBranch (nextAddr T2) [k'] [l', r']"] exI [of _ "DoValuesMoved ?q new"] exI [of _ ?X])
          simp
    qed
  qed
qed

lemma Insert_inv:
  assumes "tree_inv ty K T D t" "position ty K key t fs a l r False" "key \<in> K"
    and "Branches path = rev (path_of fs)" "PathLeaf path = a" "LeafIndex path = length l"
  shows "\<exists>T' D' t' moved X. Insert T path key v = Inr (T', moved) \<and> tree_inv ty K T' D' t' \<and>
    keyOnly T' = keyOnly T \<and> locs (inorder t') = locs (lefts fs) @ X @ locs (rights fs) \<and>
    map snd X = l @ slot T key v # r \<and> moved_ok a X moved"
proof -
  obtain T' D' t' moved X where i: "Insert T path key v = Inr (T', moved)" "tree_core ty K T' D' t'"
    "treeCount T' = treeCount T + 1" "keyOnly T' = keyOnly T"
    "locs (inorder t') = locs (lefts fs) @ X @ locs (rights fs)"
    "map snd X = l @ slot T key v # r" "moved_ok a X moved"
    using Insert_core [OF _ assms(2-6)] assms(1) unfolding tree_inv_def by blast
  have "length (ents (inorder t')) = Suc (length (ents (inorder t)))"
    using arg_cong [OF i(6), of length] position_ents [OF assms(2)] i(5) by (simp add: ents_def)
  then have "tree_inv ty K T' D' t'" using i(2,3) assms(1) by (simp add: tree_inv_def)
  with i show ?thesis by blast
qed

text \<open>Insertion at the path of a search that found no equal key.\<close>

lemma Insert_contents:
  assumes "btree_inv ty K T" "key \<in> K" "GetPath T key = Inr path" "\<not> Match path"
  shows "\<exists>T' moved xs ys. Insert T path key v = Inr (T', moved) \<and> btree_inv ty K T' \<and>
    contents T = xs @ ys \<and> contents T' = xs @ slot T key v # ys \<and> keyOnly T' = keyOnly T"
proof -
  obtain D t where inv: "tree_inv ty K T D t" using assms(1) by (auto simp: btree_inv_def)
  obtain fs a l r m where pos: "position ty K key t fs a l r m" and
    path: "path = \<lparr>Branches = rev (path_of fs), PathLeaf = a, LeafIndex = length l, Match = m\<rparr>"
    using GetPath_position [OF inv assms(2)] assms(3) by auto
  have "m = False" using path assms(4) by simp
  with pos obtain T' D' t' moved X where i: "Insert T path key v = Inr (T', moved)" "tree_inv ty K T' D' t'"
    "keyOnly T' = keyOnly T" "locs (inorder t') = locs (lefts fs) @ X @ locs (rights fs)"
    "map snd X = l @ slot T key v # r"
    using Insert_inv [OF inv _ assms(2), of fs a l r path v] path by auto
  have "contents T' = (ents (lefts fs) @ l) @ slot T key v # r @ ents (rights fs)"
    using contents_inorder [OF i(2)] i(4,5) by (simp add: ents_def)
  moreover have "contents T = (ents (lefts fs) @ l) @ r @ ents (rights fs)"
    using contents_inorder [OF inv] position_ents [OF pos] by simp
  moreover have "btree_inv ty K T'" using i(2) by (auto simp: btree_inv_def)
  ultimately show ?thesis using i(1,3) by blast
qed

end

section \<open>Properties\<close>

text \<open>
  C1. Insertion: for a tree that satisfies the invariant and the path of a search that found
  no equal key, \<open>Insert\<close> succeeds, keeps the invariant and adds exactly the new entry,
  between the entries before and after the position of the search.
\<close>

theorem Insert_correct:
  assumes "scalar_order ty K" "btree_inv ty K T" "key \<in> K" "GetPath T key = Inr path" "\<not> Match path"
  shows "\<exists>T' moved xs ys. Insert T path key v = Inr (T', moved) \<and> btree_inv ty K T' \<and>
    contents T = xs @ ys \<and> contents T' = xs @ slot T key v # ys \<and> keyOnly T' = keyOnly T"
  using scalar_order.Insert_contents [OF assms] .

theorem Insert_correct_witness:
  "\<exists>path T' moved xs ys. GetPath sample_tree 4 = Inr path \<and> Insert sample_tree path 4 40 = Inr (T', moved) \<and>
     btree_inv LongType half_range T' \<and> contents T' = xs @ (4, Some 40) # ys \<and>
     xs @ ys = [(3, Some 30), (5, Some 50)]"
proof -
  let ?p = "\<lparr>Branches = [], PathLeaf = 0, LeafIndex = 1, Match = False\<rparr>"
  have p: "GetPath sample_tree 4 = Inr ?p" "\<not> Match ?p" by code_simp+
  have "contents sample_tree = [(3, Some 30), (5, Some 50)]" "slot sample_tree 4 40 = (4, Some 40)" by code_simp+
  with Insert_correct [OF longT.scalar_order_axioms sample_inv sample_keys(2) p, of 40] p(1)
  show ?thesis by metis
qed

end
