(* ===== verification/BTree_Delete.thy ===== *)
theory BTree_Delete
  imports BTree_Insert
begin

text \<open>
  Deletion from the B-tree: the update of routing separators, borrowing from and merging
  with siblings on the leaf level and on the branch levels, and the replacement of an
  empty root. A deletion is safe (\<open>delete_safe\<close>) as long as no leaf of a key-only tree underflows,
  no branch has to be repaired from its left sibling and no full branch loses a child; then it
  is correct. The last section shows what the code does otherwise.
\<close>

section \<open>A store seen from a focus\<close>

definition zrep :: "('k, 'v) BTree \<Rightarrow> ('k, 'v) frame list \<Rightarrow> ('k, 'v) gtree \<Rightarrow> bool" where
  "zrep T fs t \<longleftrightarrow>
     rep (heap T) t \<and> rep_ctx (heap T) fs (addr_of t) \<and> ctx_root fs (addr_of t) = root T \<and>
     distinct (addrs t @ ctx_addrs fs) \<and> (\<forall>b\<in>set (addrs t @ ctx_addrs fs). b < nextAddr T)"

lemma zrepD:
  assumes "zrep T fs t"
  shows "rep (heap T) t" "rep_ctx (heap T) fs (addr_of t)" "ctx_root fs (addr_of t) = root T"
    "distinct (addrs t @ ctx_addrs fs)" "\<forall>b\<in>set (addrs t @ ctx_addrs fs). b < nextAddr T"
  using assms by (simp_all add: zrep_def)

lemma zrep_root: "zrep T fs t \<longleftrightarrow> zrep T [] (plug fs t)"
  unfolding zrep_def rep_plug addr_of_plug distinct_addrs_plug set_addrs_plug by simp

lemma zrep_append: "zrep T (gs @ hs) t \<longleftrightarrow> zrep T hs (plug gs t)"
  unfolding zrep_root [of T "gs @ hs"] zrep_root [of T hs] plug_append ..

lemma zrep_Cons: "zrep T (Frame a kl tsl kr tsr # fs) t \<longleftrightarrow> zrep T fs (GBranch a (kl @ kr) (tsl @ t # tsr))"
  using zrep_append [of T "[Frame a kl tsl kr tsr]" fs t] by simp

lemma store_heap [simp]:
  "store (T\<lparr>heap := h\<rparr>) p n = T\<lparr>heap := h(p \<mapsto> n)\<rparr>" "free (T\<lparr>heap := h\<rparr>) p = T\<lparr>heap := h(p := None)\<rparr>"
  by (simp_all add: store_def free_def)

subsection \<open>The first key below a node\<close>

fun spine :: "('k, 'v) gtree \<Rightarrow> nat" where
  "spine (GLeaf a es) = 0"
| "spine (GBranch a ks []) = 0"
| "spine (GBranch a ks (t # ts)) = Suc (spine t)"

lemma spine_less_addrs: "spine t < length (addrs t)"
  by (induction t rule: spine.induct) simp_all

lemma spine_less: "distinct (addrs t) \<Longrightarrow> \<forall>a\<in>set (addrs t). a < n \<Longrightarrow> spine t < n"
  using spine_less_addrs [of t] length_addrs_le [of "addrs t" n] by simp

lemma weaveR_not_Ent: "weaveR ks xs \<noteq> Ent a e # ys"
  by (cases "(ks, xs)" rule: weaveR.cases) simp_all

lemma GetChildKey_first:
  "rep h t \<Longrightarrow> inorder t = Ent a e # xs \<Longrightarrow> spine t < fuel \<Longrightarrow> GetChildKey fuel h (addr_of t) = Inr (fst e)"
proof (induction t arbitrary: fuel xs rule: spine.induct)
  case (1 b es)
  then show ?case by (cases fuel; cases es) auto
next
  case (3 b ks t ts)
  obtain f where f: "fuel = Suc f" using 3(4) by (cases fuel) auto
  obtain ys where "inorder t = Ent a e # ys"
    using 3(3) weaveR_not_Ent [of ks "map inorder ts" a e] by (cases "inorder t") auto
  with 3 f show ?case by simp
qed simp

section \<open>Updating separators\<close>

lemma list_update_last: "kl \<noteq> [] \<Longrightarrow> (kl @ kr)[length kl - 1 := k] = butlast kl @ k # kr"
  by (cases kl rule: rev_cases) (auto simp: list_update_append)

lemma SetKey_zrep:
  assumes "zrep T (gs @ Frame a kl tsl kr tsr # hs) t" "length kl = length tsl" "tsl \<noteq> []"
    and first: "inorder (plug gs t) = Ent b e # xs"
  shows "\<exists>h. SetKey T a (length tsl) = Inr (T\<lparr>heap := h\<rparr>) \<and>
    zrep (T\<lparr>heap := h\<rparr>) (gs @ Frame a (butlast kl @ [fst e]) tsl kr tsr # hs) t"
proof -
  let ?t = "plug gs t"
  have z: "zrep T (Frame a kl tsl kr tsr # hs) ?t" using assms(1) by (simp add: zrep_append)
  note zd = zrepD [OF z]
  let ?n = "Branch (butlast kl @ fst e # kr) (map addr_of tsl @ addr_of ?t # map addr_of tsr)"
  let ?h = "(heap T)(a \<mapsto> ?n)"
  have "spine ?t < nextAddr T" using zd(4,5) by (intro spine_less) simp_all
  then have key: "GetChildKey (nextAddr T) (heap T) (addr_of ?t) = Inr (fst e)"
    using GetChildKey_first [OF zd(1) first] by blast
  have a: "heap T a = Some (Branch (kl @ kr) (map addr_of tsl @ addr_of ?t # map addr_of tsr))"
    using zd(2) by simp
  have "length kl - 1 < length (kl @ kr)" "kl \<noteq> []" using assms(2,3) by (cases kl; simp)+
  moreover have "child (map addr_of tsl @ addr_of ?t # map addr_of tsr) (length tsl) = Inr (addr_of ?t)"
    using child_append_length [of "map addr_of tsl"] by simp
  ultimately have "SetKey T a (length tsl) = Inr (T\<lparr>heap := ?h\<rparr>)"
    using a key list_update_last [of kl kr "fst e"] assms(2) by (simp add: SetKey_def store_def)
  moreover have "zrep (T\<lparr>heap := ?h\<rparr>) (Frame a (butlast kl @ [fst e]) tsl kr tsr # hs) ?t"
  proof -
    have "a \<notin> set (ctx_addrs hs)" "\<forall>t\<in>set tsl \<union> set tsr. a \<notin> set (addrs t)" "a \<notin> set (addrs ?t)"
      using zd(4) by auto
    with zd show ?thesis by (auto simp: zrep_def)
  qed
  ultimately show ?thesis by (auto simp: zrep_append)
qed

text \<open>Frames in which one separator on the path has been set to the first key right of it.\<close>

definition refresh :: "('k, 'v) gtree \<Rightarrow> ('k, 'v) frame list \<Rightarrow> ('k, 'v) frame list \<Rightarrow> bool" where
  "refresh t fs fs' \<longleftrightarrow> fs' = fs \<or>
     (\<exists>gs a kl x tsl kr tsr hs b e xs. fs = gs @ Frame a (kl @ [x]) tsl kr tsr # hs \<and>
        length tsl = Suc (length kl) \<and> inorder (plug gs t) = Ent b e # xs \<and>
        fs' = gs @ Frame a (kl @ [fst e]) tsl kr tsr # hs)"

lemma refresh_refl [simp]: "refresh t fs fs"
  by (simp add: refresh_def)

lemma refresh_last:
  assumes "length kl = length tsl" "tsl \<noteq> []" "inorder (plug gs t) = Ent b e # xs"
  shows "refresh t (gs @ Frame a kl tsl kr tsr # hs) (gs @ Frame a (butlast kl @ [fst e]) tsl kr tsr # hs)"
proof -
  obtain kl0 x where kl: "kl = kl0 @ [x]" using assms by (cases kl rule: rev_cases) auto
  have "length tsl = Suc (length kl0)" "butlast kl = kl0" using assms(1) kl by simp_all
  with assms(3) show ?thesis unfolding refresh_def kl by (intro disjI2) (rule exI, rule exI, blast)
qed

lemma ctx_shape_append:
  "ctx_shape cap D d (gs @ Frame a kl tsl kr tsr # hs) \<Longrightarrow> length kl' = length kl \<Longrightarrow>
   ctx_shape cap D d (gs @ Frame a kl' tsl kr tsr # hs)"
  by (induction cap D d gs rule: ctx_shape.induct) auto

lemma weaveL_snoc:
  "length ts = Suc (length kl) \<Longrightarrow> weaveL (kl @ [x]) ts = weave kl ts @ [Sep x]"
proof -
  assume "length ts = Suc (length kl)"
  then obtain us u where "ts = us @ [u]" "length us = length kl" by (cases ts rule: rev_cases) auto
  then show ?thesis using weave_split [of kl us "[]" u "[]"] by simp
qed

lemma refresh_simps:
  assumes "refresh t fs fs'"
  shows "path_of fs' = path_of fs" "length fs' = length fs" "fs' = [] \<longleftrightarrow> fs = []"
    "ctx_shape cap D d fs \<Longrightarrow> ctx_shape cap D d fs'"
    "locs (lefts fs') = locs (lefts fs)" "rights fs' = rights fs"
  using assms by (auto simp: refresh_def weaveL_snoc intro: ctx_shape_append)

context scalar_order
begin

lemma refresh_ordered:
  assumes "refresh t fs fs'" "frames_ok fs" "ordered ty K (lefts fs @ inorder t @ rights fs)"
  shows "ordered ty K (lefts fs' @ inorder t @ rights fs')"
proof -
  have "?thesis" if "fs = gs @ Frame a (kl @ [x]) tsl kr tsr # hs" "length tsl = Suc (length kl)"
    "inorder (plug gs t) = Ent b e # xs" "fs' = gs @ Frame a (kl @ [fst e]) tsl kr tsr # hs"
    for gs a kl x tsl kr tsr hs b e xs
  proof -
    have first: "lefts gs @ inorder t @ rights gs = Ent b e # xs"
      using that(1,3) assms(2) by (simp add: inorder_plug)
    have "lefts (gs @ Frame a (kl @ [y]) tsl kr tsr # hs) @ inorder t @ rights (gs @ Frame a (kl @ [y]) tsl kr tsr # hs)
      = (lefts hs @ weave kl (map inorder tsl)) @ Sep y # (lefts gs @ inorder t @ rights gs) @
          weaveR kr (map inorder tsr) @ rights hs" for y
      using weaveL_snoc [of "map inorder tsl" kl y] that(2) by simp
    then have cut: "lefts (gs @ Frame a (kl @ [y]) tsl kr tsr # hs) @ inorder t @ rights (gs @ Frame a (kl @ [y]) tsl kr tsr # hs)
      = (lefts hs @ weave kl (map inorder tsl)) @ Sep y # Ent b e # xs @ weaveR kr (map inorder tsr) @ rights hs" for y
      unfolding first by simp
    show ?thesis using assms(3) unfolding that(1,4) cut by (rule ordered_reseparate)
  qed
  with assms show ?thesis unfolding refresh_def by blast
qed

end

text \<open>The recorded path of a focus: the frames from the root down, and possibly more below.\<close>

definition on_path :: "PathNode list \<Rightarrow> ('k, 'v) frame list \<Rightarrow> bool" where
  "on_path brs fs \<longleftrightarrow> (\<exists>more. brs = rev (path_of fs) @ more)"

lemma on_path_append: "on_path brs (gs @ hs) \<Longrightarrow> on_path brs hs"
  by (auto simp: on_path_def)

lemma length_path_of [simp]: "length (path_of fs) = length fs"
  by (induction fs rule: path_of.induct) simp_all

lemma path_at_frame:
  assumes "on_path brs (gs @ Frame a kl tsl kr tsr # hs)"
  shows "path_at brs (length hs) = Inr (a, length tsl)"
proof -
  obtain more where "brs = rev (path_of (Frame a kl tsl kr tsr # hs)) @ more"
    using on_path_append [OF assms] by (auto simp: on_path_def)
  then show ?thesis by (simp add: path_at_def nth_append)
qed

lemma UpdateKey_index:
  assumes "depth < length brs" "index \<noteq> 0"
  shows "UpdateKey depth T p index brs = SetKey T p index"
  using assms by (cases depth) (simp_all add: path_at_def)

lemma UpdateKey_set:
  assumes "zrep T (gs @ Frame a kl tsl kr tsr # hs) t" "length kl = length tsl" "tsl \<noteq> []"
    and "inorder (plug gs t) = Ent b e # xs" "m < length brs"
  shows "\<exists>h fs'. UpdateKey m T a (length tsl) brs = Inr (T\<lparr>heap := h\<rparr>) \<and>
    zrep (T\<lparr>heap := h\<rparr>) fs' t \<and> refresh t (gs @ Frame a kl tsl kr tsr # hs) fs'"
proof -
  obtain h where h: "SetKey T a (length tsl) = Inr (T\<lparr>heap := h\<rparr>)"
    "zrep (T\<lparr>heap := h\<rparr>) (gs @ Frame a (butlast kl @ [fst e]) tsl kr tsr # hs) t"
    using SetKey_zrep [OF assms(1-4)] by blast
  have "UpdateKey m T a (length tsl) brs = SetKey T a (length tsl)"
    using assms(3,5) by (intro UpdateKey_index) simp_all
  with h refresh_last [OF assms(2-4)] show ?thesis by metis
qed

text \<open>
  An update that starts on a node of the path with the index the path has there. The call
  above the first has the depth of the node's parent.
\<close>

lemma UpdateKey_above:
  assumes "zrep T (gs @ Frame a kl tsl kr tsr # hs) t" "frames_ok (gs @ Frame a kl tsl kr tsr # hs)"
    and "on_path brs (gs @ Frame a kl tsl kr tsr # hs)" "length hs = Suc m"
    and "inorder t = Ent b e # xs" "\<forall>f\<in>set gs. \<exists>a kr tsr. f = Frame a [] [] kr tsr"
  shows "\<exists>h fs'. UpdateKey m T a (length tsl) brs = Inr (T\<lparr>heap := h\<rparr>) \<and>
    zrep (T\<lparr>heap := h\<rparr>) fs' t \<and> refresh t (gs @ Frame a kl tsl kr tsr # hs) fs'"
  using assms
proof (induction hs arbitrary: gs a kl tsl kr tsr m)
  case (Cons f hs)
  obtain a' kl' tsl' kr' tsr' where f: "f = Frame a' kl' tsl' kr' tsr'" by (cases f)
  have m: "m = length hs" using Cons.prems(4) by simp
  have len: "length kl = length tsl" "frames_ok gs" using Cons.prems(2) by simp_all
  have first: "\<exists>b e xs. inorder (plug gs t) = Ent b e # xs"
  proof -
    have "lefts gs = []" using Cons.prems(6) by (induction gs rule: lefts.induct) auto
    with Cons.prems(5) len(2) show ?thesis by (simp add: inorder_plug)
  qed
  have at: "path_at brs m = Inr (a', length tsl')"
    using path_at_frame [of brs "gs @ [Frame a kl tsl kr tsr]" a' kl' tsl' kr' tsr' hs] Cons.prems(3) f m by simp
  then have mlen: "m < length brs" by (simp add: path_at_def split: if_splits)
  show ?case
  proof (cases "tsl = []")
    case False
    with first show ?thesis using UpdateKey_set [OF Cons.prems(1) len(1) False _ mlen] by blast
  next
    case True
    show ?thesis
    proof (cases m)
      case 0
      with at True Cons.prems(1) show ?thesis
        by (intro exI [of _ "heap T"] exI [of _ "gs @ Frame a kl tsl kr tsr # f # hs"]) simp
    next
      case (Suc m')
      have "\<forall>f\<in>set (gs @ [Frame a kl tsl kr tsr]). \<exists>a kr tsr. f = Frame a [] [] kr tsr"
        using Cons.prems(6) True len(1) by auto
      then have "\<exists>h fs'. UpdateKey m' T a' (length tsl') brs = Inr (T\<lparr>heap := h\<rparr>) \<and>
        zrep (T\<lparr>heap := h\<rparr>) fs' t \<and> refresh t ((gs @ [Frame a kl tsl kr tsr]) @ Frame a' kl' tsl' kr' tsr' # hs) fs'"
        using Cons.prems f m Suc by (intro Cons.IH) simp_all
      moreover have "UpdateKey m T a (length tsl) brs = UpdateKey m' T a' (length tsl') brs"
        using at Suc True by simp
      ultimately show ?thesis using f by simp
    qed
  qed
qed simp

lemma UpdateKey_path:
  assumes "zrep T (Frame a kl tsl kr tsr # hs) t" "frames_ok (Frame a kl tsl kr tsr # hs)"
    and "on_path brs (Frame a kl tsl kr tsr # hs)" "inorder t = Ent b e # xs"
  shows "\<exists>h fs'. UpdateKey (length hs) T a (length tsl) brs = Inr (T\<lparr>heap := h\<rparr>) \<and>
    zrep (T\<lparr>heap := h\<rparr>) fs' t \<and> refresh t (Frame a kl tsl kr tsr # hs) fs'"
proof -
  have at: "path_at brs (length hs) = Inr (a, length tsl)"
    using path_at_frame [of brs "[]" a kl tsl kr tsr hs] assms(3) by simp
  then have hlen: "length hs < length brs" by (simp add: path_at_def split: if_splits)
  show ?thesis
  proof (cases "tsl = []")
    case False
    then show ?thesis using UpdateKey_set [of T "[]" a kl tsl kr tsr hs t b e xs "length hs" brs] assms hlen by simp
  next
    case True
    show ?thesis
    proof (cases "length hs")
      case 0
      with at True assms(1) show ?thesis
        by (intro exI [of _ "heap T"] exI [of _ "Frame a kl tsl kr tsr # hs"]) simp
    next
      case (Suc m)
      then have "UpdateKey (length hs) T a (length tsl) brs = UpdateKey m T a (length tsl) brs"
        using at True by simp
      with UpdateKey_above [of T "[]" a kl tsl kr tsr hs t brs m b e xs] assms Suc show ?thesis by simp
    qed
  qed
qed

section \<open>Replacing and merging neighbours\<close>

lemma rep_cong: "\<forall>b\<in>set (addrs t). h' b = h b \<Longrightarrow> rep h' t \<longleftrightarrow> rep h t"
  by (induction t) auto

lemma rep_ctx_cong: "\<forall>b\<in>set (ctx_addrs fs). h' b = h b \<Longrightarrow> rep_ctx h' fs p \<longleftrightarrow> rep_ctx h fs p"
proof (induction h' fs p rule: rep_ctx.induct)
  case (2 h' a kl tsl kr tsr fs p)
  have "rep h' t \<longleftrightarrow> rep h t" if "t \<in> set tsl \<union> set tsr" for t
    using 2(2) that by (intro rep_cong) auto
  moreover have "rep_ctx h' fs a \<longleftrightarrow> rep_ctx h fs a" using 2 by simp
  ultimately show ?case using 2(2) by auto
qed simp

text \<open>Two neighbours are rewritten in place.\<close>

lemma zrep_siblings:
  assumes "zrep T hs (GBranch pp ks (tsl @ P # Q # tsr))"
    and "rep h P'" "rep h Q'" "addr_of P' = addr_of P" "addr_of Q' = addr_of Q"
    and "mset (addrs P' @ addrs Q') = mset (addrs P @ addrs Q)"
    and frame: "\<forall>b. b \<notin> set (addrs P) \<union> set (addrs Q) \<longrightarrow> h b = heap T b"
  shows "zrep (T\<lparr>heap := h\<rparr>) hs (GBranch pp ks (tsl @ P' # Q' # tsr))"
proof -
  note z = zrepD [OF assms(1)]
  have perm: "mset (addrs (GBranch pp ks (tsl @ P' # Q' # tsr)) @ ctx_addrs hs) =
      mset (addrs (GBranch pp ks (tsl @ P # Q # tsr)) @ ctx_addrs hs)"
    using assms(6) by simp
  have out: "h b = heap T b" if "b = pp \<or> b \<in> set (ctx_addrs hs) \<or> (\<exists>t\<in>set tsl \<union> set tsr. b \<in> set (addrs t))" for b
    using z(4) that by (intro frame [rule_format]) auto
  have "rep h t" if "t \<in> set tsl \<union> set tsr" for t
    using rep_cong [of t h "heap T"] out that z(1) by auto
  moreover have "rep_ctx h hs pp" using rep_ctx_cong [of hs h "heap T" pp] out z(2) by auto
  moreover have "h pp = heap T pp" using out by blast
  ultimately show ?thesis using z assms(2-5) perm_addrs [OF perm z(4,5)] by (auto simp: zrep_def)
qed

text \<open>Two neighbours become one, at the address of the left one.\<close>

lemma zrep_merge:
  assumes "zrep T hs (GBranch pp ks (tsl @ P # Q # tsr))"
    and "rep h M" "addr_of M = addr_of P" "h pp = Some (Branch ks' (map addr_of (tsl @ M # tsr)))"
    and "mset (addr_of Q # addrs M) = mset (addrs P @ addrs Q)"
    and frame: "\<forall>b. b \<notin> insert pp (set (addrs P) \<union> set (addrs Q)) \<longrightarrow> h b = heap T b"
  shows "zrep (T\<lparr>heap := h\<rparr>) hs (GBranch pp ks' (tsl @ M # tsr))"
proof -
  note z = zrepD [OF assms(1)]
  have perm: "mset (addr_of Q # addrs (GBranch pp ks' (tsl @ M # tsr)) @ ctx_addrs hs) =
      mset (addrs (GBranch pp ks (tsl @ P # Q # tsr)) @ ctx_addrs hs)"
    using assms(5) by (simp add: add_mset_commute)
  note d = perm_addrs [OF perm z(4,5)]
  have out: "h b = heap T b" if "b \<in> set (ctx_addrs hs) \<or> (\<exists>t\<in>set tsl \<union> set tsr. b \<in> set (addrs t))" for b
    using z(4) that by (intro frame [rule_format]) auto
  have "rep h t" if "t \<in> set tsl \<union> set tsr" for t
    using rep_cong [of t h "heap T"] out that z(1) by auto
  moreover have "rep_ctx h hs pp" using rep_ctx_cong [of hs h "heap T" pp] out z(2) by auto
  ultimately show ?thesis using z(3) assms(2-4) d by (auto simp: zrep_def)
qed

lemma BranchDelete_frame:
  assumes "heap T pp = Some (Branch (kl @ k # kr) (cl @ p # q # cr))" "length kl = length cl"
    and "Suc (length kl + length kr) < listCapacity T - 1"
  shows "BranchDelete T pp (length cl) = Inr (store T pp (Branch (kl @ kr) (cl @ p # cr)))"
proof -
  have "delete_at (Suc (length cl)) (cl @ p # q # cr) = cl @ p # cr"
    using delete_at_append_length [of "cl @ [p]" q cr] by simp
  moreover have "delete_at (length cl) (kl @ k # kr) = kl @ kr"
    using delete_at_append_length [of kl k kr] assms(2) by simp
  ultimately show ?thesis using assms by (simp add: BranchDelete_def)
qed

lemma child_append_Suc [simp]: "child (xs @ y # z # zs) (Suc (length xs)) = Inr z"
  by (simp add: child_def)

text \<open>What follows a merge with the right sibling.\<close>

lemma merge_update:
  assumes "zrep T (Frame pp kl tsl kr tsr # hs) M" "frames_ok (Frame pp kl tsl kr tsr # hs)"
    and "on_path brs (Frame pp kl tsl kr tsr # hs)" "inorder M = Ent b e # xs"
  shows "\<exists>h fs'. (if length tsl = 0 then UpdateKey (length hs) T pp 0 brs else Inr T) = Inr (T\<lparr>heap := h\<rparr>) \<and>
    zrep (T\<lparr>heap := h\<rparr>) fs' M \<and> refresh M (Frame pp kl tsl kr tsr # hs) fs'"
proof (cases "length tsl = 0")
  case True
  then show ?thesis using UpdateKey_path [OF assms] by simp
next
  case False
  with assms(1) show ?thesis
    by (intro exI [of _ "heap T"] exI [of _ "Frame pp kl tsl kr tsr # hs"]) simp
qed

section \<open>The repairs of a branch\<close>

lemma distinct_concat_mem: "distinct (concat (map f ts)) \<Longrightarrow> t \<in> set ts \<Longrightarrow> distinct (f t)"
  by (induction ts) auto

text \<open>The nodes two neighbouring branches consist of.\<close>

lemma sibling_branches:
  assumes "zrep T hs (GBranch pp pks (tsl @ GBranch p ks ts # GBranch q rks rts # tsr))"
  shows "heap T p = Some (Branch ks (map addr_of ts))" "heap T q = Some (Branch rks (map addr_of rts))"
    "heap T pp = Some (Branch pks (map addr_of tsl @ p # q # map addr_of tsr))"
    "\<forall>t\<in>set ts \<union> set rts. rep (heap T) t" "p \<noteq> q" "p \<noteq> pp" "q \<noteq> pp"
    "\<forall>t\<in>set ts \<union> set rts. p \<notin> set (addrs t) \<and> q \<notin> set (addrs t) \<and> pp \<notin> set (addrs t)"
    "\<forall>t\<in>set ts \<union> set rts. spine t < nextAddr T"
proof -
  note z = zrepD [OF assms]
  show "heap T p = Some (Branch ks (map addr_of ts))" "heap T q = Some (Branch rks (map addr_of rts))"
    "heap T pp = Some (Branch pks (map addr_of tsl @ p # q # map addr_of tsr))"
    "\<forall>t\<in>set ts \<union> set rts. rep (heap T) t"
    using z(1) by auto
  show "p \<noteq> q" "p \<noteq> pp" "q \<noteq> pp"
    "\<forall>t\<in>set ts \<union> set rts. p \<notin> set (addrs t) \<and> q \<notin> set (addrs t) \<and> pp \<notin> set (addrs t)"
    using z(4) by auto
  have "distinct (addrs t) \<and> (\<forall>a\<in>set (addrs t). a < nextAddr T)" if "t \<in> set ts \<union> set rts" for t
  proof
    have "distinct (concat (map addrs ts))" "distinct (concat (map addrs rts))" using z(4) by simp_all
    with that show "distinct (addrs t)"
      using distinct_concat_mem [of addrs ts t] distinct_concat_mem [of addrs rts t] by blast
    show "\<forall>a\<in>set (addrs t). a < nextAddr T" using that z(5) by auto
  qed
  then show "\<forall>t\<in>set ts \<union> set rts. spine t < nextAddr T" by (simp add: spine_less)
qed

lemma BranchBorrowRight_ok:
  assumes "zrep T hs (GBranch pp (kl @ k0 # kr) (tsl @ GBranch p ks ts # GBranch q (rk # rks) (c0 # c1 # rts) # tsr))"
    and "length kl = length tsl" "length hs < length brs"
    and "inorder c0 = Ent b0 e0 # xs0" "inorder c1 = Ent b1 e1 # xs1"
  shows "\<exists>h. BranchBorrowRight (length hs) T p q pp (length tsl) brs = Inr (T\<lparr>heap := h\<rparr>) \<and>
    zrep (T\<lparr>heap := h\<rparr>) hs (GBranch pp (kl @ fst e1 # kr)
      (tsl @ GBranch p (ks @ [fst e0]) (ts @ [c0]) # GBranch q rks (c1 # rts) # tsr))"
proof -
  note n = sibling_branches [OF assms(1)]
  let ?P = "GBranch p (ks @ [fst e0]) (ts @ [c0])" and ?Q = "GBranch q rks (c1 # rts)"
  let ?h = "(heap T)(p \<mapsto> Branch (ks @ [fst e0]) (map addr_of (ts @ [c0])), q \<mapsto> Branch rks (map addr_of (c1 # rts)))"
  have "zrep (T\<lparr>heap := ?h\<rparr>) hs (GBranch pp (kl @ k0 # kr) (tsl @ ?P # ?Q # tsr))"
    using n by (intro zrep_siblings [OF assms(1)]) auto
  then have "zrep (T\<lparr>heap := ?h\<rparr>) ([] @ Frame pp (kl @ [k0]) (tsl @ [?P]) kr tsr # hs) ?Q"
    by (simp add: zrep_Cons)
  from SetKey_zrep [OF this, of b1 e1] obtain h where
    h: "SetKey (T\<lparr>heap := ?h\<rparr>) pp (length tsl + 1) = Inr (T\<lparr>heap := h\<rparr>)"
    "zrep (T\<lparr>heap := h\<rparr>) (Frame pp (kl @ [fst e1]) (tsl @ [?P]) kr tsr # hs) ?Q"
    using assms(2,5) by auto
  have "GetChildKey (nextAddr T) (heap T) (addr_of c0) = Inr (fst e0)"
    using n assms(4) by (intro GetChildKey_first) auto
  then have "BranchBorrowRight (length hs) T p q pp (length tsl) brs =
      UpdateKey (length hs) (T\<lparr>heap := ?h\<rparr>) pp (length tsl + 1) brs"
    using n(1,2) by (simp add: BranchBorrowRight_def store_def)
  also have "\<dots> = SetKey (T\<lparr>heap := ?h\<rparr>) pp (length tsl + 1)"
    using assms(3) by (intro UpdateKey_index) simp_all
  finally show ?thesis using h by (auto simp: zrep_Cons)
qed

lemma BranchMergeRight_ok:
  assumes "zrep T hs (GBranch pp (kl @ k0 # kr) (tsl @ GBranch p ks ts # GBranch q rks (c0 # rts) # tsr))"
    and "length kl = length tsl" "inorder c0 = Ent b0 e0 # xs0" "length kr = length tsr" "frames_ok hs"
    and "on_path brs (Frame pp kl tsl kr tsr # hs)"
    and "inorder (GBranch p (ks @ fst e0 # rks) (ts @ c0 # rts)) = Ent b e # xs"
    and "Suc (length kl + length kr) < listCapacity T - 1"
  shows "\<exists>h fs'. BranchMergeRight (length hs) T p q pp (length tsl) brs = Inr (T\<lparr>heap := h\<rparr>) \<and>
    zrep (T\<lparr>heap := h\<rparr>) fs' (GBranch p (ks @ fst e0 # rks) (ts @ c0 # rts)) \<and>
    refresh (GBranch p (ks @ fst e0 # rks) (ts @ c0 # rts)) (Frame pp kl tsl kr tsr # hs) fs'"
proof -
  note n = sibling_branches [OF assms(1)]
  let ?M = "GBranch p (ks @ fst e0 # rks) (ts @ c0 # rts)"
  let ?h1 = "(heap T)(p \<mapsto> Branch (ks @ fst e0 # rks) (map addr_of (ts @ c0 # rts)), q := None)"
  let ?h2 = "?h1(pp \<mapsto> Branch (kl @ kr) (map addr_of (tsl @ ?M # tsr)))"
  have "BranchDelete (T\<lparr>heap := ?h1\<rparr>) pp (length tsl) = Inr (T\<lparr>heap := ?h2\<rparr>)"
    using BranchDelete_frame [of "T\<lparr>heap := ?h1\<rparr>" pp kl k0 kr "map addr_of tsl" p q "map addr_of tsr"]
      n(3,6,7) assms(2,8) by (simp add: store_def)
  moreover have "GetChildKey (nextAddr T) (heap T) (addr_of c0) = Inr (fst e0)"
    using n assms(3) by (intro GetChildKey_first) auto
  ultimately have run: "BranchMergeRight (length hs) T p q pp (length tsl) brs =
      (if length tsl = 0 then UpdateKey (length hs) (T\<lparr>heap := ?h2\<rparr>) pp 0 brs else Inr (T\<lparr>heap := ?h2\<rparr>))"
    using n(1,2) by (simp add: BranchMergeRight_def store_def free_def)
  have "zrep (T\<lparr>heap := ?h2\<rparr>) hs (GBranch pp (kl @ kr) (tsl @ ?M # tsr))"
    using n by (intro zrep_merge [OF assms(1)]) auto
  then have "zrep (T\<lparr>heap := ?h2\<rparr>) (Frame pp kl tsl kr tsr # hs) ?M" by (simp add: zrep_Cons)
  from merge_update [OF this _ assms(6,7)] assms(2,4,5) show ?thesis unfolding run by auto
qed

section \<open>The repairs of a leaf\<close>

lemma sibling_leaves:
  assumes "zrep T hs (GBranch pp pks (tsl @ GLeaf p es # GLeaf q res # tsr))"
  shows "heap T p = Some (Leaf es)" "heap T q = Some (Leaf res)"
    "heap T pp = Some (Branch pks (map addr_of tsl @ p # q # map addr_of tsr))"
    "p \<noteq> q" "p \<noteq> pp" "q \<noteq> pp"
  using zrepD(1,4) [OF assms] by auto

lemma LeafBorrowRight_ok:
  assumes "zrep T hs (GBranch pp (kl @ k0 # kr) (tsl @ GLeaf p es # GLeaf q (e0 # e1 # res) # tsr))"
    and "length kl = length tsl" "length hs < length brs" "\<not> keyOnly T"
  shows "\<exists>h. LeafBorrowRight (length hs) T p q pp (length tsl) brs = Inr (T\<lparr>heap := h\<rparr>) \<and>
    zrep (T\<lparr>heap := h\<rparr>) hs (GBranch pp (kl @ fst e1 # kr)
      (tsl @ GLeaf p (es @ [e0]) # GLeaf q (e1 # res) # tsr))"
proof -
  note n = sibling_leaves [OF assms(1)]
  let ?P = "GLeaf p (es @ [e0])" and ?Q = "GLeaf q (e1 # res)"
  let ?h = "(heap T)(p \<mapsto> Leaf (es @ [e0]), q \<mapsto> Leaf (e1 # res))"
  have "zrep (T\<lparr>heap := ?h\<rparr>) hs (GBranch pp (kl @ k0 # kr) (tsl @ ?P # ?Q # tsr))"
    using n by (intro zrep_siblings [OF assms(1)]) auto
  then have "zrep (T\<lparr>heap := ?h\<rparr>) ([] @ Frame pp (kl @ [k0]) (tsl @ [?P]) kr tsr # hs) ?Q"
    by (simp add: zrep_Cons)
  from SetKey_zrep [OF this, of q e1] obtain h where
    h: "SetKey (T\<lparr>heap := ?h\<rparr>) pp (length tsl + 1) = Inr (T\<lparr>heap := h\<rparr>)"
    "zrep (T\<lparr>heap := h\<rparr>) (Frame pp (kl @ [fst e1]) (tsl @ [?P]) kr tsr # hs) ?Q"
    using assms(2) by auto
  have "LeafBorrowRight (length hs) T p q pp (length tsl) brs =
      UpdateKey (length hs) (T\<lparr>heap := ?h\<rparr>) pp (length tsl + 1) brs"
    using n(1,2) assms(4) by (simp add: LeafBorrowRight_def store_def)
  also have "\<dots> = SetKey (T\<lparr>heap := ?h\<rparr>) pp (length tsl + 1)"
    using assms(3) by (intro UpdateKey_index) simp_all
  finally show ?thesis using h by (auto simp: zrep_Cons)
qed

text \<open>In the left cases \<open>q\<close>, the leaf that lost an entry, is the right one of the two.\<close>

lemma LeafBorrowLeft_ok:
  assumes "zrep T hs (GBranch pp (kl @ k0 # kr) (tsl @ GLeaf p (les @ [e0]) # GLeaf q es # tsr))"
    and "length kl = length tsl" "length hs < length brs" "\<not> keyOnly T"
  shows "\<exists>h. LeafBorrowLeft (length hs) T q p pp (length tsl + 1) brs = Inr (T\<lparr>heap := h\<rparr>) \<and>
    zrep (T\<lparr>heap := h\<rparr>) hs (GBranch pp (kl @ fst e0 # kr) (tsl @ GLeaf p les # GLeaf q (e0 # es) # tsr))"
proof -
  note n = sibling_leaves [OF assms(1)]
  let ?P = "GLeaf p les" and ?Q = "GLeaf q (e0 # es)"
  let ?h = "(heap T)(q \<mapsto> Leaf (e0 # es), p \<mapsto> Leaf les)"
  have "zrep (T\<lparr>heap := ?h\<rparr>) hs (GBranch pp (kl @ k0 # kr) (tsl @ ?P # ?Q # tsr))"
    using n by (intro zrep_siblings [OF assms(1)]) auto
  then have "zrep (T\<lparr>heap := ?h\<rparr>) ([] @ Frame pp (kl @ [k0]) (tsl @ [?P]) kr tsr # hs) ?Q"
    by (simp add: zrep_Cons)
  from SetKey_zrep [OF this, of q e0] obtain h where
    h: "SetKey (T\<lparr>heap := ?h\<rparr>) pp (length tsl + 1) = Inr (T\<lparr>heap := h\<rparr>)"
    "zrep (T\<lparr>heap := h\<rparr>) (Frame pp (kl @ [fst e0]) (tsl @ [?P]) kr tsr # hs) ?Q"
    using assms(2) by auto
  have "LeafBorrowLeft (length hs) T q p pp (length tsl + 1) brs =
      UpdateKey (length hs) (T\<lparr>heap := ?h\<rparr>) pp (length tsl + 1) brs"
    using n(1,2) assms(4) by (simp add: LeafBorrowLeft_def store_def)
  also have "\<dots> = SetKey (T\<lparr>heap := ?h\<rparr>) pp (length tsl + 1)"
    using assms(3) by (intro UpdateKey_index) simp_all
  finally show ?thesis using h by (auto simp: zrep_Cons)
qed

lemma LeafMergeRight_ok:
  assumes "zrep T hs (GBranch pp (kl @ k0 # kr) (tsl @ GLeaf p es # GLeaf q res # tsr))"
    and "length kl = length tsl" "length kr = length tsr" "frames_ok hs" "\<not> keyOnly T" "es @ res \<noteq> []"
    and "on_path brs (Frame pp kl tsl kr tsr # hs)" "Suc (length kl + length kr) < listCapacity T - 1"
  shows "\<exists>h fs'. LeafMergeRight (length hs) T p q pp (length tsl) brs = Inr (T\<lparr>heap := h\<rparr>) \<and>
    zrep (T\<lparr>heap := h\<rparr>) fs' (GLeaf p (es @ res)) \<and>
    refresh (GLeaf p (es @ res)) (Frame pp kl tsl kr tsr # hs) fs'"
proof -
  note n = sibling_leaves [OF assms(1)]
  let ?M = "GLeaf p (es @ res)"
  let ?h1 = "(heap T)(p \<mapsto> Leaf (es @ res), q := None)"
  let ?h2 = "?h1(pp \<mapsto> Branch (kl @ kr) (map addr_of (tsl @ ?M # tsr)))"
  obtain e xs where e: "es @ res = e # xs" using assms(6) by (cases "es @ res") auto
  then have first: "inorder ?M = Ent p e # map (Ent p) xs" by simp
  have "BranchDelete (T\<lparr>heap := ?h1\<rparr>) pp (length tsl) = Inr (T\<lparr>heap := ?h2\<rparr>)"
    using BranchDelete_frame [of "T\<lparr>heap := ?h1\<rparr>" pp kl k0 kr "map addr_of tsl" p q "map addr_of tsr"]
      n(3,5,6) assms(2,8) by (simp add: store_def)
  then have run: "LeafMergeRight (length hs) T p q pp (length tsl) brs =
      (if length tsl = 0 then UpdateKey (length hs) (T\<lparr>heap := ?h2\<rparr>) pp 0 brs else Inr (T\<lparr>heap := ?h2\<rparr>))"
    using n(1,2) assms(5) by (simp add: LeafMergeRight_def store_def free_def)
  have "zrep (T\<lparr>heap := ?h2\<rparr>) hs (GBranch pp (kl @ kr) (tsl @ ?M # tsr))"
    using n by (intro zrep_merge [OF assms(1)]) auto
  then have "zrep (T\<lparr>heap := ?h2\<rparr>) (Frame pp kl tsl kr tsr # hs) ?M" by (simp add: zrep_Cons)
  from merge_update [OF this _ assms(7) first] assms(2,3,4) show ?thesis unfolding run by auto
qed

lemma LeafMergeLeft_ok:
  assumes "zrep T hs (GBranch pp (kl @ k0 # kr) (tsl @ GLeaf p les # GLeaf q es # tsr))"
    and "length kl = length tsl" "\<not> keyOnly T" "Suc (length kl + length kr) < listCapacity T - 1"
  shows "\<exists>h. LeafMergeLeft T q p pp (length tsl + 1) = Inr (T\<lparr>heap := h\<rparr>) \<and>
    zrep (T\<lparr>heap := h\<rparr>) hs (GBranch pp (kl @ kr) (tsl @ GLeaf p (les @ es) # tsr))"
proof -
  note n = sibling_leaves [OF assms(1)]
  let ?M = "GLeaf p (les @ es)"
  let ?h1 = "(heap T)(p \<mapsto> Leaf (les @ es), q := None)"
  let ?h2 = "?h1(pp \<mapsto> Branch (kl @ kr) (map addr_of (tsl @ ?M # tsr)))"
  have "BranchDelete (T\<lparr>heap := ?h1\<rparr>) pp (length tsl) = Inr (T\<lparr>heap := ?h2\<rparr>)"
    using BranchDelete_frame [of "T\<lparr>heap := ?h1\<rparr>" pp kl k0 kr "map addr_of tsl" p q "map addr_of tsr"]
      n(3,5,6) assms(2,4) by (simp add: store_def)
  then have "LeafMergeLeft T q p pp (length tsl + 1) = Inr (T\<lparr>heap := ?h2\<rparr>)"
    using n(1,2) assms(3) by (simp add: LeafMergeLeft_def store_def free_def)
  moreover have "zrep (T\<lparr>heap := ?h2\<rparr>) hs (GBranch pp (kl @ kr) (tsl @ ?M # tsr))"
    using n by (intro zrep_merge [OF assms(1)]) auto
  ultimately show ?thesis by blast
qed

section \<open>Rebalancing\<close>

lemma zrep_tree_core:
  assumes "zrep T fs t" "ctx_shape 64 D d fs" "focus_shape 64 fs d t" "listCapacity T = 64" "keyType T = ty"
    and "ordered ty K (lefts fs @ inorder t @ rights fs)"
  shows "tree_core ty K T D (plug fs t)"
  using zrepD [OF assms(1) [unfolded zrep_root [of T fs]]] rshape_plugI [OF assms(2,3)] assms(4-6)
    inorder_plug [OF ctx_shape_frames_ok [OF assms(2)]]
  by (simp add: tree_core_def capacity_ok_def del: distinct_addrs_plug set_addrs_plug)

text \<open>The result of a rebalancing: a correct tree with the entries \<open>E\<close>, under the root it returns.\<close>

definition repaired ::
  "'k ScalarType \<Rightarrow> 'k set \<Rightarrow> ('k, 'v) BTree \<Rightarrow> ('k \<times> 'v option) list \<Rightarrow> ('k, 'v) BTree \<Rightarrow> addr option \<Rightarrow> bool"
where
  "repaired ty K T E T' res \<longleftrightarrow>
     (\<exists>h. T' = T\<lparr>heap := h\<rparr>) \<and>
     (\<exists>D t. tree_core ty K (case res of None \<Rightarrow> T' | Some r \<Rightarrow> T'\<lparr>root := r\<rparr>) D t \<and> ents (inorder t) = E)"

lemma repaired_None:
  "tree_core ty K (T\<lparr>heap := h\<rparr>) D t \<Longrightarrow> ents (inorder t) = E \<Longrightarrow> repaired ty K T E (T\<lparr>heap := h\<rparr>) None"
  by (auto simp: repaired_def)

lemma repaired_same: "tree_core ty K T D t \<Longrightarrow> ents (inorder t) = E \<Longrightarrow> repaired ty K T E T None"
  using repaired_None [where T = T and h = "heap T"] by simp

lemma repaired_heap: "repaired ty K (T\<lparr>heap := h\<rparr>) E T' res \<Longrightarrow> repaired ty K T E T' res"
  by (auto simp: repaired_def)

text \<open>The number of entries of a leaf, of children of a branch.\<close>

fun width :: "('k, 'v) gtree \<Rightarrow> nat" where
  "width (GLeaf a es) = length es"
| "width (GBranch a ks ts) = length ts"

lemma shape_width: "shape cap d t \<Longrightarrow> cap div 2 \<le> width t \<and> width t \<le> cap"
  by (cases t) (auto simp: shape_GLeaf shape_GBranch)

text \<open>
  A branch below the given frame can be repaired without its left sibling: it has a right
  sibling that can give a child, or the left sibling is not asked first and the parent, which
  loses a child in the merge, is not full. A leaf below the frame can be repaired: one of its
  siblings can give an entry, or the parent is not full.
\<close>

fun right_repair :: "('k, 'v) frame \<Rightarrow> bool" where
  "right_repair (Frame a kl tsl kr tsr) \<longleftrightarrow>
     tsr \<noteq> [] \<and> (32 < width (hd tsr) \<or> (tsl = [] \<or> width (last tsl) \<le> 32) \<and> Suc (length tsl + length tsr) < 64)"

fun leaf_repair :: "('k, 'v) frame \<Rightarrow> bool" where
  "leaf_repair (Frame a kl tsl kr tsr) \<longleftrightarrow>
     tsr \<noteq> [] \<and> 32 < width (hd tsr) \<or> tsl \<noteq> [] \<and> 32 < width (last tsl) \<or> Suc (length tsl + length tsr) < 64"

fun repairable :: "('k, 'v) frame list \<Rightarrow> bool" where
  "repairable (Frame a kl tsl kr tsr # f # fs) \<longleftrightarrow>
     33 \<le> Suc (length tsl + length tsr) \<or> (right_repair f \<and> repairable (f # fs))"
| "repairable [] \<longleftrightarrow> True"
| "repairable [f] \<longleftrightarrow> True"

lemma repairable_keys:
  "repairable (gs @ Frame a kl tsl kr tsr # hs) \<longleftrightarrow> repairable (gs @ Frame a kl' tsl kr' tsr # hs)"
proof (induction gs)
  case Nil
  show ?case by (cases hs) auto
next
  case (Cons g gs)
  obtain b l tl' r tr' where g: "g = Frame b l tl' r tr'" by (cases g)
  show ?case
  proof (cases gs)
    case Nil
    with Cons g show ?thesis by simp
  next
    case (Cons g' gs')
    with Cons.IH g show ?thesis by simp
  qed
qed

lemma refresh_repairable: "refresh t fs fs' \<Longrightarrow> repairable fs' \<longleftrightarrow> repairable fs"
  unfolding refresh_def using repairable_keys by blast

lemma refresh_right_repair: "refresh t fs fs' \<Longrightarrow> fs \<noteq> [] \<Longrightarrow> right_repair (hd fs') \<longleftrightarrow> right_repair (hd fs)"
  unfolding refresh_def by (auto simp: hd_append)

lemma refresh_leaf_repair: "refresh t fs fs' \<Longrightarrow> fs \<noteq> [] \<Longrightarrow> leaf_repair (hd fs') \<longleftrightarrow> leaf_repair (hd fs)"
  unfolding refresh_def by (auto simp: hd_append)

lemma refresh_tail:
  assumes "refresh t (Frame a kl tsl kr tsr # hs) (f # hs')"
  shows "refresh (GBranch a (kl @ kr) (tsl @ t # tsr)) hs hs'"
proof -
  consider "hs' = hs" | gs b l x tl' r tr' ks c e xs where
    "Frame a kl tsl kr tsr # hs = gs @ Frame b (l @ [x]) tl' r tr' # ks" "length tl' = Suc (length l)"
    "inorder (plug gs t) = Ent c e # xs" "f # hs' = gs @ Frame b (l @ [fst e]) tl' r tr' # ks"
    using assms unfolding refresh_def by blast
  then show ?thesis
  proof cases
    case 1
    then show ?thesis by simp
  next
    case 2
    then show ?thesis
    proof (cases gs)
      case Nil
      with 2 show ?thesis by simp
    next
      case (Cons g gs')
      with 2 have "hs = gs' @ Frame b (l @ [x]) tl' r tr' # ks"
        "inorder (plug gs' (GBranch a (kl @ kr) (tsl @ t # tsr))) = Ent c e # xs"
        "hs' = gs' @ Frame b (l @ [fst e]) tl' r tr' # ks" by auto
      with 2(2) show ?thesis unfolding refresh_def by blast
    qed
  qed
qed

lemma refresh_Cons:
  assumes "refresh t (Frame a kl tsl kr tsr # hs) fs'"
  shows "\<exists>kl' kr' hs'. fs' = Frame a kl' tsl kr' tsr # hs' \<and> length kl' = length kl \<and> length kr' = length kr"
  using assms unfolding refresh_def by (auto simp: Cons_eq_append_conv append_eq_Cons_conv)

context scalar_order
begin

lemma ordered_borrow:
  assumes "ordered ty K (xs @ Sep k # (Ent b0 e0 # x0) @ Sep k' # (Ent b1 e1 # x1) @ ys)"
  shows "ordered ty K (xs @ Sep (fst e0) # (Ent b0 e0 # x0) @ Sep (fst e1) # (Ent b1 e1 # x1) @ ys)"
proof -
  have "ordered ty K ((xs @ Sep k # Ent b0 e0 # x0) @ Sep (fst e1) # Ent b1 e1 # x1 @ ys)"
    using assms by (intro ordered_reseparate [where k = k']) simp
  then have "ordered ty K (xs @ Sep (fst e0) # Ent b0 e0 # x0 @ Sep (fst e1) # Ent b1 e1 # x1 @ ys)"
    by (intro ordered_reseparate [where k = k]) simp
  then show ?thesis by simp
qed

end

lemma shape_BranchE:
  assumes "shape cap (Suc d) t"
  obtains a ks ts where "t = GBranch a ks ts" "length ts = Suc (length ks)" "cap div 2 \<le> length ts"
    "length ts \<le> cap" "\<forall>t\<in>set ts. shape cap d t"
  using assms by (cases t) (auto simp: shape_GBranch)

lemma shape_LeafE:
  assumes "shape cap 0 t"
  obtains a es where "t = GLeaf a es" "cap div 2 \<le> length es" "length es \<le> cap"
  using assms by (cases t) (auto simp: shape_GLeaf)

lemma shape_rshape: "shape 64 d t \<Longrightarrow> rshape 64 d t"
  by (cases t; cases d) auto

lemma shape_first: "shape 64 d t \<Longrightarrow> \<exists>a e xs. inorder t = Ent a e # xs"
proof (induction t arbitrary: d)
  case (GLeaf a es)
  then show ?case by (cases es) (auto simp: shape_GLeaf)
next
  case (GBranch a ks ts)
  then obtain t ts' d' where "ts = t # ts'" "shape 64 d' t" by (cases ts) (auto simp: shape_GBranch)
  with GBranch.IH [of t d'] show ?case by auto
qed

subsection \<open>Which repair runs\<close>

lemma left_sibling_frame:
  "left_sibling (cl @ p # cr) (length cl) = Inr (if cl = [] then None else Some (last cl))"
  by (cases cl rule: rev_cases) (auto simp: left_sibling_def child_def nth_append)

lemma right_sibling_frame:
  "length kl = length cl \<Longrightarrow>
   right_sibling (kl @ kr) (cl @ p # cr) (length cl) =
     (case kr of [] \<Rightarrow> Inr None | k # _ \<Rightarrow> bindE (child cr 0) (\<lambda>q. Inr (Some q)))"
  by (cases kr) (auto simp: right_sibling_def child_def nth_append)

lemma sib_test_simps [simp]:
  "sib_test h None P = Inr False"
  "h q = Some n \<Longrightarrow> sib_test h (Some q) P = Inr (P (node_count n))"
  by (simp_all add: sib_test_def)

lemma RebalanceBranch_enough:
  assumes "heap T p = Some (Branch ks cs)" "32 \<le> length ks + 1" "listCapacity T = 64"
  shows "RebalanceBranch (Suc d) T p brs = Inr (T, None)"
  using assms by simp

lemma RebalanceBranch_right:
  assumes "heap T p = Some (Branch ks cs)" "length ks = 30" "listCapacity T = 64"
    and "path_at brs d = Inr (pp, length cl)" "length kl = length cl"
    and "heap T pp = Some (Branch (kl @ k0 # kr) (cl @ p # q # cr))" "heap T q = Some n"
  shows "32 < node_count n + 1 \<Longrightarrow> RebalanceBranch (Suc d) T p brs =
      bindE (BranchBorrowRight d T p q pp (length cl) brs) (\<lambda>T'. Inr (T', None))"
    and "node_count n + 1 = 32 \<Longrightarrow> cl = [] \<or> (\<exists>n'. heap T (last cl) = Some n' \<and> node_count n' + 1 \<le> 32) \<Longrightarrow>
      RebalanceBranch (Suc d) T p brs =
      bindE (BranchMergeRight d T p q pp (length cl) brs) (\<lambda>T'. RebalanceBranch d T' pp brs)"
  using assms left_sibling_frame [of cl p "q # cr"] right_sibling_frame [OF assms(5), of "k0 # kr" p "q # cr"]
  by auto

context scalar_order
begin

text \<open>A tree whose focus branch, at height \<open>Suc d\<close>, may have lost a child.\<close>

definition short_branch ::
  "('k, 'v) BTree \<Rightarrow> nat \<Rightarrow> nat \<Rightarrow> ('k, 'v) frame list \<Rightarrow> addr \<Rightarrow> 'k list \<Rightarrow> ('k, 'v) gtree list \<Rightarrow> bool"
where
  "short_branch T D d fs p ks ts \<longleftrightarrow>
     zrep T fs (GBranch p ks ts) \<and> ctx_shape 64 D (Suc d) fs \<and> listCapacity T = 64 \<and> keyType T = ty \<and>
     (\<forall>t\<in>set ts. shape 64 d t) \<and> length ts = Suc (length ks) \<and> length ts \<le> 64 \<and>
     (fs \<noteq> [] \<longrightarrow> 31 \<le> length ts) \<and>
     (fs \<noteq> [] \<and> length ts = 31 \<longrightarrow> right_repair (hd fs) \<and> repairable fs) \<and>
     ordered ty K (lefts fs @ inorder (GBranch p ks ts) @ rights fs)"

lemma short_branchD:
  assumes "short_branch T D d fs p ks ts"
  shows "zrep T fs (GBranch p ks ts)" "ctx_shape 64 D (Suc d) fs" "listCapacity T = 64" "keyType T = ty"
    "\<forall>t\<in>set ts. shape 64 d t" "length ts = Suc (length ks)" "length ts \<le> 64" "fs \<noteq> [] \<Longrightarrow> 31 \<le> length ts"
    "fs \<noteq> [] \<Longrightarrow> length ts = 31 \<Longrightarrow> right_repair (hd fs)" "fs \<noteq> [] \<Longrightarrow> length ts = 31 \<Longrightarrow> repairable fs"
    "ordered ty K (lefts fs @ inorder (GBranch p ks ts) @ rights fs)"
  using assms by (simp_all add: short_branch_def)

lemma short_branch_ok:
  assumes "short_branch T D d fs p ks ts" "if fs = [] then 2 \<le> length ts else 32 \<le> length ts"
  shows "tree_core ty K T D (plug fs (GBranch p ks ts))"
    "ents (inorder (plug fs (GBranch p ks ts))) = ents (lefts fs @ inorder (GBranch p ks ts) @ rights fs)"
proof -
  note s = short_branchD [OF assms(1)]
  have "focus_shape 64 fs (Suc d) (GBranch p ks ts)" using s(5-7) assms(2) by (auto simp: focus_shape_def)
  then show "tree_core ty K T D (plug fs (GBranch p ks ts))"
    using zrep_tree_core [OF s(1,2) _ s(3,4,11)] by simp
  show "ents (inorder (plug fs (GBranch p ks ts))) = ents (lefts fs @ inorder (GBranch p ks ts) @ rights fs)"
    by (simp add: inorder_plug [OF ctx_shape_frames_ok [OF s(2)]])
qed

lemma RebalanceBranch_root:
  assumes "short_branch T D d [] p ks ts"
  shows "\<exists>T' res. RebalanceBranch 0 T p brs = Inr (T', res) \<and>
    repaired ty K T (ents (inorder (GBranch p ks ts))) T' res"
proof (cases ks)
  case Nil
  note s = short_branchD [OF assms]
  obtain c where c: "ts = [c]" using s(6) Nil by (cases ts) auto
  have h: "heap T p = Some (Branch [] [addr_of c])" and np: "p \<notin> set (addrs c)"
    using zrepD [OF s(1)] Nil c by auto
  have "tree_core ty K ((free T p)\<lparr>root := addr_of c\<rparr>) d c"
    using zrepD [OF s(1)] s(3,4,5,11) c Nil np shape_rshape [of d c]
    by (auto simp: tree_core_def capacity_ok_def)
  then have "repaired ty K T (ents (inorder (GBranch p ks ts))) (free T p) (Some (addr_of c))"
    using c Nil by (auto simp: repaired_def free_def)
  with h show ?thesis by auto
next
  case (Cons k ks')
  note s = short_branchD [OF assms]
  have "tree_core ty K T D (GBranch p ks ts)"
    using short_branch_ok(1) [OF assms] s(6) Cons by simp
  then have "repaired ty K T (ents (inorder (GBranch p ks ts))) T None"
    by (rule repaired_same) simp
  moreover have "heap T p = Some (Branch ks (map addr_of ts))" using zrepD(1) [OF s(1)] by simp
  ultimately show ?thesis using Cons by auto
qed

text \<open>The two repairs of a branch with 31 children, under its parent frame.\<close>

lemma RebalanceBranch_borrow:
  assumes "short_branch T D d (Frame pp kl tsl (k0 # kr) (GBranch q rks rts # tsr) # hs) p ks ts"
    and "on_path brs (Frame pp kl tsl (k0 # kr) (GBranch q rks rts # tsr) # hs)"
    and "length ts = 31" "32 < length rts"
  shows "\<exists>T' res. RebalanceBranch (Suc (length hs)) T p brs = Inr (T', res) \<and>
    repaired ty K T (ents (lefts hs @ inorder (GBranch pp (kl @ k0 # kr)
      (tsl @ GBranch p ks ts # GBranch q rks rts # tsr)) @ rights hs)) T' res"
proof -
  let ?G = "Frame pp kl tsl (k0 # kr) (GBranch q rks rts # tsr)"
  note s = short_branchD [OF assms(1)]
  have c: "length kl = length tsl" "length kr = length tsr" "ctx_shape 64 D (Suc (Suc d)) hs"
    "length rts = Suc (length rks)" "length rts \<le> 64" "\<forall>t\<in>set rts. shape 64 d t"
    "\<forall>t\<in>set tsl \<union> set tsr. shape 64 (Suc d) t" "Suc (length tsl + Suc (length tsr)) \<le> 64"
    "(if hs = [] then 2 else 32) \<le> Suc (length tsl + Suc (length tsr))"
    using s(2) by auto
  obtain c0 c1 rts' rk rks' where r: "rts = c0 # c1 # rts'" "rks = rk # rks'" "length rts' = length rks'"
    using assms(4) c(4) by (cases rts; cases rks; cases "tl rts") auto
  obtain b0 e0 x0 b1 e1 x1 where f: "inorder c0 = Ent b0 e0 # x0" "inorder c1 = Ent b1 e1 # x1"
    using c(6) r(1) shape_first by (metis list.set_intros)
  have z: "zrep T hs (GBranch pp (kl @ k0 # kr) (tsl @ GBranch p ks ts # GBranch q rks rts # tsr))"
    using s(1) by (simp add: zrep_Cons)
  have at: "path_at brs (length hs) = Inr (pp, length tsl)"
    using path_at_frame [of brs "[]" pp kl tsl "k0 # kr" _ hs] assms(2) by simp
  then have hlen: "length hs < length brs" by (simp add: path_at_def split: if_splits)
  let ?P = "GBranch p (ks @ [fst e0]) (ts @ [c0])" and ?Q = "GBranch q rks' (c1 # rts')"
  obtain h where h: "BranchBorrowRight (length hs) T p q pp (length tsl) brs = Inr (T\<lparr>heap := h\<rparr>)"
    "zrep (T\<lparr>heap := h\<rparr>) hs (GBranch pp (kl @ fst e1 # kr) (tsl @ ?P # ?Q # tsr))"
    using BranchBorrowRight_ok [OF z [unfolded r] c(1) hlen f] by blast
  note n = sibling_branches [OF z]
  have run: "RebalanceBranch (Suc (length hs)) T p brs = Inr (T\<lparr>heap := h\<rparr>, None)"
    using RebalanceBranch_right(1) [of T p ks "map addr_of ts" brs "length hs" pp "map addr_of tsl" kl k0 kr q "map addr_of tsr"]
      n(1,2,3) s(3,6) assms(3,4) at c(1,4) h(1) by simp
  have seq: "inorder (GBranch pp (kl @ k0 # kr) (tsl @ GBranch p ks ts # GBranch q rks rts # tsr)) =
      (weaveL kl (map inorder tsl) @ weave ks (map inorder ts)) @ Sep k0 # (Ent b0 e0 # x0) @ Sep rk # (Ent b1 e1 # x1) @
        weaveR rks' (map inorder rts') @ weaveR kr (map inorder tsr)"
    using c(1) r f by simp
  have seq': "inorder (GBranch pp (kl @ fst e1 # kr) (tsl @ ?P # ?Q # tsr)) =
      (weaveL kl (map inorder tsl) @ weave ks (map inorder ts)) @ Sep (fst e0) # (Ent b0 e0 # x0) @ Sep (fst e1) # (Ent b1 e1 # x1) @
        weaveR rks' (map inorder rts') @ weaveR kr (map inorder tsr)"
    using c(1) f weave_cut [of "map inorder ts" ks "[inorder c0]" "fst e0" "[]"] s(6) by simp
  have tc: "tree_core ty K (T\<lparr>heap := h\<rparr>) D (plug hs (GBranch pp (kl @ fst e1 # kr) (tsl @ ?P # ?Q # tsr)))"
  proof (rule zrep_tree_core [OF h(2) c(3)])
    show "focus_shape 64 hs (Suc (Suc d)) (GBranch pp (kl @ fst e1 # kr) (tsl @ ?P # ?Q # tsr))"
      using c r assms(3,4) s(5,6) by (auto simp: focus_shape_def split: if_splits)
    have "ordered ty K (lefts hs @ inorder (GBranch pp (kl @ k0 # kr) (tsl @ GBranch p ks ts # GBranch q rks rts # tsr)) @ rights hs)"
      using s(11) c(1) by simp
    then show "ordered ty K (lefts hs @ inorder (GBranch pp (kl @ fst e1 # kr) (tsl @ ?P # ?Q # tsr)) @ rights hs)"
      using ordered_borrow [of "lefts hs @ weaveL kl (map inorder tsl) @ weave ks (map inorder ts)" k0 b0 e0 x0 rk b1 e1 x1
          "weaveR rks' (map inorder rts') @ weaveR kr (map inorder tsr) @ rights hs"]
      unfolding seq seq' by simp
  qed (use s in simp_all)
  have "repaired ty K T (ents (lefts hs @ inorder (GBranch pp (kl @ k0 # kr)
      (tsl @ GBranch p ks ts # GBranch q rks rts # tsr)) @ rights hs)) (T\<lparr>heap := h\<rparr>) None"
    by (rule repaired_None [OF tc], unfold inorder_plug [OF ctx_shape_frames_ok [OF c(3)]] seq seq') simp
  with run show ?thesis by blast
qed

text \<open>
  After a merge under the frame \<open>G\<close> (one child less, separators refreshed) the parent is a
  branch that may be short in its turn.
\<close>

lemma merged_parent:
  assumes z: "zrep T fs' M" and ref: "refresh M (Frame pp kl tsl kr tsr # hs) fs'"
    and T: "listCapacity T = 64" "keyType T = ty"
    and len: "length kl = length tsl" "length kr = length tsr"
    and sh: "\<forall>t\<in>set tsl \<union> set tsr. shape 64 d t" "shape 64 d M" "ctx_shape 64 D (Suc d) hs"
    and w: "Suc (length tsl + length tsr) \<le> 64" "hs \<noteq> [] \<Longrightarrow> 31 \<le> Suc (length tsl + length tsr)"
      "hs \<noteq> [] \<Longrightarrow> Suc (length tsl + length tsr) = 31 \<Longrightarrow> right_repair (hd hs) \<and> repairable hs"
    and ord: "ordered ty K (lefts (Frame pp kl tsl kr tsr # hs) @ inorder M @ rights (Frame pp kl tsl kr tsr # hs))"
    and path: "on_path brs (Frame pp kl tsl kr tsr # hs)"
  shows "\<exists>hs' pks. short_branch T D d hs' pp pks (tsl @ M # tsr) \<and> on_path brs hs' \<and> length hs' = length hs \<and>
    ents (lefts hs' @ inorder (GBranch pp pks (tsl @ M # tsr)) @ rights hs') =
      ents (lefts (Frame pp kl tsl kr tsr # hs) @ inorder M @ rights (Frame pp kl tsl kr tsr # hs))"
proof -
  let ?G = "Frame pp kl tsl kr tsr"
  have fo: "frames_ok (?G # hs)" using len ctx_shape_frames_ok [OF sh(3)] by simp
  obtain kl' kr' hs' where fs': "fs' = Frame pp kl' tsl kr' tsr # hs'" "length kl' = length kl" "length kr' = length kr"
    using refresh_Cons [OF ref] by blast
  have hs': "path_of hs' = path_of hs" "length hs' = length hs" "ctx_shape 64 D (Suc d) hs'" "repairable hs' = repairable hs"
    "hs \<noteq> [] \<Longrightarrow> right_repair (hd hs') = right_repair (hd hs)"
    using refresh_tail [OF ref [unfolded fs'(1)]] sh(3)
    by (simp_all add: refresh_simps refresh_repairable refresh_right_repair)
  have z': "zrep T hs' (GBranch pp (kl' @ kr') (tsl @ M # tsr))" using z fs' by (simp add: zrep_Cons)
  have seq: "inorder (GBranch pp (kl' @ kr') (tsl @ M # tsr)) =
      weaveL kl' (map inorder tsl) @ inorder M @ weaveR kr' (map inorder tsr)"
    using fs'(2) len by simp
  have "ordered ty K (lefts fs' @ inorder M @ rights fs')" by (rule refresh_ordered [OF ref fo ord])
  then have ord': "ordered ty K (lefts hs' @ inorder (GBranch pp (kl' @ kr') (tsl @ M # tsr)) @ rights hs')"
    unfolding seq using fs'(1) by simp
  have "hs' = [] \<longleftrightarrow> hs = []" using hs'(2) by auto
  then have "short_branch T D d hs' pp (kl' @ kr') (tsl @ M # tsr)"
    unfolding short_branch_def using z' hs'(3-5) T sh(1,2) w len fs'(2,3) ord' by auto
  moreover have "on_path brs hs'" using path hs'(1) by (auto simp: on_path_def)
  moreover have "ents (lefts hs' @ inorder (GBranch pp (kl' @ kr') (tsl @ M # tsr)) @ rights hs') =
      ents (lefts fs' @ inorder M @ rights fs')"
    unfolding seq fs'(1) by simp
  moreover have "\<dots> = ents (lefts (?G # hs) @ inorder M @ rights (?G # hs))"
    using refresh_simps(5,6) [OF ref] by (simp add: ents_def)
  ultimately show ?thesis using hs'(2) by metis
qed

lemma RebalanceBranch_merge:
  assumes "short_branch T D d (Frame pp kl tsl (k0 # kr) (GBranch q rks rts # tsr) # hs) p ks ts"
    and path: "on_path brs (Frame pp kl tsl (k0 # kr) (GBranch q rks rts # tsr) # hs)"
    and w: "length ts = 31" "length rts = 32" "tsl = [] \<or> width (last tsl) \<le> 32"
    and "repairable (Frame pp kl tsl (k0 # kr) (GBranch q rks rts # tsr) # hs)"
      "length tsl + length tsr + 2 < 64"
  shows "\<exists>h pks M hs'. RebalanceBranch (Suc (length hs)) T p brs = RebalanceBranch (length hs) (T\<lparr>heap := h\<rparr>) pp brs \<and>
    short_branch (T\<lparr>heap := h\<rparr>) D (Suc d) hs' pp pks (tsl @ M # tsr) \<and> on_path brs hs' \<and> length hs' = length hs \<and>
    ents (lefts hs' @ inorder (GBranch pp pks (tsl @ M # tsr)) @ rights hs') =
      ents (lefts hs @ inorder (GBranch pp (kl @ k0 # kr) (tsl @ GBranch p ks ts # GBranch q rks rts # tsr)) @ rights hs)"
proof -
  note s = short_branchD [OF assms(1)]
  have c: "length kl = length tsl" "length kr = length tsr" "ctx_shape 64 D (Suc (Suc d)) hs"
    "length rts = Suc (length rks)" "\<forall>t\<in>set rts. shape 64 d t"
    "\<forall>t\<in>set tsl \<union> set tsr. shape 64 (Suc d) t" "Suc (length tsl + Suc (length tsr)) \<le> 64"
    "(if hs = [] then 2 else 32) \<le> Suc (length tsl + Suc (length tsr))"
    using s(2) by auto
  obtain c0 rts' where r: "rts = c0 # rts'" "length rts' = length rks" using w(2) c(4) by (cases rts) auto
  obtain b0 e0 x0 where f: "inorder c0 = Ent b0 e0 # x0" using c(5) r(1) shape_first by (metis list.set_intros(1))
  let ?M = "GBranch p (ks @ fst e0 # rks) (ts @ c0 # rts')" and ?G = "Frame pp kl tsl kr tsr"
  have sM: "shape 64 (Suc d) ?M" using s(5,6) c(4,5) r w by auto
  obtain b e xs where first: "inorder ?M = Ent b e # xs" using shape_first [OF sM] by blast
  have z: "zrep T hs (GBranch pp (kl @ k0 # kr) (tsl @ GBranch p ks ts # GBranch q rks rts # tsr))"
    using s(1) by (simp add: zrep_Cons)
  have path': "on_path brs (?G # hs)" using path by (simp add: on_path_def)
  obtain h fs' where m: "BranchMergeRight (length hs) T p q pp (length tsl) brs = Inr (T\<lparr>heap := h\<rparr>)"
    "zrep (T\<lparr>heap := h\<rparr>) fs' ?M" "refresh ?M (?G # hs) fs'"
    using BranchMergeRight_ok [OF z [unfolded r] c(1) f c(2) ctx_shape_frames_ok [OF c(3)] path' first] assms(7) c(1,2) s(3) by auto
  have at: "path_at brs (length hs) = Inr (pp, length tsl)"
    using path_at_frame [of brs "[]" pp kl tsl kr tsr hs] path' by simp
  note n = sibling_branches [OF z]
  have left: "map addr_of tsl = [] \<or> (\<exists>n'. heap T (last (map addr_of tsl)) = Some n' \<and> node_count n' + 1 \<le> 32)"
  proof (cases "tsl = []")
    case False
    then have "shape 64 (Suc d) (last tsl)" "rep (heap T) (last tsl)" "width (last tsl) \<le> 32"
      using c(6) zrepD(1) [OF z] w(3) by auto
    with False show ?thesis by (elim shape_BranchE) (auto simp: last_map)
  qed simp
  have run: "RebalanceBranch (Suc (length hs)) T p brs = RebalanceBranch (length hs) (T\<lparr>heap := h\<rparr>) pp brs"
    using RebalanceBranch_right(2) [of T p ks "map addr_of ts" brs "length hs" pp "map addr_of tsl" kl k0 kr q "map addr_of tsr" "Branch rks (map addr_of rts)"]
      n(1,2,3) s(3,6) w at c(1,4) m(1) left by (simp del: RebalanceBranch.simps)
  have seq: "inorder (GBranch pp (kl @ k0 # kr) (tsl @ GBranch p ks ts # GBranch q rks rts # tsr)) =
      (weaveL kl (map inorder tsl) @ weave ks (map inorder ts)) @ Sep k0 # Ent b0 e0 # x0 @
        weaveR rks (map inorder rts') @ weaveR kr (map inorder tsr)"
    using c(1) r f by simp
  have seq': "inorder ?M = weave ks (map inorder ts) @ Sep (fst e0) # Ent b0 e0 # x0 @ weaveR rks (map inorder rts')"
    using f weave_cut [of "map inorder ts" ks "map inorder (c0 # rts')" "fst e0" rks] s(6) by simp
  have "ordered ty K (lefts hs @ inorder (GBranch pp (kl @ k0 # kr) (tsl @ GBranch p ks ts # GBranch q rks rts # tsr)) @ rights hs)"
    using s(11) c(1) by simp
  then have ord: "ordered ty K (lefts (?G # hs) @ inorder ?M @ rights (?G # hs))"
    using ordered_reseparate [of "lefts hs @ weaveL kl (map inorder tsl) @ weave ks (map inorder ts)" k0 b0 e0
        "x0 @ weaveR rks (map inorder rts') @ weaveR kr (map inorder tsr) @ rights hs"]
    unfolding seq seq' by simp
  have rp: "right_repair (hd hs) \<and> repairable hs" if "hs \<noteq> []" "Suc (length tsl + length tsr) = 31"
    using assms(6) that by (cases hs) auto
  obtain hs' pks where "short_branch (T\<lparr>heap := h\<rparr>) D (Suc d) hs' pp pks (tsl @ ?M # tsr)" "on_path brs hs'"
    "length hs' = length hs"
    "ents (lefts hs' @ inorder (GBranch pp pks (tsl @ ?M # tsr)) @ rights hs') =
      ents (lefts (?G # hs) @ inorder ?M @ rights (?G # hs))"
    using merged_parent [OF m(2,3) _ _ c(1,2,6) sM c(3) _ _ rp ord path'] s(3,4) c(7,8) by (auto split: if_splits)
  moreover have "ents (lefts (?G # hs) @ inorder ?M @ rights (?G # hs)) =
    ents (lefts hs @ inorder (GBranch pp (kl @ k0 # kr) (tsl @ GBranch p ks ts # GBranch q rks rts # tsr)) @ rights hs)"
    unfolding seq seq' by simp
  ultimately show ?thesis using run by metis
qed

lemma RebalanceBranch_ok:
  assumes "short_branch T D d fs p ks ts" "on_path brs fs"
  shows "\<exists>T' res. RebalanceBranch (length fs) T p brs = Inr (T', res) \<and>
    repaired ty K T (ents (lefts fs @ inorder (GBranch p ks ts) @ rights fs)) T' res"
  using assms
proof (induction "length fs" arbitrary: T d fs p ks ts)
  case 0
  then show ?case using RebalanceBranch_root [of T D d p ks ts brs] by simp
next
  case (Suc n)
  then obtain pp kl tsl kr tsr hs where fs: "fs = Frame pp kl tsl kr tsr # hs" "n = length hs"
    by (cases fs; cases "hd fs") auto
  note s = short_branchD [OF Suc.prems(1)]
  have c: "length kl = length tsl" "length kr = length tsr" "\<forall>t\<in>set tsl \<union> set tsr. shape 64 (Suc d) t"
    using s(2) fs by auto
  have ents: "ents (lefts fs @ inorder (GBranch p ks ts) @ rights fs) =
      ents (lefts hs @ inorder (GBranch pp (kl @ kr) (tsl @ GBranch p ks ts # tsr)) @ rights hs)"
    using fs c by simp
  show ?case
  proof (cases "32 \<le> length ts")
    case True
    have "heap T p = Some (Branch ks (map addr_of ts))" using zrepD(1) [OF s(1)] by simp
    then have "RebalanceBranch (length fs) T p brs = Inr (T, None)"
      using RebalanceBranch_enough [of T p ks "map addr_of ts"] True s(3,6) Suc.hyps(2) [symmetric]
      by (simp del: RebalanceBranch.simps)
    moreover have "repaired ty K T (ents (lefts fs @ inorder (GBranch p ks ts) @ rights fs)) T None"
      using short_branch_ok [OF Suc.prems(1)] True fs by (intro repaired_same) auto
    ultimately show ?thesis by blast
  next
    case False
    then have l31: "length ts = 31" using s(8) fs by simp
    have rr: "right_repair (Frame pp kl tsl kr tsr)" "repairable fs" using s(9,10) l31 fs by auto
    then obtain t tsr' k0 kr' where t: "tsr = t # tsr'" "kr = k0 # kr'" using c(2) by (cases tsr; cases kr) auto
    then have "shape 64 (Suc d) t" using c(3) by simp
    then obtain q rks rts where q: "t = GBranch q rks rts" "32 \<le> length rts" by (rule shape_BranchE) auto
    note sb = Suc.prems(1) [unfolded fs t q(1)] and op = Suc.prems(2) [unfolded fs t q(1)]
    show ?thesis
    proof (cases "32 < length rts")
      case True
      show ?thesis
        using RebalanceBranch_borrow [OF sb op l31 True] fs(2) Suc.hyps(2) [symmetric]
        unfolding ents t q(1) by (simp del: RebalanceBranch.simps)
    next
      case False
      with q(2) have r32: "length rts = 32" by simp
      have room: "tsl = [] \<or> width (last tsl) \<le> 32" "length tsl + length tsr' + 2 < 64" using rr(1) t q False by auto
      from RebalanceBranch_merge [OF sb op l31 r32 room(1) rr(2) [unfolded fs t q(1)] room(2)]
      obtain h pks M hs' where m: "RebalanceBranch (Suc (length hs)) T p brs = RebalanceBranch (length hs) (T\<lparr>heap := h\<rparr>) pp brs"
        "short_branch (T\<lparr>heap := h\<rparr>) D (Suc d) hs' pp pks (tsl @ M # tsr')" "on_path brs hs'" "length hs' = length hs"
        "ents (lefts hs' @ inorder (GBranch pp pks (tsl @ M # tsr')) @ rights hs') =
          ents (lefts hs @ inorder (GBranch pp (kl @ k0 # kr') (tsl @ GBranch p ks ts # GBranch q rks rts # tsr')) @ rights hs)"
        by blast
      have "\<exists>T' res. RebalanceBranch (length hs') (T\<lparr>heap := h\<rparr>) pp brs = Inr (T', res) \<and>
          repaired ty K (T\<lparr>heap := h\<rparr>) (ents (lefts hs' @ inorder (GBranch pp pks (tsl @ M # tsr')) @ rights hs')) T' res"
        using fs(2) m(4) by (intro Suc.hyps(1) [OF _ m(2,3)]) simp
      then obtain T' res where r: "RebalanceBranch (length hs') (T\<lparr>heap := h\<rparr>) pp brs = Inr (T', res)"
        "repaired ty K (T\<lparr>heap := h\<rparr>) (ents (lefts hs' @ inorder (GBranch pp pks (tsl @ M # tsr')) @ rights hs')) T' res"
        by blast
      have "RebalanceBranch (length fs) T p brs = Inr (T', res)"
        using m(1,4) r(1) fs(2) Suc.hyps(2) [symmetric] by (simp del: RebalanceBranch.simps)
      with repaired_heap [OF r(2)] show ?thesis unfolding m(5) ents t q(1) by blast
    qed
  qed
qed

end

section \<open>Rebalancing a leaf\<close>

lemma RebalanceLeaf_enough:
  assumes "heap T p = Some (Leaf es)" "32 \<le> length es" "listCapacity T = 64"
  shows "RebalanceLeaf depth T p brs = Inr (T, None)"
  using assms by (simp add: RebalanceLeaf_def)

lemma RebalanceLeaf_run:
  assumes "heap T p = Some (Leaf es)" "length es = 31" "listCapacity T = 64"
    and "path_at brs d = Inr (pp, length cl)" "length kl = length cl" "length kr = length cr"
    and "heap T pp = Some (Branch (kl @ kr) (cl @ p # cr))"
  shows "cr = q # cr' \<Longrightarrow> heap T q = Some n \<Longrightarrow> 32 < node_count n \<Longrightarrow>
      RebalanceLeaf (Suc d) T p brs = bindE (LeafBorrowRight d T p q pp (length cl) brs) (\<lambda>T'. Inr (T', None))"
    and "cr = [] \<or> (\<exists>n. heap T (hd cr) = Some n \<and> node_count n \<le> 32) \<Longrightarrow>
      cl = cl' @ [l] \<Longrightarrow> heap T l = Some n' \<Longrightarrow> 32 < node_count n' \<Longrightarrow>
      RebalanceLeaf (Suc d) T p brs = bindE (LeafBorrowLeft d T p l pp (length cl) brs) (\<lambda>T'. Inr (T', None))"
    and "cr = q # cr' \<Longrightarrow> heap T q = Some n \<Longrightarrow> node_count n \<le> 32 \<Longrightarrow>
      cl = [] \<or> (\<exists>n'. heap T (last cl) = Some n' \<and> node_count n' \<le> 32) \<Longrightarrow>
      RebalanceLeaf (Suc d) T p brs =
        bindE (LeafMergeRight d T p q pp (length cl) brs) (\<lambda>T'. RebalanceBranch d T' pp brs)"
    and "cr = [] \<Longrightarrow> cl = cl' @ [l] \<Longrightarrow> heap T l = Some n' \<Longrightarrow> node_count n' \<le> 32 \<Longrightarrow>
      RebalanceLeaf (Suc d) T p brs =
        bindE (LeafMergeLeft T p l pp (length cl)) (\<lambda>T'. RebalanceBranch d T' pp brs)"
proof -
  note sibs = left_sibling_frame [of cl p cr] right_sibling_frame [OF assms(5), of kr p cr]
  have kr: "kr = [] \<longleftrightarrow> cr = []" using assms(6) by auto
  show "cr = q # cr' \<Longrightarrow> heap T q = Some n \<Longrightarrow> 32 < node_count n \<Longrightarrow>
      RebalanceLeaf (Suc d) T p brs = bindE (LeafBorrowRight d T p q pp (length cl) brs) (\<lambda>T'. Inr (T', None))"
    using assms sibs kr by (cases kr) (auto simp: RebalanceLeaf_def)
  show "RebalanceLeaf (Suc d) T p brs = bindE (LeafBorrowLeft d T p l pp (length cl) brs) (\<lambda>T'. Inr (T', None))"
    if "cr = [] \<or> (\<exists>n. heap T (hd cr) = Some n \<and> node_count n \<le> 32)"
      "cl = cl' @ [l]" "heap T l = Some n'" "32 < node_count n'"
    using assms sibs kr that by (cases kr; cases cr) (auto simp: RebalanceLeaf_def)
  show "RebalanceLeaf (Suc d) T p brs =
        bindE (LeafMergeRight d T p q pp (length cl) brs) (\<lambda>T'. RebalanceBranch d T' pp brs)"
    if "cr = q # cr'" "heap T q = Some n" "node_count n \<le> 32"
      "cl = [] \<or> (\<exists>n'. heap T (last cl) = Some n' \<and> node_count n' \<le> 32)"
    using assms sibs kr that by (cases kr) (auto simp: RebalanceLeaf_def)
  show "RebalanceLeaf (Suc d) T p brs =
        bindE (LeafMergeLeft T p l pp (length cl)) (\<lambda>T'. RebalanceBranch d T' pp brs)"
    if "cr = []" "cl = cl' @ [l]" "heap T l = Some n'" "node_count n' \<le> 32"
    using assms sibs kr that by (cases kr) (auto simp: RebalanceLeaf_def)
qed

context scalar_order
begin

lemma ordered_shift_left:
  assumes "ordered ty K (xs @ Sep k # Ent q e0 # Ent q e1 # ys)"
  shows "ordered ty K (xs @ Ent a e0 # Sep (fst e1) # Ent q e1 # ys)"
proof -
  have "ordered ty K (xs @ Ent q e0 # Ent q e1 # ys)" using ordered_remove [OF assms] .
  then have "ordered ty K (xs @ Ent a e0 # Ent q e1 # ys)"
    using ordered_relabel [of ty K xs q "[e0]" "Ent q e1 # ys" a] by simp
  then show ?thesis by (rule ordered_separate)
qed

lemma ordered_shift_right:
  assumes "ordered ty K (xs @ Ent p f # Ent p e0 # Sep k # ys)"
  shows "ordered ty K (xs @ Ent p f # Sep (fst e0) # Ent q e0 # ys)"
proof -
  have "ordered ty K (xs @ Ent p f # Ent p e0 # ys)"
    using ordered_remove [of ty K "xs @ [Ent p f, Ent p e0]"] assms by simp
  then have "ordered ty K (xs @ Ent p f # Ent q e0 # ys)"
    using ordered_relabel [of ty K "xs @ [Ent p f]" p "[e0]" ys q] by simp
  then show ?thesis by (rule ordered_separate)
qed

lemma ordered_join:
  assumes "ordered ty K (xs @ map (Ent p) es @ Sep k # map (Ent q) res @ ys)"
  shows "ordered ty K (xs @ map (Ent p) (es @ res) @ ys)"
proof -
  have "ordered ty K ((xs @ map (Ent p) es) @ map (Ent q) res @ ys)"
    using ordered_remove [of ty K "xs @ map (Ent p) es"] assms by simp
  then have "ordered ty K ((xs @ map (Ent p) es) @ map (Ent p) res @ ys)" by (rule ordered_relabel)
  then show ?thesis by simp
qed

text \<open>A tree whose focus leaf, below the frames \<open>F # hs\<close>, may have lost an entry.\<close>

definition short_leaf ::
  "('k, 'v) BTree \<Rightarrow> nat \<Rightarrow> ('k, 'v) frame \<Rightarrow> ('k, 'v) frame list \<Rightarrow> addr \<Rightarrow> ('k \<times> 'v option) list \<Rightarrow> bool"
where
  "short_leaf T D F hs a es \<longleftrightarrow>
     zrep T (F # hs) (GLeaf a es) \<and> ctx_shape 64 D 0 (F # hs) \<and> listCapacity T = 64 \<and> keyType T = ty \<and>
     31 \<le> length es \<and> length es \<le> 64 \<and> \<not> keyOnly T \<and> leaf_repair F \<and> repairable (F # hs) \<and>
     ordered ty K (lefts (F # hs) @ map (Ent a) es @ rights (F # hs))"

lemma short_leafD:
  assumes "short_leaf T D (Frame pp kl tsl kr tsr) hs a es"
  shows "zrep T hs (GBranch pp (kl @ kr) (tsl @ GLeaf a es # tsr))" "ctx_shape 64 D (Suc 0) hs"
    "listCapacity T = 64" "keyType T = ty" "31 \<le> length es" "length es \<le> 64" "\<not> keyOnly T"
    "repairable (Frame pp kl tsl kr tsr # hs)" "length kl = length tsl" "length kr = length tsr"
    "\<forall>t\<in>set tsl \<union> set tsr. shape 64 0 t" "Suc (length tsl + length tsr) \<le> 64"
    "(if hs = [] then 2 else 32) \<le> Suc (length tsl + length tsr)"
    "ordered ty K (lefts hs @ weaveL kl (map inorder tsl) @ map (Ent a) es @ weaveR kr (map inorder tsr) @ rights hs)"
    "leaf_repair (Frame pp kl tsl kr tsr)"
  using assms by (simp_all add: short_leaf_def zrep_Cons split: if_splits)

lemma short_leaf_merge:
  assumes "short_leaf T D (Frame pp kl tsl kr tsr) hs a es" "hs \<noteq> []" "length tsl + length tsr = 31"
  shows "right_repair (hd hs) \<and> repairable hs"
  using short_leafD(8) [OF assms(1)] assms(2,3) by (cases hs) auto

text \<open>A repaired pair of leaves under an unchanged set of nodes.\<close>

lemma leaf_pair_core:
  assumes "zrep T' hs (GBranch pp (kl @ k # kr) (tsl @ GLeaf p es # GLeaf q res # tsr))" "ctx_shape 64 D (Suc 0) hs"
    and "listCapacity T' = 64" "keyType T' = ty" "length kl = length tsl" "length kr = length tsr"
    and "\<forall>t\<in>set tsl \<union> set tsr. shape 64 0 t" "length tsl + length tsr + 2 \<le> 64"
      "hs \<noteq> [] \<Longrightarrow> 32 \<le> length tsl + length tsr + 2"
    and "32 \<le> length es" "length es \<le> 64" "32 \<le> length res" "length res \<le> 64"
    and "ordered ty K (lefts hs @ weaveL kl (map inorder tsl) @ map (Ent p) es @ Sep k # map (Ent q) res @
      weaveR kr (map inorder tsr) @ rights hs)"
  shows "tree_core ty K T' D (plug hs (GBranch pp (kl @ k # kr) (tsl @ GLeaf p es # GLeaf q res # tsr)))"
    "ents (inorder (plug hs (GBranch pp (kl @ k # kr) (tsl @ GLeaf p es # GLeaf q res # tsr)))) =
      ents (lefts hs @ weaveL kl (map inorder tsl)) @ es @ res @ ents (weaveR kr (map inorder tsr) @ rights hs)"
proof -
  let ?t = "GBranch pp (kl @ k # kr) (tsl @ GLeaf p es # GLeaf q res # tsr)"
  have seq: "inorder ?t = weaveL kl (map inorder tsl) @ map (Ent p) es @ Sep k # map (Ent q) res @ weaveR kr (map inorder tsr)"
    using assms(5) by simp
  have "focus_shape 64 hs (Suc 0) ?t" using assms(5-13) by (auto simp: focus_shape_def)
  then show "tree_core ty K T' D (plug hs ?t)"
    by (rule zrep_tree_core [OF assms(1,2) _ assms(3,4)]) (use assms(14) seq in simp)
  show "ents (inorder (plug hs ?t)) =
      ents (lefts hs @ weaveL kl (map inorder tsl)) @ es @ res @ ents (weaveR kr (map inorder tsr) @ rights hs)"
    unfolding inorder_plug [OF ctx_shape_frames_ok [OF assms(2)]] seq by simp
qed

lemma RebalanceLeaf_borrowRight:
  assumes "short_leaf T D (Frame pp kl tsl (k0 # kr) (GLeaf q res # tsr)) hs a es"
    and path: "on_path brs (Frame pp kl tsl (k0 # kr) (GLeaf q res # tsr) # hs)"
    and w: "length es = 31" "32 < length res"
  shows "\<exists>T' res'. RebalanceLeaf (Suc (length hs)) T a brs = Inr (T', res') \<and>
    repaired ty K T (ents (lefts hs @ weaveL kl (map inorder tsl)) @ es @ res @
      ents (weaveR kr (map inorder tsr) @ rights hs)) T' res'"
proof -
  note s = short_leafD [OF assms(1)]
  obtain e0 e1 res' where r: "res = e0 # e1 # res'" using w(2) by (cases res; cases "tl res") auto
  have at: "path_at brs (length hs) = Inr (pp, length tsl)"
    using path_at_frame [of brs "[]" pp kl tsl "k0 # kr" "GLeaf q res # tsr" hs] path by simp
  then have hlen: "length hs < length brs" by (simp add: path_at_def split: if_splits)
  note n = sibling_leaves [OF s(1)]
  obtain h where h: "LeafBorrowRight (length hs) T a q pp (length tsl) brs = Inr (T\<lparr>heap := h\<rparr>)"
    "zrep (T\<lparr>heap := h\<rparr>) hs (GBranch pp (kl @ fst e1 # kr) (tsl @ GLeaf a (es @ [e0]) # GLeaf q (e1 # res') # tsr))"
    using LeafBorrowRight_ok [OF s(1) [unfolded r] s(9) hlen s(7)] by blast
  have run: "RebalanceLeaf (Suc (length hs)) T a brs = Inr (T\<lparr>heap := h\<rparr>, None)"
    using RebalanceLeaf_run(1) [of T a es brs "length hs" pp "map addr_of tsl" kl "k0 # kr" "q # map addr_of tsr" q "map addr_of tsr" "Leaf res"]
      n w s(3,9,10) at h(1) by simp
  have "ordered ty K (lefts hs @ weaveL kl (map inorder tsl) @ map (Ent a) (es @ [e0]) @ Sep (fst e1) #
      map (Ent q) (e1 # res') @ weaveR kr (map inorder tsr) @ rights hs)"
    using ordered_shift_left [of "lefts hs @ weaveL kl (map inorder tsl) @ map (Ent a) es" k0 q e0 e1 _ a] s(14) r by simp
  note c = leaf_pair_core [OF h(2) s(2) _ _ s(9) _ _ _ _ _ _ _ _ this]
  have "repaired ty K T (ents (lefts hs @ weaveL kl (map inorder tsl)) @ es @ res @
      ents (weaveR kr (map inorder tsr) @ rights hs)) (T\<lparr>heap := h\<rparr>) None"
    using s w r by (intro repaired_None [OF c(1)]) (auto simp: c(2) shape_GLeaf split: if_splits)
  with run show ?thesis by blast
qed

lemma RebalanceLeaf_borrowLeft:
  assumes "short_leaf T D (Frame pp (kl @ [k0]) (tsl @ [GLeaf p les]) kr tsr) hs a es"
    and path: "on_path brs (Frame pp (kl @ [k0]) (tsl @ [GLeaf p les]) kr tsr # hs)"
    and w: "length es = 31" "32 < length les" "tsr = [] \<or> width (hd tsr) \<le> 32"
  shows "\<exists>T' res'. RebalanceLeaf (Suc (length hs)) T a brs = Inr (T', res') \<and>
    repaired ty K T (ents (lefts hs @ weaveL kl (map inorder tsl)) @ les @ es @
      ents (weaveR kr (map inorder tsr) @ rights hs)) T' res'"
proof -
  note s = short_leafD [OF assms(1)]
  obtain les' f e0 where r: "les = (les' @ [f]) @ [e0]"
    using w(2) by (cases les rule: rev_cases; cases "butlast les" rule: rev_cases) auto
  have at: "path_at brs (length hs) = Inr (pp, Suc (length tsl))"
    using path_at_frame [of brs "[]" pp "kl @ [k0]" "tsl @ [GLeaf p les]" kr tsr hs] path by simp
  then have hlen: "length hs < length brs" by (simp add: path_at_def split: if_splits)
  have z: "zrep T hs (GBranch pp (kl @ k0 # kr) (tsl @ GLeaf p les # GLeaf a es # tsr))" using s(1) by simp
  note n = sibling_leaves [OF z]
  have lk: "length kl = length tsl" using s(9) by simp
  obtain h where h: "LeafBorrowLeft (length hs) T a p pp (length tsl + 1) brs = Inr (T\<lparr>heap := h\<rparr>)"
    "zrep (T\<lparr>heap := h\<rparr>) hs (GBranch pp (kl @ fst e0 # kr) (tsl @ GLeaf p (les' @ [f]) # GLeaf a (e0 # es) # tsr))"
    using LeafBorrowLeft_ok [OF z [unfolded r] lk hlen s(7)] by blast
  have right: "map addr_of tsr = [] \<or> (\<exists>n. heap T (hd (map addr_of tsr)) = Some n \<and> node_count n \<le> 32)"
  proof (cases tsr)
    case (Cons t ts)
    then have "shape 64 0 t" "rep (heap T) t" "width t \<le> 32" using s(11) zrepD(1) [OF z] w(3) by auto
    with Cons show ?thesis by (elim shape_LeafE) auto
  qed simp
  have run: "RebalanceLeaf (Suc (length hs)) T a brs = Inr (T\<lparr>heap := h\<rparr>, None)"
    using RebalanceLeaf_run(2) [of T a es brs "length hs" pp "map addr_of tsl @ [p]" "kl @ [k0]" kr "map addr_of tsr" "map addr_of tsl" p "Leaf les"]
      n w(1,2) s(3,9,10) at h(1) right by simp
  have "ordered ty K (lefts hs @ weaveL kl (map inorder tsl) @ map (Ent p) (les' @ [f]) @ Sep (fst e0) #
      map (Ent a) (e0 # es) @ weaveR kr (map inorder tsr) @ rights hs)"
    using ordered_shift_right [of "lefts hs @ weaveL kl (map inorder tsl) @ map (Ent p) les'" p f e0 k0 _ a] s(14) r lk by simp
  note c = leaf_pair_core [OF h(2) s(2) _ _ lk _ _ _ _ _ _ _ _ this]
  have "repaired ty K T (ents (lefts hs @ weaveL kl (map inorder tsl)) @ les @ es @
      ents (weaveR kr (map inorder tsr) @ rights hs)) (T\<lparr>heap := h\<rparr>) None"
    using s w r by (intro repaired_None [OF c(1)]) (auto simp: c(2) shape_GLeaf split: if_splits)
  with run show ?thesis by blast
qed

lemma RebalanceLeaf_mergeRight:
  assumes "short_leaf T D (Frame pp kl tsl (k0 # kr) (GLeaf q res # tsr)) hs a es"
    and path: "on_path brs (Frame pp kl tsl (k0 # kr) (GLeaf q res # tsr) # hs)"
    and w: "length es = 31" "length res = 32" "tsl = [] \<or> width (last tsl) \<le> 32"
  shows "\<exists>T' res'. RebalanceLeaf (Suc (length hs)) T a brs = Inr (T', res') \<and>
    repaired ty K T (ents (lefts hs @ weaveL kl (map inorder tsl)) @ es @ res @
      ents (weaveR kr (map inorder tsr) @ rights hs)) T' res'"
proof -
  note s = short_leafD [OF assms(1)]
  let ?G = "Frame pp kl tsl kr tsr" and ?M = "GLeaf a (es @ res)"
  have path': "on_path brs (?G # hs)" using path by (simp add: on_path_def)
  have at: "path_at brs (length hs) = Inr (pp, length tsl)"
    using path_at_frame [of brs "[]" pp kl tsl kr tsr hs] path' by simp
  note n = sibling_leaves [OF s(1)]
  have lk: "length kr = length tsr" using s(10) by simp
  have ne: "es @ res \<noteq> []" using w(1) by auto
  obtain h fs' where h: "LeafMergeRight (length hs) T a q pp (length tsl) brs = Inr (T\<lparr>heap := h\<rparr>)"
    "zrep (T\<lparr>heap := h\<rparr>) fs' ?M" "refresh ?M (?G # hs) fs'"
    using LeafMergeRight_ok [OF s(1) s(9) lk ctx_shape_frames_ok [OF s(2)] s(7) ne path'] s(3,9,15) lk w by auto
  have left: "map addr_of tsl = [] \<or> (\<exists>n'. heap T (last (map addr_of tsl)) = Some n' \<and> node_count n' \<le> 32)"
  proof (cases "tsl = []")
    case False
    then have "shape 64 0 (last tsl)" "rep (heap T) (last tsl)" "width (last tsl) \<le> 32"
      using s(11) zrepD(1) [OF s(1)] w(3) by auto
    with False show ?thesis by (elim shape_LeafE) (auto simp: last_map)
  qed simp
  have run: "RebalanceLeaf (Suc (length hs)) T a brs = RebalanceBranch (length hs) (T\<lparr>heap := h\<rparr>) pp brs"
    using RebalanceLeaf_run(3) [of T a es brs "length hs" pp "map addr_of tsl" kl "k0 # kr" "q # map addr_of tsr" q "map addr_of tsr" "Leaf res"]
      n w(1,2) s(3,9,10) at h(1) left by simp
  have ord: "ordered ty K (lefts (?G # hs) @ inorder ?M @ rights (?G # hs))"
    using ordered_join [of "lefts hs @ weaveL kl (map inorder tsl)" a es k0 q res] s(14) by simp
  have "shape 64 0 ?M" using w by simp
  moreover have "right_repair (hd hs) \<and> repairable hs" if "hs \<noteq> []" "Suc (length tsl + length tsr) = 31"
    using short_leaf_merge [OF assms(1)] that by simp
  ultimately obtain hs' pks where m: "short_branch (T\<lparr>heap := h\<rparr>) D 0 hs' pp pks (tsl @ ?M # tsr)" "on_path brs hs'"
    "length hs' = length hs"
    "ents (lefts hs' @ inorder (GBranch pp pks (tsl @ ?M # tsr)) @ rights hs') =
      ents (lefts (?G # hs) @ inorder ?M @ rights (?G # hs))"
    using merged_parent [OF h(2,3) _ _ s(9) lk _ _ s(2) _ _ _ ord path'] s(3,4,11,12,13) by (auto split: if_splits)
  from RebalanceBranch_ok [OF m(1,2)] obtain T' res' where "RebalanceBranch (length hs) (T\<lparr>heap := h\<rparr>) pp brs = Inr (T', res')"
    "repaired ty K T (ents (lefts (?G # hs) @ inorder ?M @ rights (?G # hs))) T' res'"
    unfolding m(3,4) using repaired_heap by blast
  with run show ?thesis by auto
qed

lemma RebalanceLeaf_mergeLeft:
  assumes "short_leaf T D (Frame pp (kl @ [k0]) (tsl @ [GLeaf p les]) [] []) hs a es"
    and path: "on_path brs (Frame pp (kl @ [k0]) (tsl @ [GLeaf p les]) [] [] # hs)"
    and w: "length es = 31" "length les = 32"
  shows "\<exists>T' res'. RebalanceLeaf (Suc (length hs)) T a brs = Inr (T', res') \<and>
    repaired ty K T (ents (lefts hs @ weaveL kl (map inorder tsl)) @ les @ es @ ents (rights hs)) T' res'"
proof -
  note s = short_leafD [OF assms(1)]
  let ?M = "GLeaf p (les @ es)"
  let ?G = "Frame pp kl tsl [] []"
  have at: "path_at brs (length hs) = Inr (pp, Suc (length tsl))"
    using path_at_frame [of brs "[]" pp "kl @ [k0]" "tsl @ [GLeaf p les]" "[]" "[]" hs] path by simp
  have z: "zrep T hs (GBranch pp (kl @ k0 # []) (tsl @ GLeaf p les # GLeaf a es # []))" using s(1) by simp
  note n = sibling_leaves [OF z]
  have lk: "length kl = length tsl" using s(9) by simp
  obtain h where h: "LeafMergeLeft T a p pp (length tsl + 1) = Inr (T\<lparr>heap := h\<rparr>)"
    "zrep (T\<lparr>heap := h\<rparr>) hs (GBranch pp (kl @ []) (tsl @ ?M # []))"
    using LeafMergeLeft_ok [OF z lk s(7)] s(3,15) lk w by auto
  have run: "RebalanceLeaf (Suc (length hs)) T a brs = RebalanceBranch (length hs) (T\<lparr>heap := h\<rparr>) pp brs"
    using RebalanceLeaf_run(4) [of T a es brs "length hs" pp "map addr_of tsl @ [p]" "kl @ [k0]" "[]" "[]" "map addr_of tsl" p "Leaf les"]
      n w(1,2) s(3,9,10) at h(1) by simp
  have seq: "inorder (GBranch pp kl (tsl @ [?M])) = weaveL kl (map inorder tsl) @ map (Ent p) (les @ es)"
    using weave_split [of kl "map inorder tsl" "[]" "inorder ?M" "[]"] lk by simp
  have "ordered ty K (lefts hs @ inorder (GBranch pp kl (tsl @ [?M])) @ rights hs)"
    unfolding seq using ordered_join [of "lefts hs @ weaveL kl (map inorder tsl)" p les k0 a es "rights hs"] s(14) lk by simp
  then have "short_branch (T\<lparr>heap := h\<rparr>) D 0 hs pp kl (tsl @ [?M])"
    unfolding short_branch_def using h(2) s(2,3,4,11,12,13) lk w short_leaf_merge [OF assms(1)]
    by (auto split: if_splits)
  moreover have "on_path brs hs" using path by (auto simp: on_path_def)
  ultimately obtain T' res' where "RebalanceBranch (length hs) (T\<lparr>heap := h\<rparr>) pp brs = Inr (T', res')"
    "repaired ty K T (ents (lefts hs @ inorder (GBranch pp kl (tsl @ [?M])) @ rights hs)) T' res'"
    using RebalanceBranch_ok repaired_heap by blast
  with run show ?thesis unfolding seq by auto
qed

lemma RebalanceLeaf_ok:
  assumes "short_leaf T D F hs a es" "on_path brs (F # hs)"
  shows "\<exists>T' res'. RebalanceLeaf (Suc (length hs)) T a brs = Inr (T', res') \<and>
    repaired ty K T (ents (lefts (F # hs)) @ es @ ents (rights (F # hs))) T' res'"
proof -
  obtain pp kl tsl kr tsr where F: "F = Frame pp kl tsl kr tsr" by (cases F)
  note s = short_leafD [OF assms(1) [unfolded F]]
  show ?thesis
  proof (cases "32 \<le> length es")
    case True
    have h: "heap T a = Some (Leaf es)" using zrepD(1) [OF s(1)] by simp
    have "tree_core ty K T D (plug (F # hs) (GLeaf a es))"
      using assms(1) True by (intro zrep_tree_core [of T "F # hs" "GLeaf a es" D 0])
        (auto simp: short_leaf_def focus_shape_def)
    moreover have "inorder (plug (F # hs) (GLeaf a es)) = lefts (F # hs) @ map (Ent a) es @ rights (F # hs)"
      using assms(1) inorder_plug [of "F # hs" "GLeaf a es"] ctx_shape_frames_ok
      unfolding short_leaf_def by (metis inorder.simps(1))
    ultimately have "repaired ty K T (ents (lefts (F # hs)) @ es @ ents (rights (F # hs))) T None"
      by (intro repaired_same) (assumption, simp)
    with RebalanceLeaf_enough [OF h True s(3)] show ?thesis by blast
  next
    case False
    then have l31: "length es = 31" using s(5) by simp
    have right: "\<exists>k0 kr' q res tsr'. kr = k0 # kr' \<and> tsr = GLeaf q res # tsr' \<and> 32 \<le> length res" if "tsr \<noteq> []"
      using that s(10,11) by (cases tsr; cases kr) (auto elim: shape_LeafE)
    have left: "\<exists>kl' k0 tsl' p les. kl = kl' @ [k0] \<and> tsl = tsl' @ [GLeaf p les] \<and> 32 \<le> length les" if "tsl \<noteq> []"
      using that s(9,11) by (cases tsl rule: rev_cases; cases kl rule: rev_cases) (auto elim: shape_LeafE)
    consider (br) "tsr \<noteq> []" "32 < width (hd tsr)"
      | (bl) "tsr = [] \<or> width (hd tsr) \<le> 32" "tsl \<noteq> []" "32 < width (last tsl)"
      | (mr) "tsr \<noteq> []" "width (hd tsr) \<le> 32" "tsl = [] \<or> width (last tsl) \<le> 32"
      | (ml) "tsr = []" "tsl \<noteq> []" "width (last tsl) \<le> 32"
      using s(13) by (cases "tsl = []"; cases "tsr = []") (fastforce split: if_splits)+
    then show ?thesis
    proof cases
      case br
      from right [OF br(1)] obtain k0 kr' q res tsr' where
        r: "kr = k0 # kr'" "tsr = GLeaf q res # tsr'" "32 \<le> length res" by blast
      show ?thesis using RebalanceLeaf_borrowRight [OF assms [unfolded F r] l31] br F r s(9) by simp
    next
      case bl
      from left [OF bl(2)] obtain kl' k0 tsl' p les where
        l: "kl = kl' @ [k0]" "tsl = tsl' @ [GLeaf p les]" "32 \<le> length les" by blast
      show ?thesis using RebalanceLeaf_borrowLeft [OF assms [unfolded F l] l31] bl F l s(9) by simp
    next
      case mr
      from right [OF mr(1)] obtain k0 kr' q res tsr' where
        r: "kr = k0 # kr'" "tsr = GLeaf q res # tsr'" "32 \<le> length res" by blast
      show ?thesis using RebalanceLeaf_mergeRight [OF assms [unfolded F r] l31] mr F r s(9) by simp
    next
      case ml
      from left [OF ml(2)] obtain kl' k0 tsl' p les where
        l: "kl = kl' @ [k0]" "tsl = tsl' @ [GLeaf p les]" "32 \<le> length les" by blast
      have "kr = []" using ml s(10) by simp
      then show ?thesis using RebalanceLeaf_mergeLeft [OF assms [unfolded F l \<open>kr = []\<close> ml(1)] l31] ml F l s(9) by simp
    qed
  qed
qed

end

section \<open>The whole deletion\<close>

lemma ctx_root_in: "fs \<noteq> [] \<Longrightarrow> ctx_root fs p \<in> set (ctx_addrs fs)"
proof (induction fs p rule: ctx_root.induct)
  case (2 a kl tsl kr tsr fs p)
  then show ?case by (cases "fs = []") auto
qed simp

text \<open>The part of \<open>Delete\<close> before the rebalancing of a leaf that is not the root.\<close>

lemma Delete_leaf:
  assumes "tree_core ty K T D (plug (F # hs) (GLeaf a (l @ e # r)))" "frames_ok (F # hs)"
    and path: "Branches path = rev (path_of (F # hs))" "PathLeaf path = a" "LeafIndex path = length l"
  shows "\<exists>h fs'. zrep (T\<lparr>heap := h\<rparr>) fs' (GLeaf a (l @ r)) \<and> refresh (GLeaf a (l @ r)) (F # hs) fs' \<and>
    Delete T path = bindE (RebalanceLeaf (Suc (length hs)) (T\<lparr>heap := h\<rparr>) a (rev (path_of (F # hs)))) (\<lambda>(T3, result).
      (let T4 = (case result of None \<Rightarrow> T3 | Some r \<Rightarrow> T3\<lparr>root := r\<rparr>)
       in Inr (T4\<lparr>treeCount := treeCount T4 - 1\<rparr>)))"
proof -
  obtain pp kl tsl kr tsr where F: "F = Frame pp kl tsl kr tsr" by (cases F)
  note lf = leaf_focus [OF assms(1,2)]
  let ?h1 = "(heap T)(a \<mapsto> Leaf (l @ r))" and ?brs = "rev (path_of (F # hs))"
  let ?T1 = "T\<lparr>heap := ?h1\<rparr>"
  have nr: "a \<noteq> root T" using lf(5,6) ctx_root_in [of "F # hs" a] by auto
  have z: "zrep ?T1 (F # hs) (GLeaf a (l @ r))"
    using lf(4-7) by (simp add: zrep_def)
  have del: "Leaf_Delete T a (length l) = Inr ?T1"
    using lf(3) by (simp add: Leaf_Delete_def store_def)
  have op: "on_path ?brs (F # hs)" by (simp add: on_path_def)
  have at: "path_at ?brs (length hs) = Inr (pp, length tsl)"
    using path_at_frame [of ?brs "[]" pp kl tsl kr tsr hs] op F by simp
  have "l @ e # r \<noteq> []" "32 \<le> length (l @ e # r)" using lf(2,10) by (auto simp: focus_shape_def)
  then obtain f xs where fx: "l @ r = f # xs" by (cases "l @ r") auto
  show ?thesis
  proof (cases "l = []")
    case True
    obtain h fs' where u: "UpdateKey (length hs) ?T1 pp (length tsl) ?brs = Inr (?T1\<lparr>heap := h\<rparr>)"
      "zrep (?T1\<lparr>heap := h\<rparr>) fs' (GLeaf a (l @ r))" "refresh (GLeaf a (l @ r)) (F # hs) fs'"
      using UpdateKey_path [of ?T1 pp kl tsl kr tsr hs "GLeaf a (l @ r)" ?brs a f "map (Ent a) xs"] z assms(2) op F fx
      by auto
    have "Delete T path = bindE (RebalanceLeaf (Suc (length hs)) (T\<lparr>heap := h\<rparr>) a ?brs) (\<lambda>(T3, result).
      (let T4 = (case result of None \<Rightarrow> T3 | Some r \<Rightarrow> T3\<lparr>root := r\<rparr>)
       in Inr (T4\<lparr>treeCount := treeCount T4 - 1\<rparr>)))"
      using del nr path True u(1) at by (simp add: Delete_def Let_def)
    with u show ?thesis by auto
  next
    case False
    have "Delete T path = bindE (RebalanceLeaf (Suc (length hs)) ?T1 a ?brs) (\<lambda>(T3, result).
      (let T4 = (case result of None \<Rightarrow> T3 | Some r \<Rightarrow> T3\<lparr>root := r\<rparr>)
       in Inr (T4\<lparr>treeCount := treeCount T4 - 1\<rparr>)))"
      using del nr path False by (simp add: Delete_def Let_def)
    with z show ?thesis using refresh_refl by blast
  qed
qed

text \<open>
  When a deletion needs no repair from a left branch sibling and no merge below a full branch,
  read off the store and the recorded path (innermost branch first).
\<close>

definition node_width :: "('k, 'v) heap \<Rightarrow> addr \<Rightarrow> nat" where
  "node_width h p =
     (case h p of None \<Rightarrow> 0 | Some (Leaf es) \<Rightarrow> length es | Some (Branch ks cs) \<Rightarrow> Suc (length ks))"

fun path_repairable :: "('k, 'v) heap \<Rightarrow> PathNode list \<Rightarrow> bool" where
  "path_repairable h ((p, i) # (pp, j) # brs) \<longleftrightarrow>
     33 \<le> node_width h p \<or>
     ((case h pp of
         Some (Branch ks cs) \<Rightarrow> j < length ks \<and>
           (32 < node_width h (cs ! (j + 1)) \<or> (j = 0 \<or> node_width h (cs ! (j - 1)) \<le> 32) \<and> Suc (length ks) < 64)
       | _ \<Rightarrow> False) \<and> path_repairable h ((pp, j) # brs))"
| "path_repairable h _ \<longleftrightarrow> True"

fun leaf_repairable :: "('k, 'v) heap \<Rightarrow> PathNode list \<Rightarrow> bool" where
  "leaf_repairable h ((pp, j) # brs) \<longleftrightarrow>
     (case h pp of
        Some (Branch ks cs) \<Rightarrow> j < length ks \<and> 32 < node_width h (cs ! (j + 1)) \<or>
          0 < j \<and> 32 < node_width h (cs ! (j - 1)) \<or> Suc (length ks) < 64
      | _ \<Rightarrow> False)"
| "leaf_repairable h [] \<longleftrightarrow> True"

definition delete_safe :: "('k, 'v) BTree \<Rightarrow> Path \<Rightarrow> bool" where
  "delete_safe T path \<longleftrightarrow>
     PathLeaf path = root T \<or> 33 \<le> node_width (heap T) (PathLeaf path) \<or>
     (\<not> keyOnly T \<and> leaf_repairable (heap T) (rev (Branches path)) \<and> path_repairable (heap T) (rev (Branches path)))"

lemma node_width_rep: "rep h t \<Longrightarrow> shape cap d t \<Longrightarrow> node_width h (addr_of t) = width t"
  by (cases t) (auto simp: node_width_def shape_GBranch)

text \<open>The neighbours of a child in the store and in the frame.\<close>

lemma frame_neighbours:
  assumes "\<forall>t\<in>set tsl \<union> set tsr. node_width h (addr_of t) = width t"
  shows "tsl \<noteq> [] \<Longrightarrow> node_width h ((map addr_of tsl @ a # map addr_of tsr) ! (length tsl - 1)) = width (last tsl)"
    and "tsr \<noteq> [] \<Longrightarrow> node_width h ((map addr_of tsl @ a # map addr_of tsr) ! (length tsl + 1)) = width (hd tsr)"
proof -
  show "tsl \<noteq> [] \<Longrightarrow> node_width h ((map addr_of tsl @ a # map addr_of tsr) ! (length tsl - 1)) = width (last tsl)"
    using assms by (cases tsl rule: rev_cases) (auto simp: nth_append)
  show "tsr \<noteq> [] \<Longrightarrow> node_width h ((map addr_of tsl @ a # map addr_of tsr) ! (length tsl + 1)) = width (hd tsr)"
    using assms by (cases tsr) (auto simp: nth_append)
qed

lemma leaf_repair_path:
  assumes "rep_ctx h (f # fs) p" "ctx_shape cap D d (f # fs)"
  shows "leaf_repairable h (path_of (f # fs)) \<longleftrightarrow> leaf_repair f"
proof -
  obtain pp kl tsl kr tsr where f: "f = Frame pp kl tsl kr tsr" by (cases f)
  have h: "h pp = Some (Branch (kl @ kr) (map addr_of tsl @ p # map addr_of tsr))"
    "\<forall>t\<in>set tsl \<union> set tsr. node_width h (addr_of t) = width t"
    using assms f node_width_rep by fastforce+
  have len: "length kl = length tsl" "length kr = length tsr" using assms(2) f by auto
  show ?thesis
    using h(1) len frame_neighbours [OF h(2), of p] unfolding f
    by (cases "tsl = []"; cases "tsr = []") auto
qed

lemma repairable_path:
  assumes "rep_ctx h fs p" "ctx_shape cap D d fs"
  shows "path_repairable h (path_of fs) \<longleftrightarrow> repairable fs"
  using assms
proof (induction fs arbitrary: p d rule: repairable.induct)
  case (1 a kl tsl kr tsr f fs)
  obtain pp kl' tsl' kr' tsr' where f: "f = Frame pp kl' tsl' kr' tsr'" by (cases f)
  have h: "h pp = Some (Branch (kl' @ kr') (map addr_of tsl' @ a # map addr_of tsr'))"
    "h a = Some (Branch (kl @ kr) (map addr_of tsl @ p # map addr_of tsr))"
    "rep_ctx h (f # fs) a" "ctx_shape cap D (Suc d) (f # fs)"
    "\<forall>t\<in>set tsl' \<union> set tsr'. node_width h (addr_of t) = width t"
    using 1(2,3) f node_width_rep by fastforce+
  have len: "length kl' = length tsl'" "length kr' = length tsr'" "length kl = length tsl" "length kr = length tsr"
    using 1(3) f by auto
  have w: "node_width h a = Suc (length tsl + length tsr)" using h(2) len by (simp add: node_width_def)
  have "right_repair f \<longleftrightarrow> length tsl' < length (kl' @ kr') \<and>
      (32 < node_width h ((map addr_of tsl' @ a # map addr_of tsr') ! (length tsl' + 1)) \<or>
       (length tsl' = 0 \<or> node_width h ((map addr_of tsl' @ a # map addr_of tsr') ! (length tsl' - 1)) \<le> 32) \<and>
       Suc (length (kl' @ kr')) < 64)"
    using f frame_neighbours [OF h(5), of a] len by (cases "tsl' = []"; cases "tsr' = []") auto
  moreover have "path_repairable h (path_of (f # fs)) \<longleftrightarrow> repairable (f # fs)"
    using "1.IH" h(3,4) by blast
  ultimately show ?case using f h(1) w by simp
next
  case (3 f)
  then show ?case by (cases f) simp
qed simp

context scalar_order
begin

lemma Delete_simple:
  assumes inv: "tree_inv ty K T D t" and t: "t = plug fs (GLeaf a (l @ e # r))" "frames_ok fs"
    and path: "Branches path = rev (path_of fs)" "PathLeaf path = a" "LeafIndex path = length l"
    and w: "fs = [] \<or> 33 \<le> length (l @ e # r)"
  shows "\<exists>T' t'. Delete T path = Inr T' \<and> tree_inv ty K T' D t' \<and> keyOnly T' = keyOnly T \<and>
    locs (inorder t') = locs (lefts fs) @ map (Pair a) (l @ r) @ locs (rights fs)"
proof -
  have core: "tree_core ty K T D (plug fs (GLeaf a (l @ e # r)))" using inv t(1) by (simp add: tree_inv_def)
  note lf = leaf_focus [OF core t(2)]
  have cnt: "treeCount T = int (length (ents (lefts fs @ map (Ent a) (l @ e # r) @ rights fs)))"
    using inv t by (simp add: tree_inv_def inorder_plug)
  have ord: "ordered ty K (lefts fs @ map (Ent a) (l @ r) @ rights fs)"
    using ordered_remove [of ty K "lefts fs @ map (Ent a) l"] lf(8) by simp
  have "\<exists>h fs'. Delete T path = Inr (T\<lparr>heap := h, treeCount := treeCount T - 1\<rparr>) \<and>
      tree_core ty K (T\<lparr>heap := h\<rparr>) D (plug fs' (GLeaf a (l @ r))) \<and>
      frames_ok fs' \<and> locs (lefts fs') = locs (lefts fs) \<and> rights fs' = rights fs"
  proof (cases fs)
    case Nil
    let ?h = "(heap T)(a \<mapsto> Leaf (l @ r))"
    have "Delete T path = Inr (T\<lparr>heap := ?h, treeCount := treeCount T - 1\<rparr>)"
      using lf(3,5) path Nil by (simp add: Delete_def Leaf_Delete_def store_def)
    moreover have "tree_core ty K (T\<lparr>heap := ?h\<rparr>) D (GLeaf a (l @ r))"
      using core lf(11) ord Nil by (auto simp: tree_core_def rshape_GLeaf)
    ultimately show ?thesis using Nil by (intro exI [of _ ?h] exI [of _ "[]"]) simp
  next
    case (Cons F hs)
    obtain h fs' where z: "zrep (T\<lparr>heap := h\<rparr>) fs' (GLeaf a (l @ r))" and ref: "refresh (GLeaf a (l @ r)) fs fs'"
      and run: "Delete T path = bindE (RebalanceLeaf (Suc (length hs)) (T\<lparr>heap := h\<rparr>) a (rev (path_of fs))) (\<lambda>(T3, result).
        (let T4 = (case result of None \<Rightarrow> T3 | Some r \<Rightarrow> T3\<lparr>root := r\<rparr>)
         in Inr (T4\<lparr>treeCount := treeCount T4 - 1\<rparr>)))"
      using Delete_leaf [of ty K T D F hs a l e r path] core t(2) path Cons by auto
    have cap: "listCapacity T = 64" using lf(10) Cons by simp
    have w32: "32 \<le> length (l @ r)" "length (l @ r) \<le> 64" using w Cons lf(11) cap by auto
    have "heap (T\<lparr>heap := h\<rparr>) a = Some (Leaf (l @ r))" using zrepD(1) [OF z] by simp
    from RebalanceLeaf_enough [OF this w32(1)] cap run
    have "Delete T path = Inr (T\<lparr>heap := h, treeCount := treeCount T - 1\<rparr>)" by simp
    moreover have shp: "ctx_shape 64 D 0 fs'" using refresh_simps(4) [OF ref] lf(1) cap by simp
    moreover have "tree_core ty K (T\<lparr>heap := h\<rparr>) D (plug fs' (GLeaf a (l @ r)))"
      using refresh_ordered [OF ref t(2)] ord w32 cap lf(12)
      by (intro zrep_tree_core [OF z shp]) (auto simp: focus_shape_def)
    ultimately show ?thesis
      using refresh_simps(5,6) [OF ref] ctx_shape_frames_ok by blast
  qed
  then obtain h fs' where d: "Delete T path = Inr (T\<lparr>heap := h, treeCount := treeCount T - 1\<rparr>)"
    "tree_core ty K (T\<lparr>heap := h\<rparr>) D (plug fs' (GLeaf a (l @ r)))" "frames_ok fs'"
    "locs (lefts fs') = locs (lefts fs)" "rights fs' = rights fs" by blast
  have "tree_inv ty K (T\<lparr>heap := h, treeCount := treeCount T - 1\<rparr>) D (plug fs' (GLeaf a (l @ r)))"
    using d(2-5) cnt by (simp add: tree_inv_def inorder_plug ents_def)
  with d show ?thesis
    by (intro exI [of _ "T\<lparr>heap := h, treeCount := treeCount T - 1\<rparr>"] exI [of _ "plug fs' (GLeaf a (l @ r))"])
      (simp add: inorder_plug)
qed

lemma Delete_rebalance:
  assumes inv: "tree_inv ty K T D t" and t: "t = plug fs (GLeaf a (l @ e # r))" "frames_ok fs" "fs \<noteq> []"
    and path: "Branches path = rev (path_of fs)" "PathLeaf path = a" "LeafIndex path = length l"
    and "\<not> keyOnly T" "repairable fs" "leaf_repair (hd fs)"
  shows "\<exists>T' D' t'. Delete T path = Inr T' \<and> tree_inv ty K T' D' t' \<and> keyOnly T' = keyOnly T \<and>
    ents (inorder t') = ents (lefts fs) @ l @ r @ ents (rights fs)"
proof -
  have core: "tree_core ty K T D (plug fs (GLeaf a (l @ e # r)))" using inv t(1) by (simp add: tree_inv_def)
  note lf = leaf_focus [OF core t(2)]
  have cnt: "treeCount T = int (length (ents (lefts fs @ map (Ent a) (l @ e # r) @ rights fs)))"
    using inv t by (simp add: tree_inv_def inorder_plug)
  have ord: "ordered ty K (lefts fs @ map (Ent a) (l @ r) @ rights fs)"
    using ordered_remove [of ty K "lefts fs @ map (Ent a) l"] lf(8) by simp
  obtain F hs where fs: "fs = F # hs" using t(3) by (cases fs) auto
  obtain h fs' where z: "zrep (T\<lparr>heap := h\<rparr>) fs' (GLeaf a (l @ r))" and ref: "refresh (GLeaf a (l @ r)) fs fs'"
    and run: "Delete T path = bindE (RebalanceLeaf (Suc (length hs)) (T\<lparr>heap := h\<rparr>) a (rev (path_of fs))) (\<lambda>(T3, result).
      (let T4 = (case result of None \<Rightarrow> T3 | Some r \<Rightarrow> T3\<lparr>root := r\<rparr>)
       in Inr (T4\<lparr>treeCount := treeCount T4 - 1\<rparr>)))"
    using Delete_leaf [of ty K T D F hs a l e r path] core t(2) path fs by auto
  obtain F' hs' where fs': "fs' = F' # hs'" "length hs' = length hs"
    using refresh_simps(2,3) [OF ref] fs by (cases fs') auto
  have "short_leaf (T\<lparr>heap := h\<rparr>) D F' hs' a (l @ r)"
    unfolding short_leaf_def fs'(1) [symmetric]
    using z refresh_simps(4) [OF ref lf(1)] lf(2,10,12) t(3) refresh_ordered [OF ref t(2)] ord assms(8,9)
      refresh_repairable [OF ref] refresh_leaf_repair [OF ref t(3)] assms(10) fs'(1) by (auto simp: focus_shape_def)
  moreover have "on_path (rev (path_of fs)) (F' # hs')"
    using refresh_simps(1) [OF ref] fs' by (auto simp: on_path_def)
  ultimately obtain T' res' where r: "RebalanceLeaf (Suc (length hs)) (T\<lparr>heap := h\<rparr>) a (rev (path_of fs)) = Inr (T', res')"
    "repaired ty K T (ents (lefts fs') @ (l @ r) @ ents (rights fs')) T' res'"
    using RebalanceLeaf_ok [of "T\<lparr>heap := h\<rparr>" D F' hs' a "l @ r" "rev (path_of fs)"] fs' repaired_heap by metis
  let ?T4 = "case res' of None \<Rightarrow> T' | Some r \<Rightarrow> T'\<lparr>root := r\<rparr>"
  have "Delete T path = Inr (?T4\<lparr>treeCount := treeCount ?T4 - 1\<rparr>)" using run r(1) by (simp add: Let_def)
  moreover obtain D' t' h' where c: "tree_core ty K ?T4 D' t'"
    "ents (inorder t') = ents (lefts fs) @ (l @ r) @ ents (rights fs)" "T' = T\<lparr>heap := h'\<rparr>"
    using r(2) refresh_simps(5,6) [OF ref] by (auto simp: repaired_def ents_def)
  moreover have "treeCount ?T4 = treeCount T" "keyOnly ?T4 = keyOnly T" using c(3) by (simp_all split: option.split)
  moreover from this have "tree_inv ty K (?T4\<lparr>treeCount := treeCount ?T4 - 1\<rparr>) D' t'"
    using c cnt by (simp add: tree_inv_def)
  ultimately show ?thesis by (intro exI [of _ "?T4\<lparr>treeCount := treeCount ?T4 - 1\<rparr>"] exI [of _ D'] exI [of _ t']) simp
qed

text \<open>Deletion at the path of a search that found the key.\<close>

lemma Delete_contents:
  assumes "btree_inv ty K T" "key \<in> K" "GetPath T key = Inr path" "Match path" "delete_safe T path"
  shows "\<exists>T' xs e ys. Delete T path = Inr T' \<and> btree_inv ty K T' \<and> keyOnly T' = keyOnly T \<and>
    contents T = xs @ e # ys \<and> Compare ty key (fst e) = 0 \<and> contents T' = xs @ ys"
proof -
  obtain D t where inv: "tree_inv ty K T D t" using assms(1) by (auto simp: btree_inv_def)
  obtain fs a l r m where pos: "position ty K key t fs a l r m" and
    path: "path = \<lparr>Branches = rev (path_of fs), PathLeaf = a, LeafIndex = length l, Match = m\<rparr>"
    using GetPath_position [OF inv assms(2)] assms(3) by auto
  obtain e r' where r: "r = e # r'" "Compare ty key (fst e) = 0"
    using pos path assms(4) by (auto simp: position_def)
  have t: "t = plug fs (GLeaf a (l @ e # r'))" "frames_ok fs" using pos r by (auto simp: position_def)
  have core: "tree_core ty K T D (plug fs (GLeaf a (l @ e # r')))" using inv t(1) by (simp add: tree_inv_def)
  note lf = leaf_focus [OF core t(2)]
  have root: "a = root T \<Longrightarrow> fs = []" using lf(5,6) ctx_root_in [of fs a] by auto
  have "\<exists>T' D' t'. Delete T path = Inr T' \<and> tree_inv ty K T' D' t' \<and> keyOnly T' = keyOnly T \<and>
    ents (inorder t') = ents (lefts fs) @ l @ r' @ ents (rights fs)"
  proof (cases "fs = [] \<or> 33 \<le> length (l @ e # r')")
    case True
    obtain T' t' where d: "Delete T path = Inr T'" "tree_inv ty K T' D t'" "keyOnly T' = keyOnly T"
      "locs (inorder t') = locs (lefts fs) @ map (Pair a) (l @ r') @ locs (rights fs)"
      using Delete_simple [OF inv t _ _ _ True, of path] path by auto
    have "ents (inorder t') = ents (lefts fs) @ l @ r' @ ents (rights fs)"
      using d(4) by (simp add: ents_def comp_def)
    with d show ?thesis by blast
  next
    case False
    then have "node_width (heap T) a < 33" using lf(3) by (simp add: node_width_def)
    then have safe: "\<not> keyOnly T" "leaf_repairable (heap T) (path_of fs)" "repairable fs"
      using assms(5) root False path repairable_path [OF lf(4,1)] by (auto simp: delete_safe_def)
    have "leaf_repair (hd fs)"
      using safe(2) False lf(4,1) leaf_repair_path [of "heap T" "hd fs" "tl fs" a "listCapacity T" D 0] by (cases fs) auto
    with safe(1,3) show ?thesis using Delete_rebalance [OF inv t] False path by auto
  qed
  then obtain T' D' t' where d: "Delete T path = Inr T'" "tree_inv ty K T' D' t'" "keyOnly T' = keyOnly T"
    "ents (inorder t') = ents (lefts fs) @ l @ r' @ ents (rights fs)" by blast
  have "contents T' = (ents (lefts fs) @ l) @ r' @ ents (rights fs)" using contents_inorder [OF d(2)] d(4) by simp
  moreover have "contents T = (ents (lefts fs) @ l) @ e # r' @ ents (rights fs)"
    using contents_inorder [OF inv] position_ents [OF pos] r by simp
  moreover have "btree_inv ty K T'" using d(2) by (auto simp: btree_inv_def)
  ultimately show ?thesis using d(1,3) r(2) by blast
qed

end

section \<open>The cases the code gets wrong\<close>

text \<open>
  A key-only tree cannot repair a leaf: every repair goes through the null pointer \<open>_values\<close>.
\<close>

lemma RebalanceLeaf_keyOnly:
  assumes "heap T p = Some (Leaf es)" "length es = 31" "listCapacity T = 64" "keyOnly T"
    and "path_at brs d = Inr (pp, length cl)" "length kl = length cl" "length kr = length cr"
    and "heap T pp = Some (Branch (kl @ kr) (cl @ p # cr))" "cl \<noteq> [] \<or> cr \<noteq> []"
    and leaves: "\<forall>c\<in>set (cl @ cr). \<exists>es. heap T c = Some (Leaf es) \<and> 32 \<le> length es"
  shows "RebalanceLeaf (Suc d) T p brs = Inl NullPointer"
proof -
  note run = RebalanceLeaf_run [OF assms(1-3,5-8)]
  have right: "cr = [] \<or> (\<exists>q cr' res. cr = q # cr' \<and> heap T q = Some (Leaf res) \<and> 32 \<le> length res)"
    using leaves by (cases cr) auto
  have left: "cl = [] \<or> (\<exists>l cl' les. cl = cl' @ [l] \<and> heap T l = Some (Leaf les) \<and> 32 \<le> length les)"
    using leaves by (cases cl rule: rev_cases) auto
  consider (br) q cr' res where "cr = q # cr'" "heap T q = Some (Leaf res)" "32 < length res"
    | (bl) l cl' les where "cr = [] \<or> (\<exists>n. heap T (hd cr) = Some n \<and> node_count n \<le> 32)"
        "cl = cl' @ [l]" "heap T l = Some (Leaf les)" "32 < length les"
    | (mr) q cr' res where "cr = q # cr'" "heap T q = Some (Leaf res)" "length res \<le> 32"
        "cl = [] \<or> (\<exists>n'. heap T (last cl) = Some n' \<and> node_count n' \<le> 32)"
    | (ml) l cl' les where "cr = []" "cl = cl' @ [l]" "heap T l = Some (Leaf les)" "length les \<le> 32"
    using left right assms(9) by (metis Node.inject(1) last_snoc leI list.sel(1) node_count.simps(1))
  then show ?thesis
  proof cases
    case br
    have "nthE res 0 = Inr (res ! 0)" using br(3) by (intro nthE_Inr) auto
    with run(1) [of q cr' "Leaf res"] br assms(1,4) show ?thesis by (simp add: LeafBorrowRight_def)
  next
    case bl
    have "nthE les (length les - 1) = Inr (les ! (length les - 1))" using bl(4) by (intro nthE_Inr) auto
    with run(2) [of cl' l "Leaf les"] bl assms(1,4) show ?thesis by (simp add: LeafBorrowLeft_def)
  next
    case mr
    with run(3) [of q cr' "Leaf res"] assms(1,4) show ?thesis by (simp add: LeafMergeRight_def)
  next
    case ml
    with run(4) [of cl' l "Leaf les"] assms(1,4) show ?thesis by (simp add: LeafMergeLeft_def)
  qed
qed

context scalar_order
begin

lemma Delete_keyOnly:
  assumes "btree_inv ty K T" "key \<in> K" "GetPath T key = Inr path" "Match path" "keyOnly T"
    and "PathLeaf path \<noteq> root T" "node_width (heap T) (PathLeaf path) = 32"
  shows "Delete T path = Inl NullPointer"
proof -
  obtain D t where inv: "tree_inv ty K T D t" using assms(1) by (auto simp: btree_inv_def)
  obtain fs a l r m where pos: "position ty K key t fs a l r m" and
    path: "path = \<lparr>Branches = rev (path_of fs), PathLeaf = a, LeafIndex = length l, Match = m\<rparr>"
    using GetPath_position [OF inv assms(2)] assms(3) by auto
  obtain e r' where r: "r = e # r'" using pos path assms(4) by (auto simp: position_def)
  have t: "t = plug fs (GLeaf a (l @ e # r'))" "frames_ok fs" using pos r by (auto simp: position_def)
  have core: "tree_core ty K T D (plug fs (GLeaf a (l @ e # r')))" using inv t(1) by (simp add: tree_inv_def)
  note lf = leaf_focus [OF core t(2)]
  obtain F hs where fs: "fs = F # hs" using lf(5) assms(6) path by (cases fs) auto
  have l31: "length (l @ r') = 31" using assms(7) path lf(3) by (simp add: node_width_def)
  obtain h fs' where z: "zrep (T\<lparr>heap := h\<rparr>) fs' (GLeaf a (l @ r'))" and ref: "refresh (GLeaf a (l @ r')) fs fs'"
    and run: "Delete T path = bindE (RebalanceLeaf (Suc (length hs)) (T\<lparr>heap := h\<rparr>) a (rev (path_of fs))) (\<lambda>(T3, result).
      (let T4 = (case result of None \<Rightarrow> T3 | Some r \<Rightarrow> T3\<lparr>root := r\<rparr>)
       in Inr (T4\<lparr>treeCount := treeCount T4 - 1\<rparr>)))"
    using Delete_leaf [of ty K T D F hs a l e r' path] core t(2) path fs by auto
  obtain pp kl tsl kr tsr hs' where fs': "fs' = Frame pp kl tsl kr tsr # hs'" "length hs' = length hs"
    using refresh_simps(2,3) [OF ref] fs by (cases fs'; cases "hd fs'") auto
  have sh: "ctx_shape 64 D 0 fs'" using refresh_simps(4) [OF ref] lf(1,10) fs by simp
  have op: "on_path (rev (path_of fs)) fs'" using refresh_simps(1) [OF ref] by (auto simp: on_path_def)
  have at: "path_at (rev (path_of fs)) (length hs) = Inr (pp, length tsl)"
    using path_at_frame [of "rev (path_of fs)" "[]" pp kl tsl kr tsr hs'] fs' op by simp
  have "\<exists>es. h (addr_of t) = Some (Leaf es) \<and> 32 \<le> length es" if "t \<in> set tsl \<union> set tsr" for t
  proof -
    have "shape 64 0 t" "rep h t" using that sh zrepD(2) [OF z] fs'(1) by auto
    then show ?thesis by (elim shape_LeafE) auto
  qed
  then have "RebalanceLeaf (Suc (length hs)) (T\<lparr>heap := h\<rparr>) a (rev (path_of fs)) = Inl NullPointer"
    using zrepD(1,2) [OF z] l31 lf(10) fs assms(5) at sh fs'(1)
    by (intro RebalanceLeaf_keyOnly [where cl = "map addr_of tsl" and cr = "map addr_of tsr" and kl = kl and kr = kr and pp = pp])
      (auto split: if_splits)
  with run show ?thesis by simp
qed

end

text \<open>Merging a branch into its left sibling drops the pointer to its last child.\<close>

lemma BranchMergeLeft_result:
  assumes "heap T p = Some (Branch ks (c0 # cs))" "heap T q = Some (Branch lks lcs)"
    and "heap T pp = Some (Branch pks pcs)" "pIndex - 1 < length pks" "p \<noteq> q" "p \<noteq> pp" "q \<noteq> pp"
    and "GetChildKey (nextAddr T) (heap T) c0 = Inr k"
  shows "if length pks < listCapacity T - 1
    then \<exists>T'. BranchMergeLeft T p q pp pIndex = Inr T' \<and> heap T' p = None \<and>
      heap T' q = Some (Branch (lks @ k # ks) (lcs @ take (length ks) (c0 # cs)))
    else BranchMergeLeft T p q pp pIndex = Inl OutOfBounds"
  using assms by (auto simp: BranchMergeLeft_def BranchDelete_def)

section \<open>A tree of two half-full leaves\<close>

definition half_leaf :: "bool \<Rightarrow> nat \<Rightarrow> (64 word \<times> 64 word option) list" where
  "half_leaf ko i = map (\<lambda>n. (of_nat n, if ko then None else Some (of_nat n))) [i..<i + 32]"

definition two_leaf_tree :: "bool \<Rightarrow> (64 word, 64 word) BTree" where
  "two_leaf_tree ko = \<lparr>keyType = LongType, keyOnly = ko, root = 2,
     heap = [0 \<mapsto> Leaf (half_leaf ko 0), 1 \<mapsto> Leaf (half_leaf ko 32), 2 \<mapsto> Branch [32] [0, 1]],
     nextAddr = 3, treeCount = 64, listCapacity = 64\<rparr>"

lemma two_leaf_sint: "n < 64 \<Longrightarrow> sint (of_nat n :: 64 word) = int n"
proof -
  have "list_all (\<lambda>n. sint (of_nat n :: 64 word) = int n) [0..<64]" by code_simp
  then show "n < 64 \<Longrightarrow> ?thesis" by (simp only: list_all_iff set_upt Ball_def atLeastLessThan_iff) simp
qed

lemma two_leaf_order:
  "set (map (\<lambda>n. of_nat n :: 64 word) [0..<64]) \<subseteq> half_range"
  "sorted_wrt (\<lambda>a b. LongCompare a b < 0) (map of_nat [0..<64])"
proof -
  have K: "(of_nat n :: 64 word) \<in> half_range" if "n < 64" for n
    using two_leaf_sint [OF that] that by (simp add: half_range_def)
  then show "set (map (\<lambda>n. of_nat n :: 64 word) [0..<64]) \<subseteq> half_range"
    unfolding set_map set_upt by (auto simp only: image_iff atLeastLessThan_iff)
  show "sorted_wrt (\<lambda>a b. LongCompare a b < 0) (map of_nat [0..<64])"
    unfolding sorted_wrt_map
    by (rule sorted_wrt_mono_rel [OF _ sorted_wrt_upt])
      (simp only: set_upt atLeastLessThan_iff LongCompare_sgn [OF K K] two_leaf_sint, simp)
qed

lemma two_leaf_inorder:
  "ordered LongType half_range (map (Ent 0) (half_leaf ko 0) @ Sep 32 # map (Ent 1) (half_leaf ko 32))"
proof -
  let ?ks = "map (\<lambda>n. of_nat n :: 64 word) [0..<64]"
  have keys: "map fst (half_leaf ko i) = map of_nat [i..<i + 32]" for i
    by (simp add: half_leaf_def comp_def)
  have "[0..<64] = [0..<32] @ [32..<64 :: nat]" using upt_add_eq_append [of 0 32 32] by simp
  then have cut: "?ks = map fst (half_leaf ko 0) @ map fst (half_leaf ko 32)" unfolding keys by simp
  note K = two_leaf_order(1)
  obtain e es where e: "half_leaf ko 32 = e # es" "fst e = 32"
    by (simp add: half_leaf_def upt_conv_Cons)
  obtain f fs where f: "half_leaf ko 0 = fs @ [f]"
    by (cases "half_leaf ko 0" rule: rev_cases) (simp_all add: half_leaf_def)
  have "sorted_wrt (\<lambda>x y. before LongType half_range (Ent 0 (fst x, snd x)) (Ent 0 y)) (half_leaf ko 0 @ half_leaf ko 32)"
    if "sorted_wrt (\<lambda>a b. LongCompare a b < 0) (map fst (half_leaf ko 0 @ half_leaf ko 32))"
  proof (rule sorted_wrt_mono_rel)
    show "sorted_wrt (\<lambda>x y. LongCompare (fst x) (fst y) < 0) (half_leaf ko 0 @ half_leaf ko 32)"
      using that unfolding sorted_wrt_map .
    show "before LongType half_range (Ent 0 (fst x, snd x)) (Ent 0 y)"
      if "x \<in> set (half_leaf ko 0 @ half_leaf ko 32)" "y \<in> set (half_leaf ko 0 @ half_leaf ko 32)"
        "LongCompare (fst x) (fst y) < 0" for x y
    proof -
      have "fst z \<in> half_range" if "z \<in> set (half_leaf ko 0 @ half_leaf ko 32)" for z
        using that K [unfolded cut] by auto
      then show ?thesis using that by (simp add: before_simps LongType_def)
    qed
  qed
  then have "ordered LongType half_range (map (Ent 0) (half_leaf ko 0 @ half_leaf ko 32))"
    using two_leaf_order(2) K unfolding cut ordered_def map_append [symmetric] sorted_wrt_map
    by (simp add: image_Un image_image)
  then have "ordered LongType half_range (map (Ent 0) (half_leaf ko 0) @ map (Ent 1) (half_leaf ko 32))"
    using ordered_relabel [of LongType half_range "map (Ent 0) (half_leaf ko 0)" 0 "half_leaf ko 32" "[]" 1] by simp
  then have "ordered LongType half_range (map (Ent 0) fs @ Ent 0 f # Ent 1 e # map (Ent 1) es)" using e f by simp
  then show ?thesis using longT.ordered_separate [of "map (Ent 0) fs" 0 f 1 e "map (Ent 1) es"] e f by simp
qed

lemma length_half_leaf [simp]: "length (half_leaf ko i) = 32"
  by (simp add: half_leaf_def)

lemma two_leaf_inv: "btree_inv LongType half_range (two_leaf_tree ko)"
  unfolding btree_inv_def two_leaf_tree_def
  by (intro exI [of _ 1] exI [of _ "GBranch 2 [32] [GLeaf 0 (half_leaf ko 0), GLeaf 1 (half_leaf ko 32)]"])
    (use two_leaf_inorder [of ko] in \<open>simp add: tree_inv_def tree_core_def capacity_ok_def\<close>)

lemma two_leaf_path:
  "GetPath (two_leaf_tree True) 40 = Inr \<lparr>Branches = [(2, 1)], PathLeaf = 1, LeafIndex = 8, Match = True\<rparr>"
  "GetPath (two_leaf_tree False) 40 = Inr \<lparr>Branches = [(2, 1)], PathLeaf = 1, LeafIndex = 8, Match = True\<rparr>"
  by code_simp+

section \<open>Properties\<close>

text \<open>
  C2. Deletion: for a tree that satisfies the invariant and the path of a search that found
  the key, \<open>Delete\<close> succeeds, keeps the invariant and removes exactly the found entry,
  provided the deletion is safe: the leaf is the root, or it does not underflow, or the
  tree holds values (is not key-only), no branch of the path has to be repaired from its left
  sibling, and no full branch loses a child in a merge.
\<close>

theorem Delete_correct:
  assumes "scalar_order ty K" "btree_inv ty K T" "key \<in> K" "GetPath T key = Inr path" "Match path"
    and "delete_safe T path"
  shows "\<exists>T' xs e ys. Delete T path = Inr T' \<and> btree_inv ty K T' \<and> keyOnly T' = keyOnly T \<and>
    contents T = xs @ e # ys \<and> Compare ty key (fst e) = 0 \<and> contents T' = xs @ ys"
  using scalar_order.Delete_contents [OF assms] .

theorem Delete_correct_witness:
  "\<exists>path T' xs e ys. GetPath (two_leaf_tree False) 40 = Inr path \<and> Delete (two_leaf_tree False) path = Inr T' \<and>
     btree_inv LongType half_range T' \<and> contents (two_leaf_tree False) = xs @ e # ys \<and> contents T' = xs @ ys"
proof -
  let ?p = "\<lparr>Branches = [(2, 1)], PathLeaf = 1, LeafIndex = 8, Match = True\<rparr>"
  have "(40 :: 64 word) \<in> half_range" "Match ?p" by (simp_all add: half_range_def)
  moreover have "delete_safe (two_leaf_tree False) ?p" by code_simp
  ultimately show ?thesis
    using Delete_correct [OF longT.scalar_order_axioms two_leaf_inv _ two_leaf_path(2)] two_leaf_path(2) by blast
qed

text \<open>
  C8. Underflow of a key-only tree: deleting from a leaf below the root that holds 32 entries
  follows the null value pointer, whatever the siblings are.
\<close>

theorem Delete_keyOnly_underflow:
  assumes "scalar_order ty K" "btree_inv ty K T" "key \<in> K" "GetPath T key = Inr path" "Match path"
    and "keyOnly T" "PathLeaf path \<noteq> root T" "node_width (heap T) (PathLeaf path) = 32"
  shows "Delete T path = Inl NullPointer"
  using scalar_order.Delete_keyOnly [OF assms] .

theorem Delete_keyOnly_underflow_witness:
  "bindE (GetPath (two_leaf_tree True) 40) (Delete (two_leaf_tree True)) = Inl NullPointer"
proof -
  let ?p = "\<lparr>Branches = [(2, 1)], PathLeaf = 1, LeafIndex = 8, Match = True\<rparr>"
  have "(40 :: 64 word) \<in> half_range" by (simp add: half_range_def)
  moreover have "Match ?p" "keyOnly (two_leaf_tree True)" "PathLeaf ?p \<noteq> root (two_leaf_tree True)"
    "node_width (heap (two_leaf_tree True)) (PathLeaf ?p) = 32" by code_simp+
  ultimately have "Delete (two_leaf_tree True) ?p = Inl NullPointer"
    using Delete_keyOnly_underflow [OF longT.scalar_order_axioms two_leaf_inv _ two_leaf_path(1)] by blast
  with two_leaf_path(1) show ?thesis by simp
qed

text \<open>
  C9. Loss of a subtree: merging a branch into its left sibling produces a branch with one
  child pointer too few, and the pointer that is missing is the last child of the merged
  branch. Below a full parent the merge ends in a read behind the arrays of the parent.
\<close>

theorem BranchMergeLeft_loses_child:
  assumes "heap T p = Some (Branch ks (c0 # cs))" "length cs = length ks" "ks \<noteq> []"
    and "heap T q = Some (Branch lks lcs)" "length lcs = Suc (length lks)"
    and "heap T pp = Some (Branch pks pcs)" "pIndex - 1 < length pks" "p \<noteq> q" "p \<noteq> pp" "q \<noteq> pp"
    and "GetChildKey (nextAddr T) (heap T) c0 = Inr k" "distinct (lcs @ c0 # cs)"
  shows "if length pks < listCapacity T - 1
    then \<exists>T' ks' cs'. BranchMergeLeft T p q pp pIndex = Inr T' \<and> heap T' q = Some (Branch ks' cs') \<and>
      length cs' = length ks' \<and> last (c0 # cs) \<notin> set cs'
    else BranchMergeLeft T p q pp pIndex = Inl OutOfBounds"
proof (cases "length pks < listCapacity T - 1")
  case True
  then obtain T' where T': "BranchMergeLeft T p q pp pIndex = Inr T'"
    "heap T' q = Some (Branch (lks @ k # ks) (lcs @ take (length ks) (c0 # cs)))"
    using BranchMergeLeft_result [OF assms(1,4,6,7,8,9,10,11)] by auto
  obtain cs1 c where c: "c0 # cs = cs1 @ [c]" "length cs1 = length ks"
    using assms(2) by (cases "c0 # cs" rule: rev_cases) (auto dest: arg_cong [of _ _ length])
  then have "last (c0 # cs) \<notin> set (lcs @ take (length ks) (c0 # cs))" using assms(12) by auto
  with T' True assms(2,5) show ?thesis by auto
qed (use BranchMergeLeft_result [OF assms(1,4,6,7,8,9,10,11)] in simp)

theorem BranchMergeLeft_loses_child_witness:
  "\<exists>T' ks cs. BranchMergeLeft
     \<lparr>keyType = LongType, keyOnly = False, root = 0,
      heap = [0 \<mapsto> Branch [10 :: 64 word] [1, 2], 1 \<mapsto> Branch [5] [3, 4], 2 \<mapsto> Branch [15] [5, 6],
        3 \<mapsto> Leaf [(1, Some (1 :: 64 word))], 4 \<mapsto> Leaf [(5, Some 5)], 5 \<mapsto> Leaf [(10, Some 10)], 6 \<mapsto> Leaf [(15, Some 15)]],
      nextAddr = 7, treeCount = 4, listCapacity = 64\<rparr> 2 1 0 1 = Inr T' \<and>
     heap T' 1 = Some (Branch ks cs) \<and> length cs = length ks \<and> 6 \<notin> set cs"
proof -
  let ?T = "\<lparr>keyType = LongType, keyOnly = False, root = 0,
      heap = [0 \<mapsto> Branch [10 :: 64 word] [1, 2], 1 \<mapsto> Branch [5] [3, 4], 2 \<mapsto> Branch [15] [5, 6],
        3 \<mapsto> Leaf [(1, Some (1 :: 64 word))], 4 \<mapsto> Leaf [(5, Some 5)], 5 \<mapsto> Leaf [(10, Some 10)], 6 \<mapsto> Leaf [(15, Some 15)]],
      nextAddr = 7, treeCount = 4, listCapacity = 64\<rparr>"
  have "GetChildKey (nextAddr ?T) (heap ?T) 5 = Inr 10" by code_simp
  then show ?thesis
    using BranchMergeLeft_loses_child [of ?T 2 "[15]" 5 "[6]" 1 "[5]" "[3, 4]" 0 "[10]" "[1, 2]" 1 10] by simp
qed

end
