(* ===== verification/BTree_Iter.thy ===== *)
theory BTree_Iter
  imports BTree_Delete
begin

text \<open>
  Iterators of the B-tree as positions in the list of entries: \<open>begin\<close> is position 0,
  \<open>end\<close> the number of entries, \<open>++\<close> and \<open>--\<close> move by one and throw past the ends,
  \<open>*\<close> reads the entry at the position, equality of iterators is equality of positions.
\<close>

section \<open>Leftmost and rightmost descent\<close>

lemma SeekToFirst_rep:
  assumes "rep h t" "shape cap d t \<or> rshape cap d t" "d < fuel"
  shows "\<exists>gs a es. t = plug gs (GLeaf a es) \<and> frames_ok gs \<and> lefts gs = [] \<and> length gs = d \<and>
    SeekToFirst fuel h (addr_of t) brs =
      Inr \<lparr>Branches = brs @ rev (path_of gs), PathLeaf = a, LeafIndex = 0, Match = False\<rparr>"
  using assms
proof (induction t arbitrary: d fuel brs)
  case (GLeaf a es)
  then obtain f where "fuel = Suc f" by (cases fuel) auto
  with GLeaf show ?case
    by (intro exI [of _ "[]"] exI [of _ a] exI [of _ es]) (auto simp: shape_GLeaf rshape_GLeaf)
next
  case (GBranch a ks ts)
  obtain d' where d: "d = Suc d'" "length ts = Suc (length ks)" "\<forall>t\<in>set ts. shape cap d' t"
    using GBranch.prems(2) by (auto simp: shape_GBranch rshape_GBranch)
  obtain f where f: "fuel = Suc f" "d' < f" using GBranch.prems d by (cases fuel) auto
  obtain t ts' where ts: "ts = t # ts'" "length ts' = length ks" using d(2) by (cases ts) auto
  obtain gs b es where g: "t = plug gs (GLeaf b es)" "frames_ok gs" "lefts gs = []" "length gs = d'"
    "SeekToFirst f h (addr_of t) (brs @ [(a, 0)]) =
      Inr \<lparr>Branches = (brs @ [(a, 0)]) @ rev (path_of gs), PathLeaf = b, LeafIndex = 0, Match = False\<rparr>"
    using GBranch.IH [of t d' f "brs @ [(a, 0)]"] GBranch.prems(1) d ts f by auto
  show ?case using g ts d f GBranch.prems(1)
    by (intro exI [of _ "gs @ [Frame a [] [] ks ts']"] exI [of _ b] exI [of _ es]) (auto simp: plug_append)
qed

lemma SeekToLast_rep:
  assumes "rep h t" "shape cap d t \<or> rshape cap d t" "d < fuel"
  shows "\<exists>gs a es. t = plug gs (GLeaf a es) \<and> frames_ok gs \<and> rights gs = [] \<and> length gs = d \<and>
    SeekToLast fuel h (addr_of t) brs =
      Inr \<lparr>Branches = brs @ rev (path_of gs), PathLeaf = a, LeafIndex = length es - 1, Match = False\<rparr>"
  using assms
proof (induction t arbitrary: d fuel brs)
  case (GLeaf a es)
  then obtain f where "fuel = Suc f" by (cases fuel) auto
  with GLeaf show ?case
    by (intro exI [of _ "[]"] exI [of _ a] exI [of _ es]) (auto simp: shape_GLeaf rshape_GLeaf)
next
  case (GBranch a ks ts)
  obtain d' where d: "d = Suc d'" "length ts = Suc (length ks)" "\<forall>t\<in>set ts. shape cap d' t"
    using GBranch.prems(2) by (auto simp: shape_GBranch rshape_GBranch)
  obtain f where f: "fuel = Suc f" "d' < f" using GBranch.prems d by (cases fuel) auto
  obtain t ts' where ts: "ts = ts' @ [t]" "length ts' = length ks" using d(2) by (cases ts rule: rev_cases) auto
  obtain gs b es where g: "t = plug gs (GLeaf b es)" "frames_ok gs" "rights gs = []" "length gs = d'"
    "SeekToLast f h (addr_of t) (brs @ [(a, length ks)]) =
      Inr \<lparr>Branches = (brs @ [(a, length ks)]) @ rev (path_of gs), PathLeaf = b, LeafIndex = length es - 1, Match = False\<rparr>"
    using GBranch.IH [of t d' f "brs @ [(a, length ks)]"] GBranch.prems(1) d ts f by auto
  have "child (map addr_of ts) (length ks) = Inr (addr_of t)" using ts by (simp add: child_def nth_append)
  then show ?case using g ts d f GBranch.prems(1)
    by (intro exI [of _ "gs @ [Frame a ks ts' [] []]"] exI [of _ b] exI [of _ es]) (auto simp: plug_append)
qed

section \<open>Positions\<close>

definition iter_at :: "('k, 'v) gtree \<Rightarrow> nat \<Rightarrow> iter \<Rightarrow> bool" where
  "iter_at t n it \<longleftrightarrow> (\<exists>fs a l r. t = plug fs (GLeaf a (l @ r)) \<and> frames_ok fs \<and>
     Branches (itPath it) = rev (path_of fs) \<and> PathLeaf (itPath it) = a \<and> LeafIndex (itPath it) = length l \<and>
     n = length (ents (lefts fs)) + length l \<and> eof it = (r = []) \<and> (r = [] \<longrightarrow> rights fs = []))"

lemma iter_atI:
  assumes "t = plug fs (GLeaf a (l @ r))" "frames_ok fs" "n = length (ents (lefts fs)) + length l"
    and "r = [] \<Longrightarrow> rights fs = []"
  shows "iter_at t n \<lparr>itPath = \<lparr>Branches = rev (path_of fs), PathLeaf = a, LeafIndex = length l, Match = m\<rparr>, eof = (r = [])\<rparr>"
  unfolding iter_at_def using assms by (intro exI [of _ fs] exI [of _ a] exI [of _ l] exI [of _ r]) simp

lemma iter_at_bound: "iter_at t n it \<Longrightarrow> n \<le> length (ents (inorder t)) \<and> (eof it \<longleftrightarrow> n = length (ents (inorder t)))"
  by (auto simp: iter_at_def inorder_plug)

subsection \<open>Begin and end\<close>

lemma new_iterator_last:
  assumes "heap T a = Some (Leaf es)" "PathLeaf path = a" "LeafIndex path = length es" "\<not> Match path"
    and "Branches path = [] \<or>
      (\<exists>n. heap T (fst (last (Branches path))) = Some n \<and> node_count n \<le> snd (last (Branches path)))"
  shows "new_iterator T path = Inr \<lparr>itPath = path, eof = True\<rparr>"
  using assms by (cases "Branches path = []") (auto simp: new_iterator_def Let_def)

lemma new_iterator_entry:
  assumes "heap T a = Some (Leaf es)" "PathLeaf path = a" "LeafIndex path < length es"
  shows "new_iterator T path = Inr \<lparr>itPath = path, eof = False\<rparr>"
  using assms by (auto simp: new_iterator_def Let_def)

lemma last_path_of:
  "fs \<noteq> [] \<Longrightarrow> last (rev (path_of fs)) = hd (path_of fs)"
  by (simp add: last_rev)

lemma inv_leaf:
  assumes "tree_inv ty K T D (plug fs (GLeaf a es))"
  shows "heap T a = Some (Leaf es)"
  using assms by (simp add: tree_inv_def tree_core_def rep_plug)

lemma inv_leaf_nonempty:
  assumes "tree_inv ty K T D (plug fs (GLeaf a es))" "frames_ok fs" "fs \<noteq> []"
  shows "es \<noteq> []"
  using leaf_focus(2,10) [of ty K T D fs a es] assms by (auto simp: tree_inv_def focus_shape_def)

lemma rights_Nil_last:
  assumes "tree_inv ty K T D (plug fs (GLeaf a es))" "frames_ok fs" "fs \<noteq> []" "rights fs = []"
  shows "\<exists>n. heap T (fst (last (rev (path_of fs)))) = Some n \<and> node_count n \<le> snd (last (rev (path_of fs)))"
proof -
  obtain p kl tsl kr tsr fs' where fs: "fs = Frame p kl tsl kr tsr # fs'" by (cases fs; cases "hd fs") (use assms(3) in auto)
  have "kr = []" using assms(2,4) fs by (cases kr; cases tsr) auto
  moreover have "heap T p = Some (Branch (kl @ kr) (map addr_of tsl @ a # map addr_of tsr))"
    using assms(1) fs by (simp add: tree_inv_def tree_core_def rep_plug)
  ultimately show ?thesis using assms(2) fs by (simp add: last_path_of)
qed

lemma iter_begin_at:
  assumes "tree_inv ty K T D t"
  shows "\<exists>it. iter_begin T = Inr it \<and> iter_at t 0 it"
proof -
  note c = assms [unfolded tree_inv_def tree_core_def]
  obtain gs a es where g: "t = plug gs (GLeaf a es)" "frames_ok gs" "lefts gs = []"
    "SeekToBegin T = Inr \<lparr>Branches = rev (path_of gs), PathLeaf = a, LeafIndex = 0, Match = False\<rparr>"
    using SeekToFirst_rep [of "heap T" t "listCapacity T" D "nextAddr T" "[]"] c tree_inv_height [OF assms]
    by (auto simp: SeekToBegin_def)
  have h: "heap T a = Some (Leaf es)" using inv_leaf assms g(1) by blast
  show ?thesis
  proof (cases es)
    case Nil
    then have "gs = []" using inv_leaf_nonempty [of ty K T D gs a es] assms g by auto
    then have "iter_at t 0 \<lparr>itPath = \<lparr>Branches = [], PathLeaf = a, LeafIndex = 0, Match = False\<rparr>, eof = True\<rparr>"
      using iter_atI [of t "[]" a "[]" "[]" 0 False] g(1) Nil by simp
    with \<open>gs = []\<close> Nil g h show ?thesis by (auto simp: iter_begin_def new_iterator_last)
  next
    case (Cons e es')
    have "iter_at t 0 \<lparr>itPath = \<lparr>Branches = rev (path_of gs), PathLeaf = a, LeafIndex = 0, Match = False\<rparr>, eof = False\<rparr>"
      unfolding iter_at_def using g Cons
      by (intro exI [of _ gs] exI [of _ a] exI [of _ "[]"] exI [of _ es]) simp
    with g h Cons show ?thesis by (auto simp: iter_begin_def new_iterator_entry)
  qed
qed

lemma iter_end_at:
  assumes "tree_inv ty K T D t"
  shows "\<exists>it. iter_end T = Inr it \<and> iter_at t (length (ents (inorder t))) it"
proof -
  note c = assms [unfolded tree_inv_def tree_core_def]
  obtain gs a es where g: "t = plug gs (GLeaf a es)" "frames_ok gs" "rights gs = []"
    "SeekToLast (nextAddr T) (heap T) (root T) [] =
      Inr \<lparr>Branches = rev (path_of gs), PathLeaf = a, LeafIndex = length es - 1, Match = False\<rparr>"
    using SeekToLast_rep [of "heap T" t "listCapacity T" D "nextAddr T" "[]"] c tree_inv_height [OF assms] by auto
  have h: "heap T a = Some (Leaf es)" using inv_leaf assms g(1) by blast
  let ?p = "\<lparr>Branches = rev (path_of gs), PathLeaf = a, LeafIndex = length es, Match = False\<rparr>"
  have "SeekToEnd T = Inr ?p" using g(4) h by (simp add: SeekToEnd_def)
  moreover have "new_iterator T ?p = Inr \<lparr>itPath = ?p, eof = True\<rparr>"
  proof (rule new_iterator_last [OF h])
    show "Branches ?p = [] \<or> (\<exists>n. heap T (fst (last (Branches ?p))) = Some n \<and> node_count n \<le> snd (last (Branches ?p)))"
      using rights_Nil_last [of ty K T D gs a es] assms g by (cases "gs = []") auto
  qed simp_all
  moreover have "iter_at t (length (ents (inorder t))) \<lparr>itPath = ?p, eof = True\<rparr>"
    unfolding iter_at_def using g
    by (intro exI [of _ gs] exI [of _ a] exI [of _ es] exI [of _ "[]"]) (simp add: inorder_plug)
  ultimately show ?thesis by (auto simp: iter_end_def)
qed

subsection \<open>Moving\<close>

text \<open>The branches a move to the next entry leaves behind are those at their last child.\<close>

lemma pop_maxed_path:
  assumes "rep_ctx h fs p" "frames_ok fs"
  shows "(rights fs = [] \<longrightarrow> pop_maxed h (path_of fs) = Inr []) \<and>
    (rights fs \<noteq> [] \<longrightarrow> (\<exists>gs q kl tsl k kr t tsr hs. fs = gs @ Frame q kl tsl (k # kr) (t # tsr) # hs \<and>
       rights gs = [] \<and> pop_maxed h (path_of fs) = Inr ((q, length tsl) # path_of hs)))"
  using assms
proof (induction fs arbitrary: p)
  case (Cons f fs)
  obtain q kl tsl kr tsr where f: "f = Frame q kl tsl kr tsr" by (cases f)
  have h: "h q = Some (Branch (kl @ kr) (map addr_of tsl @ p # map addr_of tsr))" "rep_ctx h fs q"
    "length kl = length tsl" "length kr = length tsr" "frames_ok fs"
    using Cons.prems f by auto
  show ?case
  proof (cases kr)
    case Nil
    then have same: "tsr = []" "pop_maxed h (path_of (f # fs)) = pop_maxed h (path_of fs)" "rights (f # gs) = rights gs" for gs
      using h f by auto
    show ?thesis
    proof (cases "rights fs = []")
      case True
      with same Cons.IH [OF h(2,5)] show ?thesis by simp
    next
      case False
      then obtain gs q' kl' tsl' k kr' t tsr' hs where g: "fs = gs @ Frame q' kl' tsl' (k # kr') (t # tsr') # hs"
        "rights gs = []" "pop_maxed h (path_of fs) = Inr ((q', length tsl') # path_of hs)"
        using Cons.IH [OF h(2,5)] by blast
      have "f # fs = (f # gs) @ Frame q' kl' tsl' (k # kr') (t # tsr') # hs" "rights (f # gs) = []"
        "pop_maxed h (path_of (f # fs)) = Inr ((q', length tsl') # path_of hs)" "rights (f # fs) \<noteq> []"
        using g same False by simp_all
      then show ?thesis by blast
    qed
  next
    case (Cons k kr')
    then obtain t tsr' where "tsr = t # tsr'" using h(4) by (cases tsr) auto
    with Cons h f have "f # fs = [] @ Frame q kl tsl (k # kr') (t # tsr') # fs" "rights [] = []"
      "pop_maxed h (path_of (f # fs)) = Inr ((q, length tsl) # path_of fs)" "rights (f # fs) \<noteq> []"
      by simp_all
    then show ?thesis by blast
  qed
qed simp

lemma pop_min_path:
  assumes "frames_ok fs"
  shows "(lefts fs = [] \<longrightarrow> pop_min (path_of fs) = []) \<and>
    (lefts fs \<noteq> [] \<longrightarrow> (\<exists>gs q kl k tsl t kr tsr hs. fs = gs @ Frame q (kl @ [k]) (tsl @ [t]) kr tsr # hs \<and>
       lefts gs = [] \<and> length kl = length tsl \<and> pop_min (path_of fs) = (q, Suc (length tsl)) # path_of hs))"
  using assms
proof (induction fs)
  case (Cons f fs)
  obtain q kl tsl kr tsr where f: "f = Frame q kl tsl kr tsr" by (cases f)
  have h: "length kl = length tsl" "frames_ok fs" using Cons.prems f by auto
  show ?case
  proof (cases tsl rule: rev_cases)
    case Nil
    then have same: "kl = []" "pop_min (path_of (f # fs)) = pop_min (path_of fs)" "lefts (f # gs) = lefts gs" for gs
      using h f by auto
    show ?thesis
    proof (cases "lefts fs = []")
      case True
      with same Cons.IH [OF h(2)] show ?thesis by simp
    next
      case False
      then obtain gs q' kl' k tsl' t kr' tsr' hs where g: "fs = gs @ Frame q' (kl' @ [k]) (tsl' @ [t]) kr' tsr' # hs"
        "lefts gs = []" "length kl' = length tsl'" "pop_min (path_of fs) = (q', Suc (length tsl')) # path_of hs"
        using Cons.IH [OF h(2)] by blast
      have "f # fs = (f # gs) @ Frame q' (kl' @ [k]) (tsl' @ [t]) kr' tsr' # hs" "lefts (f # gs) = []"
        "pop_min (path_of (f # fs)) = (q', Suc (length tsl')) # path_of hs" "lefts (f # fs) \<noteq> []"
        using g same False by simp_all
      with g(3) show ?thesis by blast
    qed
  next
    case (snoc tsl' t)
    then obtain kl' k where "kl = kl' @ [k]" using h(1) by (cases kl rule: rev_cases) auto
    with snoc h f have "f # fs = [] @ Frame q (kl' @ [k]) (tsl' @ [t]) kr tsr # fs" "lefts [] = []"
      "length kl' = length tsl'" "pop_min (path_of (f # fs)) = (q, Suc (length tsl')) # path_of fs" "lefts (f # fs) \<noteq> []"
      by simp_all
    then show ?thesis by blast
  qed
qed simp

lemma inv_ctx:
  assumes "tree_inv ty K T D (plug fs t)" "frames_ok fs"
  shows "rep_ctx (heap T) fs (addr_of t)" "rep (heap T) t"
    "\<exists>d. D = d + length fs \<and> ctx_shape (listCapacity T) D d fs"
  using assms frames_shape [of "listCapacity T" D fs t] by (auto simp: tree_inv_def tree_core_def rep_plug)

lemma ctx_shape_le: "ctx_shape cap D d fs \<Longrightarrow> D = d + length fs"
  by (induction cap D d fs rule: ctx_shape.induct) auto

lemma ctx_shape_suffix: "ctx_shape cap D d (gs @ hs) \<Longrightarrow> ctx_shape cap D (d + length gs) hs"
  by (induction cap D d gs rule: ctx_shape.induct) auto

text \<open>A move from the last entry of a leaf, or from behind it, to the next leaf.\<close>

lemma MoveNext_leaf:
  assumes inv: "tree_inv ty K T D t" and p: "t = plug fs (GLeaf a es)" "frames_ok fs" "rights fs \<noteq> []"
    and it: "Branches (itPath it) = rev (path_of fs)" "PathLeaf (itPath it) = a" "\<not> eof it"
    and at_end: "int (length es) - 1 \<le> int (LeafIndex (itPath it))"
  shows "\<exists>it'. MoveNext T it = Inr it' \<and> iter_at t (length (ents (lefts fs)) + length es) it' \<and> \<not> eof it'"
proof -
  have h: "heap T a = Some (Leaf es)" using inv_leaf inv p(1) by blast
  note c = inv_ctx [OF inv [unfolded p(1)] p(2)]
  obtain gs q kl tsl k kr t' tsr hs where g: "fs = gs @ Frame q kl tsl (k # kr) (t' # tsr) # hs" "rights gs = []"
    "pop_maxed (heap T) (path_of fs) = Inr ((q, length tsl) # path_of hs)"
    using pop_maxed_path [OF c(1) p(2)] p(3) by blast
  have ok: "length kl = length tsl" "length kr = length tsr" "frames_ok gs" "frames_ok hs" using p(2) g(1) by simp_all
  let ?u = "plug gs (GLeaf a es)" and ?F = "Frame q (kl @ [k]) (tsl @ [plug gs (GLeaf a es)]) kr tsr"
  have t: "t = plug (?F # hs) t'" using p(1) g(1) by (simp add: plug_append)
  obtain d where d: "ctx_shape (listCapacity T) D d fs" using c(3) by blast
  have sh: "shape (listCapacity T) (d + length gs) t'" using ctx_shape_suffix [OF d [unfolded g(1)]] by simp
  have lt: "d + length gs < nextAddr T" using ctx_shape_le [OF d] tree_inv_height [OF inv] g(1) by simp
  have hq: "heap T q = Some (Branch (kl @ k # kr) (map addr_of tsl @ addr_of ?u # addr_of t' # map addr_of tsr))"
    "rep (heap T) t'"
    using inv t by (auto simp: tree_inv_def tree_core_def rep_plug)
  obtain fs' a' es' where s: "t' = plug fs' (GLeaf a' es')" "frames_ok fs'" "lefts fs' = []"
    "SeekToFirst (nextAddr T) (heap T) (addr_of t') (rev (path_of hs) @ [(q, length tsl + 1)]) =
      Inr \<lparr>Branches = (rev (path_of hs) @ [(q, length tsl + 1)]) @ rev (path_of fs'), PathLeaf = a', LeafIndex = 0, Match = False\<rparr>"
    using SeekToFirst_rep [OF hq(2) disjI1 [OF sh] lt] by blast
  let ?fs = "fs' @ ?F # hs" and ?n = "length (ents (lefts fs)) + length es"
  have t2: "t = plug ?fs (GLeaf a' ([] @ es'))" using t s(1) by (simp add: plug_append)
  have ok2: "frames_ok ?fs" using ok s(2) by simp
  have ne: "es' \<noteq> []" using inv_leaf_nonempty [of ty K T D ?fs a' es'] inv t2 ok2 by simp
  have "?n = length (ents (lefts ?fs))" using g(1,2) s(3) ok by (simp add: inorder_plug)
  then have "iter_at t ?n \<lparr>itPath = \<lparr>Branches = rev (path_of ?fs), PathLeaf = a', LeafIndex = 0, Match = False\<rparr>, eof = False\<rparr>"
    using iter_atI [OF t2 ok2, of ?n False] ne by simp
  moreover have "MoveNext T it = Inr \<lparr>itPath = \<lparr>Branches = rev (path_of ?fs), PathLeaf = a', LeafIndex = 0, Match = False\<rparr>, eof = False\<rparr>"
    using h it at_end g(3) hq(1) s(4) by (simp add: MoveNext_def Let_def child_def nth_append)
  ultimately show ?thesis by auto
qed

lemma MoveNext_at:
  assumes inv: "tree_inv ty K T D t" and at: "iter_at t n it" and n: "n < length (ents (inorder t))"
  shows "\<exists>it'. MoveNext T it = Inr it' \<and> iter_at t (Suc n) it'"
proof -
  obtain fs a l r where p: "t = plug fs (GLeaf a (l @ r))" "frames_ok fs"
    "Branches (itPath it) = rev (path_of fs)" "PathLeaf (itPath it) = a" "LeafIndex (itPath it) = length l"
    "n = length (ents (lefts fs)) + length l" "eof it = (r = [])" "r = [] \<longrightarrow> rights fs = []"
    using at unfolding iter_at_def by blast
  obtain e r' where r: "r = e # r'" using p n by (cases r) (auto simp: inorder_plug)
  have h: "heap T a = Some (Leaf (l @ r))" using inv_leaf inv p(1) by blast
  consider (inside) "r' \<noteq> []" | (last) "r' = []" "rights fs = []" | (onward) "r' = []" "rights fs \<noteq> []" by blast
  then show ?thesis
  proof cases
    case inside
    have "MoveNext T it = Inr (it\<lparr>itPath := (itPath it)\<lparr>LeafIndex := length l + 1\<rparr>\<rparr>)"
      using h p r inside by (cases r') (simp_all add: MoveNext_def Let_def)
    moreover have "iter_at t (Suc n) (it\<lparr>itPath := (itPath it)\<lparr>LeafIndex := length l + 1\<rparr>\<rparr>)"
      unfolding iter_at_def using p r inside by (intro exI [of _ fs] exI [of _ a] exI [of _ "l @ [e]"] exI [of _ r']) simp
    ultimately show ?thesis by blast
  next
    case last
    have "rep_ctx (heap T) fs a" using inv_ctx(1) [OF inv [unfolded p(1)] p(2)] by simp
    then have "MoveNext T it = Inr \<lparr>itPath = (itPath it)\<lparr>LeafIndex := length (l @ [e])\<rparr>, eof = True\<rparr>"
      using pop_maxed_path [OF _ p(2)] h p r last by (simp add: MoveNext_def Let_def)
    moreover have "iter_at t (Suc n) \<lparr>itPath = (itPath it)\<lparr>LeafIndex := length (l @ [e])\<rparr>, eof = True\<rparr>"
      unfolding iter_at_def using p r last
      by (intro exI [of _ fs] exI [of _ a] exI [of _ "l @ [e]"] exI [of _ "[]"]) simp
    ultimately show ?thesis by blast
  next
    case onward
    then show ?thesis using MoveNext_leaf [OF inv p(1,2) _ p(3,4)] p(5-7) r by auto
  qed
qed

lemma MoveNext_end: "iter_at t (length (ents (inorder t))) it \<Longrightarrow> MoveNext T it = Inl (Throw ''Iteration past end of tree'')"
  using iter_at_bound by (auto simp: MoveNext_def)

lemma MovePrior_at:
  assumes inv: "tree_inv ty K T D t" and at: "iter_at t (Suc n) it"
  shows "\<exists>it'. MovePrior T it = Inr it' \<and> iter_at t n it'"
proof -
  obtain fs a l r where p: "t = plug fs (GLeaf a (l @ r))" "frames_ok fs"
    "Branches (itPath it) = rev (path_of fs)" "PathLeaf (itPath it) = a" "LeafIndex (itPath it) = length l"
    "Suc n = length (ents (lefts fs)) + length l" "eof it = (r = [])" "r = [] \<longrightarrow> rights fs = []"
    using at unfolding iter_at_def by blast
  show ?thesis
  proof (cases l rule: rev_cases)
    case (snoc l' e)
    have "MovePrior T it = Inr \<lparr>itPath = (itPath it)\<lparr>LeafIndex := length l'\<rparr>, eof = False\<rparr>"
      using p(5) snoc by (simp add: MovePrior_def Let_def)
    moreover have "iter_at t n \<lparr>itPath = (itPath it)\<lparr>LeafIndex := length l'\<rparr>, eof = False\<rparr>"
      unfolding iter_at_def using p snoc
      by (intro exI [of _ fs] exI [of _ a] exI [of _ l'] exI [of _ "e # r"]) simp
    ultimately show ?thesis by blast
  next
    case Nil
    then have "lefts fs \<noteq> []" using p(6) by auto
    then obtain gs q kl k tsl t' kr tsr hs where g: "fs = gs @ Frame q (kl @ [k]) (tsl @ [t']) kr tsr # hs"
      "lefts gs = []" "length kl = length tsl" "pop_min (path_of fs) = (q, Suc (length tsl)) # path_of hs"
      using pop_min_path [OF p(2)] by blast
    have ok: "length kr = length tsr" "frames_ok gs" "frames_ok hs" using p(2) g(1) by simp_all
    let ?u = "plug gs (GLeaf a (l @ r))" and ?F = "Frame q kl tsl (k # kr) (plug gs (GLeaf a (l @ r)) # tsr)"
    have t: "t = plug (?F # hs) t'" using p(1) g(1) by (simp add: plug_append)
    note c = inv_ctx [OF inv [unfolded p(1)] p(2)]
    obtain d where d: "ctx_shape (listCapacity T) D d fs" using c(3) by blast
    have sh: "shape (listCapacity T) (d + length gs) t'" using ctx_shape_suffix [OF d [unfolded g(1)]] by simp
    have lt: "d + length gs < nextAddr T" using ctx_shape_le [OF d] tree_inv_height [OF inv] g(1) by simp
    have hq: "heap T q = Some (Branch (kl @ k # kr) (map addr_of tsl @ addr_of t' # addr_of ?u # map addr_of tsr))"
      "rep (heap T) t'"
      using inv t by (auto simp: tree_inv_def tree_core_def rep_plug)
    obtain fs' a' es' where s: "t' = plug fs' (GLeaf a' es')" "frames_ok fs'" "rights fs' = []"
      "SeekToLast (nextAddr T) (heap T) (addr_of t') (rev (path_of hs) @ [(q, length tsl)]) =
        Inr \<lparr>Branches = (rev (path_of hs) @ [(q, length tsl)]) @ rev (path_of fs'), PathLeaf = a', LeafIndex = length es' - 1, Match = False\<rparr>"
      using SeekToLast_rep [OF hq(2) disjI1 [OF sh] lt] by blast
    let ?fs = "fs' @ ?F # hs"
    have ok2: "frames_ok ?fs" using ok g(3) s(2) by simp
    have ne: "es' \<noteq> []" using inv_leaf_nonempty [of ty K T D ?fs a' es'] inv t s(1) ok2 by (simp add: plug_append)
    then obtain es'' e where es: "es' = es'' @ [e]" by (cases es' rule: rev_cases) auto
    have t2: "t = plug ?fs (GLeaf a' (es'' @ [e]))" using t s(1) es by (simp add: plug_append)
    have "n = length (ents (lefts ?fs)) + length es''"
      using p(6) g(1-3) s(2,3) Nil es by (simp add: s(1) inorder_plug)
    then have "iter_at t n \<lparr>itPath = \<lparr>Branches = rev (path_of ?fs), PathLeaf = a', LeafIndex = length es'', Match = False\<rparr>, eof = ([e] = [])\<rparr>"
      using iter_atI [OF t2 ok2, of n False] by blast
    moreover have "MovePrior T it = Inr \<lparr>itPath = \<lparr>Branches = rev (path_of ?fs), PathLeaf = a', LeafIndex = length es'', Match = False\<rparr>, eof = False\<rparr>"
      using p(3-5) Nil g(4) hq(1) s(4) es by (simp add: MovePrior_def Let_def child_def nth_append)
    ultimately show ?thesis by auto
  qed
qed

lemma MovePrior_start:
  assumes "tree_inv ty K T D t" "iter_at t 0 it"
  shows "MovePrior T it = Inl (Throw ''Iteration past start of tree'')"
proof -
  obtain fs a l r where p: "t = plug fs (GLeaf a (l @ r))" "frames_ok fs"
    "Branches (itPath it) = rev (path_of fs)" "LeafIndex (itPath it) = length l"
    "ents (lefts fs) = []" "l = []"
    using assms(2) unfolding iter_at_def by auto
  have "lefts fs = []"
  proof (rule ccontr)
    assume "lefts fs \<noteq> []"
    then obtain gs q kl k tsl t' kr tsr hs where g: "fs = gs @ Frame q (kl @ [k]) (tsl @ [t']) kr tsr # hs" "length kl = length tsl"
      using pop_min_path [OF p(2)] by blast
    obtain d where "ctx_shape (listCapacity T) D d fs" using inv_ctx(3) assms(1) p(1,2) by blast
    then have "shape (listCapacity T) (d + length gs) t'" using ctx_shape_suffix g(1) by fastforce
    moreover have "listCapacity T = 64"
      using leaf_focus(10) [of ty K T D fs a "l @ r"] assms(1) p(1,2) g(1) by (simp add: tree_inv_def)
    ultimately obtain b e xs where "inorder t' = Ent b e # xs" using shape_first by metis
    with p(5) g show False by simp
  qed
  then have "pop_min (path_of fs) = []" using pop_min_path [OF p(2)] by blast
  with p show ?thesis by (simp add: MovePrior_def Let_def)
qed

subsection \<open>Reading and comparing\<close>

lemma iter_get_at:
  assumes inv: "tree_inv ty K T D t" and at: "iter_at t n it"
  shows "iter_get T it = (if n < length (ents (inorder t)) then Inr (ents (inorder t) ! n)
    else Inl (Throw ''Iterator not dereferenceable''))"
proof -
  obtain fs a l r where p: "t = plug fs (GLeaf a (l @ r))" "frames_ok fs"
    "PathLeaf (itPath it) = a" "LeafIndex (itPath it) = length l"
    "n = length (ents (lefts fs)) + length l" "r = [] \<longrightarrow> rights fs = []"
    using at unfolding iter_at_def by blast
  have h: "heap T a = Some (Leaf (l @ r))" using inv_leaf inv p(1) by blast
  show ?thesis
  proof (cases r)
    case Nil
    with h p show ?thesis by (simp add: iter_get_def inorder_plug)
  next
    case (Cons e r')
    with h p show ?thesis by (simp add: iter_get_def inorder_plug nth_append)
  qed
qed

text \<open>The first position of a leaf is determined by its address.\<close>

lemma locs_addrs: "(b, e) \<in> set (locs (inorder t)) \<Longrightarrow> b \<in> set (addrs t)"
proof (induction t)
  case (GBranch a ks ts)
  have "set (locs (weaveR ks xs)) \<subseteq> (\<Union>x\<in>set xs. set (locs x))" for ks and xs :: "('a, 'b) item list list"
    by (induction ks xs rule: weaveR.induct) auto
  then have "set (locs (weave ks xs)) \<subseteq> (\<Union>x\<in>set xs. set (locs x))" for ks and xs :: "('a, 'b) item list list"
    by (cases xs) fastforce+
  with GBranch show ?case by fastforce
qed auto

lemma locs_lefts_addrs: "(b, e) \<in> set (locs (lefts fs)) \<Longrightarrow> b \<in> set (ctx_addrs fs)"
proof (induction fs rule: lefts.induct)
  case (2 a kl tsl kr tsr fs)
  have "set (locs (weaveL ks xs)) \<subseteq> (\<Union>x\<in>set xs. set (locs x))" for ks and xs :: "('a, 'b) item list list"
    by (induction ks xs rule: weaveL.induct) auto
  then have w: "set (locs (weaveL kl (map inorder tsl))) \<subseteq> (\<Union>t\<in>set tsl. set (locs (inorder t)))"
    using set_map [of inorder tsl] by (metis image_image)
  from 2(2) consider "(b, e) \<in> set (locs (lefts fs))" | "(b, e) \<in> set (locs (weaveL kl (map inorder tsl)))" by auto
  then show ?case
  proof cases
    case 1
    then show ?thesis using 2(1) by simp
  next
    case 2
    then obtain t where "t \<in> set tsl" "(b, e) \<in> set (locs (inorder t))" using w by blast
    then show ?thesis using locs_addrs by fastforce
  qed
qed simp

lemma leaf_start:
  assumes inv: "tree_inv ty K T D (plug fs (GLeaf a es))" and "frames_ok fs" "es \<noteq> []"
  shows "length (ents (lefts fs)) = length (takeWhile (\<lambda>(b, e). b \<noteq> a) (locs (inorder (plug fs (GLeaf a es)))))"
proof -
  have "a \<notin> set (ctx_addrs fs)" using inv by (auto simp: tree_inv_def tree_core_def)
  then have "\<forall>x\<in>set (locs (lefts fs)). case x of (b, e) \<Rightarrow> b \<noteq> a" using locs_lefts_addrs by fastforce
  moreover obtain e es' where "es = e # es'" using assms(3) by (cases es) auto
  ultimately show ?thesis
    by (simp add: inorder_plug [OF assms(2)] ents_def takeWhile_append2)
qed

lemma iter_eq_at:
  assumes inv: "tree_inv ty K T D t" and "iter_at t n i" "iter_at t m j"
  shows "iter_eq i j \<longleftrightarrow> n = m"
proof (cases "ents (inorder t) = []")
  case True
  then have "n = 0" "m = 0" "eof i" "eof j" using iter_at_bound assms(2,3) by fastforce+
  moreover have "t = GLeaf (PathLeaf (itPath k)) [] \<and> LeafIndex (itPath k) = 0" if at: "iter_at t q k" for k q
  proof -
    obtain fs a l r where p: "t = plug fs (GLeaf a (l @ r))" "frames_ok fs" "PathLeaf (itPath k) = a" "LeafIndex (itPath k) = length l"
      using at unfolding iter_at_def by blast
    then have "l @ r = []" using True by (simp add: inorder_plug)
    moreover from this have "fs = []" using inv_leaf_nonempty [of ty K T D fs a "l @ r"] inv p by blast
    ultimately show ?thesis using p by simp
  qed
  ultimately show ?thesis using assms(2,3) by (auto simp: iter_eq_def)
next
  case False
  have pos: "q = length (takeWhile (\<lambda>(b, e). b \<noteq> PathLeaf (itPath k)) (locs (inorder t))) + LeafIndex (itPath k) \<and>
      (q < length (locs (inorder t)) \<longrightarrow> fst (locs (inorder t) ! q) = PathLeaf (itPath k)) \<and>
      (q = length (locs (inorder t)) \<longrightarrow> fst (last (locs (inorder t))) = PathLeaf (itPath k)) \<and>
      (eof k \<longleftrightarrow> q = length (locs (inorder t)))"
    if at: "iter_at t q k" for k q
  proof -
    obtain fs a l r where p: "t = plug fs (GLeaf a (l @ r))" "frames_ok fs" "PathLeaf (itPath k) = a" "LeafIndex (itPath k) = length l"
      "q = length (ents (lefts fs)) + length l" "eof k = (r = [])" "r = [] \<longrightarrow> rights fs = []"
      using at unfolding iter_at_def by blast
    have "l @ r \<noteq> []" using inv_leaf_nonempty [of ty K T D fs a "l @ r"] inv p False by (cases "fs = []") auto
    then have "q = length (takeWhile (\<lambda>(b, e). b \<noteq> a) (locs (inorder t))) + length l"
      using leaf_start [of ty K T D fs a "l @ r"] inv p by simp
    moreover have "locs (inorder t) = locs (lefts fs) @ map (Pair a) l @ map (Pair a) r @ locs (rights fs)"
      using p by (simp add: inorder_plug)
    moreover have "length (ents (lefts fs)) = length (locs (lefts fs))" by (simp add: ents_def)
    ultimately show ?thesis using p \<open>l @ r \<noteq> []\<close>
      by (cases r; cases l rule: rev_cases) (auto simp: nth_append)
  qed
  let ?a = "PathLeaf (itPath i)" and ?b = "PathLeaf (itPath j)"
  show ?thesis
  proof
    assume "iter_eq i j"
    then show "n = m" using pos [OF assms(2)] pos [OF assms(3)] by (simp add: iter_eq_def)
  next
    assume nm: "n = m"
    have "n \<le> length (locs (inorder t))" using iter_at_bound [OF assms(2)] by (simp add: ents_def)
    then have "?a = ?b" using pos [OF assms(2)] pos [OF assms(3)] nm by (metis le_neq_implies_less)
    with nm show "iter_eq i j" using pos [OF assms(2)] pos [OF assms(3)] by (simp add: iter_eq_def)
  qed
qed

section \<open>Searching for a position\<close>

text \<open>The number of entries before the first one that is not below the key.\<close>

definition rank :: "'k ScalarType \<Rightarrow> 'k \<Rightarrow> ('k \<times> 'v option) list \<Rightarrow> nat" where
  "rank ty key es = length (takeWhile (\<lambda>e. Compare ty (fst e) key < 0) es)"

text \<open>
  A tree of at most one level of branches: the root is a leaf or all its children are. It
  holds up to 4096 entries. The constructor of the iterator only looks at the innermost
  branch, so \<open>findNearest\<close> is right on these trees.
\<close>

definition shallow :: "('k, 'v) BTree \<Rightarrow> bool" where
  "shallow T \<longleftrightarrow>
     (case heap T (root T) of
        Some (Branch ks cs) \<Rightarrow> (\<forall>c\<in>set cs. case heap T c of Some (Leaf es) \<Rightarrow> True | _ \<Rightarrow> False)
      | _ \<Rightarrow> True)"

lemma shallow_height:
  assumes "tree_inv ty K T D t" "shallow T"
  shows "D \<le> 1"
proof (cases t)
  case (GLeaf a es)
  with assms(1) show ?thesis by (auto simp: tree_inv_def tree_core_def rshape_GLeaf)
next
  case (GBranch a ks ts)
  then obtain d where d: "D = Suc d" "length ts = Suc (length ks)" "\<forall>t\<in>set ts. shape (listCapacity T) d t"
    using assms(1) by (auto simp: tree_inv_def tree_core_def rshape_GBranch)
  then obtain u us where u: "ts = u # us" by (cases ts) auto
  have "heap T (root T) = Some (Branch ks (map addr_of ts))" "rep (heap T) u"
    using assms(1) GBranch u by (auto simp: tree_inv_def tree_core_def)
  then have "d = 0" using assms(2) u d(3) by (cases u) (auto simp: shallow_def shape_GLeaf)
  with d(1) show ?thesis by simp
qed

context scalar_order
begin

lemma position_rank:
  assumes "position ty K key t fs a l r m" "key \<in> K" "ordered ty K (inorder t)"
  shows "length (ents (lefts fs)) + length l = rank ty key (ents (inorder t))"
proof -
  have keys: "\<exists>b. Ent b e \<in> set xs" if "e \<in> set (ents xs)" for e and xs :: "('k, 'b) item list"
    using that by (auto simp: ents_def locs_eq_append_ents)
  have l: "Compare ty (fst e) key < 0" if "e \<in> set (ents (lefts fs) @ l)" for e
  proof -
    have "e \<in> set (ents (lefts fs @ map (Ent a) l))" using that by simp
    from keys [OF this] obtain b where "Ent b e \<in> set (lefts fs @ map (Ent a) l)" ..
    then have "before ty K (Ent b e) (Ent b (key, snd e))" using assms(1) by (auto simp: position_def)
    then show ?thesis by (simp add: before_simps)
  qed
  have r: "\<not> Compare ty (fst e) key < 0" if "e \<in> set (ents (rights fs))" for e
  proof -
    from keys [OF that] obtain b where "Ent b e \<in> set (rights fs)" ..
    then have "before ty K (Ent b (key, snd e)) (Ent b e)" using assms(1) by (auto simp: position_def)
    then show ?thesis using cmp_sym [of "fst e" key] by (auto simp: before_simps)
  qed
  have "\<not> Compare ty (fst (hd r)) key < 0" if "r \<noteq> []"
  proof (cases m)
    case True
    then obtain e r' where e: "r = e # r'" "Compare ty key (fst e) = 0" using assms(1) by (auto simp: position_def)
    have "fst e \<in> K" using assms(1,3) e(1) by (auto simp: position_def inorder_plug ordered_simps)
    with e show ?thesis using cmp_eq_sym [of key "fst e"] assms(2) by simp
  next
    case False
    then have "before ty K (Ent a (key, None)) (Ent a (hd r))" using assms(1) that by (auto simp: position_def)
    then show ?thesis using cmp_sym [of "fst (hd r)" key] by (auto simp: before_simps)
  qed
  with r have "takeWhile (\<lambda>e. Compare ty (fst e) key < 0) (r @ ents (rights fs)) = []"
    by (cases r; cases "ents (rights fs)") auto
  then have "takeWhile (\<lambda>e. Compare ty (fst e) key < 0) ((ents (lefts fs) @ l) @ r @ ents (rights fs)) = ents (lefts fs) @ l"
    using l by (subst takeWhile_append2) auto
  with position_ents [OF assms(1)] show ?thesis by (simp add: rank_def)
qed

lemma findNearest_at:
  assumes inv: "tree_inv ty K T D t" and "shallow T" "key \<in> K"
  shows "\<exists>it m. iter_findNearest T key = Inr (it, m) \<and> iter_at t (rank ty key (contents T)) it \<and>
    (m \<longleftrightarrow> (\<exists>e\<in>set (contents T). Compare ty key (fst e) = 0))"
proof -
  obtain fs a l r m where pos: "position ty K key t fs a l r m" "length fs = D" and
    path: "GetPath T key = Inr \<lparr>Branches = rev (path_of fs), PathLeaf = a, LeafIndex = length l, Match = m\<rparr>" (is "_ = Inr ?p")
    using GetPath_position [OF inv assms(3)] by blast
  have t: "t = plug fs (GLeaf a (l @ r))" "frames_ok fs" "m \<longrightarrow> r \<noteq> []" using pos by (auto simp: position_def)
  have h: "heap T a = Some (Leaf (l @ r))" using inv_leaf inv t(1) by blast
  have rk: "length (ents (lefts fs)) + length l = rank ty key (contents T)"
    using position_rank [OF pos(1) assms(3)] contents_inorder [OF inv] inv by (simp add: tree_inv_def tree_core_def)
  have "\<exists>it. new_iterator T ?p = Inr it \<and> iter_at t (rank ty key (contents T)) it"
  proof (cases "r = []")
    case False
    then have "new_iterator T ?p = Inr \<lparr>itPath = ?p, eof = False\<rparr>" using h by (intro new_iterator_entry) auto
    with iter_atI [OF t(1,2) rk [symmetric], of m] False show ?thesis by auto
  next
    case rn: True
    show ?thesis
    proof (cases "rights fs = []")
      case True
      have "new_iterator T ?p = Inr \<lparr>itPath = ?p, eof = True\<rparr>"
        using h rn t(3) rights_Nil_last [of ty K T D fs a "l @ r"] inv t True
        by (intro new_iterator_last [of T a l]) (cases "fs = []"; auto)+
      with iter_atI [OF t(1,2) rk [symmetric], of m] rn True show ?thesis by auto
    next
      case False
      then obtain q kl tsl kr tsr where fs: "fs = [Frame q kl tsl kr tsr]"
        using pos(2) shallow_height [OF inv assms(2)] by (cases fs; cases "hd fs") auto
      have "kr \<noteq> []" using False fs by auto
      then have lt: "length tsl < length (kl @ kr)" using t(2) fs by (cases kr) auto
      have "heap T q = Some (Branch (kl @ kr) (map addr_of tsl @ a # map addr_of tsr))"
        using inv_ctx(1) [OF inv [unfolded t(1)] t(2)] fs by simp
      moreover obtain it where it: "MoveNext T \<lparr>itPath = ?p, eof = False\<rparr> = Inr it"
        "iter_at t (length (ents (lefts fs)) + length (l @ r)) it" "\<not> eof it"
        using MoveNext_leaf [OF inv t(1,2) False, of "\<lparr>itPath = ?p, eof = False\<rparr>"] rn by auto
      moreover obtain fs' a' l' r' where p': "t = plug fs' (GLeaf a' (l' @ r'))" "PathLeaf (itPath it) = a'"
        "LeafIndex (itPath it) = length l'" "r' \<noteq> []"
        using it(2,3) unfolding iter_at_def by auto
      moreover have "heap T a' = Some (Leaf (l' @ r'))" using inv_leaf inv p'(1) by blast
      ultimately have "new_iterator T ?p = Inr it"
        using h rn t(3) lt fs by (simp add: new_iterator_def Let_def)
      with it(2) rn rk show ?thesis by auto
    qed
  qed
  moreover have "m \<longleftrightarrow> (\<exists>e\<in>set (contents T). Compare ty key (fst e) = 0)"
    using position_match [OF pos(1) assms(3)] contents_inorder [OF inv] by simp
  ultimately show ?thesis using path by (auto simp: iter_findNearest_def)
qed

end

end
