(* ===== verification/Cursor.thy ===== *)
theory Cursor
  imports BTree_Iter
begin

text \<open>
  The interface the column buffers use a tree's iterators by: an iterator stands at a
  position of the list of entries, \<open>++\<close> and \<open>--\<close> move it by one and fail at the ends,
  \<open>*\<close> reads the entry at the position. The loops of the buffers over a pair of iterators
  are proved against this interface, and the iterators of a B-tree provide it.
\<close>

section \<open>Loops over a range of iterators\<close>

text \<open>
  The loop shared by the \<open>GetRows\<close> functions: ascending, the entry is visited before the
  iterator moves; descending, the iterator moves first. The loop stops when the iterators
  meet or the visited state is \<open>lim\<close>ited.
\<close>

fun range_loop :: "('i \<Rightarrow> err + 'i) \<Rightarrow> ('i \<Rightarrow> err + 'i) \<Rightarrow> ('i \<Rightarrow> err + 'e) \<Rightarrow> ('i \<Rightarrow> 'i \<Rightarrow> bool) \<Rightarrow>
    bool \<Rightarrow> ('e \<Rightarrow> 's \<Rightarrow> err + 's) \<Rightarrow> ('s \<Rightarrow> bool) \<Rightarrow> nat \<Rightarrow> 'i \<Rightarrow> 'i \<Rightarrow> 's \<Rightarrow> err + 's"
where
  "range_loop forth prior get same asc visit lim 0 b e s = Inl NoFuel"
| "range_loop forth prior get same asc visit lim (Suc fuel) b e s =
     (if same b e \<or> lim s then Inr s
      else
        bindE (if asc then Inr b else prior b) (\<lambda>b1.
        bindE (get b1) (\<lambda>x.
        bindE (visit x s) (\<lambda>s1.
        bindE (if asc then forth b1 else Inr b1) (\<lambda>b2.
          range_loop forth prior get same asc visit lim fuel b2 e s1)))))"

text \<open>The same visits over a list.\<close>

fun run_until :: "('e \<Rightarrow> 's \<Rightarrow> err + 's) \<Rightarrow> ('s \<Rightarrow> bool) \<Rightarrow> 'e list \<Rightarrow> 's \<Rightarrow> err + 's" where
  "run_until visit lim [] s = Inr s"
| "run_until visit lim (x # xs) s =
     (if lim s then Inr s else bindE (visit x s) (run_until visit lim xs))"

lemma run_until_limited [simp]: "lim s \<Longrightarrow> run_until visit lim xs s = Inr s"
  by (cases xs) simp_all

section \<open>The interface\<close>

locale cursor =
  fixes inv :: "'t \<Rightarrow> bool" and items :: "'t \<Rightarrow> 'e list" and pos :: "'t \<Rightarrow> nat \<Rightarrow> 'i \<Rightarrow> bool"
    and start finish :: "'t \<Rightarrow> err + 'i" and forth prior :: "'t \<Rightarrow> 'i \<Rightarrow> err + 'i"
    and get :: "'t \<Rightarrow> 'i \<Rightarrow> err + 'e" and same :: "'i \<Rightarrow> 'i \<Rightarrow> bool"
  assumes at_start: "inv T \<Longrightarrow> \<exists>it. start T = Inr it \<and> pos T 0 it"
    and at_finish: "inv T \<Longrightarrow> \<exists>it. finish T = Inr it \<and> pos T (length (items T)) it"
    and at_le: "inv T \<Longrightarrow> pos T n it \<Longrightarrow> n \<le> length (items T)"
    and forth_at: "inv T \<Longrightarrow> pos T n it \<Longrightarrow> n < length (items T) \<Longrightarrow> \<exists>it'. forth T it = Inr it' \<and> pos T (Suc n) it'"
    and prior_at: "inv T \<Longrightarrow> pos T (Suc n) it \<Longrightarrow> \<exists>it'. prior T it = Inr it' \<and> pos T n it'"
    and get_at: "inv T \<Longrightarrow> pos T n it \<Longrightarrow> n < length (items T) \<Longrightarrow> get T it = Inr (items T ! n)"
    and get_end: "inv T \<Longrightarrow> pos T (length (items T)) it \<Longrightarrow> get T it = Inl (Throw ''Iterator not dereferenceable'')"
    and same_at: "inv T \<Longrightarrow> pos T n it \<Longrightarrow> pos T m it' \<Longrightarrow> same it it' \<longleftrightarrow> n = m"
begin

lemma loop_ascending:
  assumes "inv T" "pos T n b" "pos T m e" "n \<le> m" "m - n < fuel"
  shows "range_loop (forth T) (prior T) (get T) same True visit lim fuel b e s =
    run_until visit lim (drop n (take m (items T))) s"
  using assms(2,4,5)
proof (induction fuel arbitrary: n b s)
  case (Suc fuel)
  have m: "m \<le> length (items T)" using at_le assms(1,3) .
  show ?case
  proof (cases "n = m \<or> lim s")
    case True
    then show ?thesis using same_at [OF assms(1) Suc.prems(1) assms(3)] by auto
  next
    case False
    with m Suc.prems have n: "n < length (items T)" "n < m" by auto
    obtain b' where b': "forth T b = Inr b'" "pos T (Suc n) b'"
      using forth_at [OF assms(1) Suc.prems(1) n(1)] by blast
    have "drop n (take m (items T)) = items T ! n # drop (Suc n) (take m (items T))"
      using n m Cons_nth_drop_Suc [of n "take m (items T)"] by simp
    moreover have "range_loop (forth T) (prior T) (get T) same True visit lim fuel b' e s' =
        run_until visit lim (drop (Suc n) (take m (items T))) s'" for s'
      using Suc.IH [OF b'(2)] n(2) Suc.prems(3) by simp
    ultimately show ?thesis
      using False b'(1) get_at [OF assms(1) Suc.prems(1) n(1)] same_at [OF assms(1) Suc.prems(1) assms(3)] by simp
  qed
qed simp

lemma loop_descending:
  assumes "inv T" "pos T n b" "pos T m e" "m \<le> n" "n - m < fuel"
  shows "range_loop (forth T) (prior T) (get T) same False visit lim fuel b e s =
    run_until visit lim (rev (drop m (take n (items T)))) s"
  using assms(2,4,5)
proof (induction fuel arbitrary: n b s)
  case (Suc fuel)
  have n: "n \<le> length (items T)" using at_le assms(1) Suc.prems(1) .
  show ?case
  proof (cases "n = m \<or> lim s")
    case True
    then show ?thesis using same_at [OF assms(1) Suc.prems(1) assms(3)] by auto
  next
    case False
    with Suc.prems obtain n' where n': "n = Suc n'" "m \<le> n'" by (cases n) auto
    obtain b' where b': "prior T b = Inr b'" "pos T n' b'"
      using prior_at [OF assms(1)] Suc.prems(1) n'(1) by blast
    have "rev (drop m (take n (items T))) = items T ! n' # rev (drop m (take n' (items T)))"
      using n n' by (simp add: take_Suc_conv_app_nth)
    moreover have "range_loop (forth T) (prior T) (get T) same False visit lim fuel b' e =
        run_until visit lim (rev (drop m (take n' (items T))))"
      using Suc.IH [OF b'(2)] n' Suc.prems(3) by (intro ext) simp
    ultimately show ?thesis
      using False b'(1) get_at [OF assms(1) b'(2)] n n' same_at [OF assms(1) Suc.prems(1) assms(3)] by simp
  qed
qed simp

text \<open>A begin behind the end: the ascending loop runs to the end of the tree and beyond.\<close>

lemma loop_overrun:
  assumes "inv T" "pos T n b" "pos T m e" "m < n" "length (items T) - n < fuel"
  shows "range_loop (forth T) (prior T) (get T) same True visit lim fuel b e s =
    bindE (run_until visit lim (drop n (items T)) s)
      (\<lambda>s'. if lim s' then Inr s' else Inl (Throw ''Iterator not dereferenceable''))"
  using assms(2,4,5)
proof (induction fuel arbitrary: n b s)
  case (Suc fuel)
  have n: "n \<le> length (items T)" using at_le assms(1) Suc.prems(1) .
  have ne: "\<not> same b e" using same_at [OF assms(1) Suc.prems(1) assms(3)] Suc.prems(2) by simp
  show ?case
  proof (cases "lim s \<or> n = length (items T)")
    case True
    then show ?thesis using ne get_end [OF assms(1)] Suc.prems(1) by auto
  next
    case False
    then have n: "n < length (items T)" using n by simp
    obtain b' where b': "forth T b = Inr b'" "pos T (Suc n) b'"
      using forth_at [OF assms(1) Suc.prems(1) n(1)] by blast
    have "drop n (items T) = items T ! n # drop (Suc n) (items T)"
      using n by (simp add: Cons_nth_drop_Suc)
    moreover have "range_loop (forth T) (prior T) (get T) same True visit lim fuel b' e s' =
        bindE (run_until visit lim (drop (Suc n) (items T)) s')
          (\<lambda>s'. if lim s' then Inr s' else Inl (Throw ''Iterator not dereferenceable''))" for s'
      using Suc.IH [OF b'(2)] n Suc.prems(2,3) by simp
    ultimately show ?thesis
      using False ne b'(1) get_at [OF assms(1) Suc.prems(1) n(1)] by (simp add: bindE_assoc)
  qed
qed simp

text \<open>Going through all entries, in either direction.\<close>

lemma traversal:
  assumes "inv T" "length (items T) < fuel"
  shows "\<exists>b e. start T = Inr b \<and> finish T = Inr e \<and>
    range_loop (forth T) (prior T) (get T) same True visit lim fuel b e s = run_until visit lim (items T) s \<and>
    range_loop (forth T) (prior T) (get T) same False visit lim fuel e b s = run_until visit lim (rev (items T)) s"
proof -
  obtain b e where b: "start T = Inr b" "pos T 0 b" and e: "finish T = Inr e" "pos T (length (items T)) e"
    using at_start at_finish assms(1) by blast
  show ?thesis
    using loop_ascending [OF assms(1) b(2) e(2), of fuel visit lim s]
      loop_descending [OF assms(1) e(2) b(2), of fuel visit lim s] assms(2) b(1) e(1) by simp
qed

end

section \<open>The iterators of a B-tree\<close>

text \<open>A store represents at most one tree at an address.\<close>

lemma rep_unique: "rep h t \<Longrightarrow> rep h t' \<Longrightarrow> addr_of t = addr_of t' \<Longrightarrow> t = t'"
proof (induction t arbitrary: t')
  case (GLeaf a es)
  then show ?case by (cases t') auto
next
  case (GBranch a ks ts)
  then obtain ts' where t': "t' = GBranch a ks ts'" "map addr_of ts = map addr_of ts'" "\<forall>t\<in>set ts'. rep h t"
    by (cases t') auto
  have "ts = ts'"
  proof (rule nth_equalityI)
    show len: "length ts = length ts'" using map_eq_imp_length_eq [OF t'(2)] .
    show "ts ! i = ts' ! i" if "i < length ts" for i
    proof (rule GBranch.IH)
      show "addr_of (ts ! i) = addr_of (ts' ! i)" using t'(2) that len by (metis nth_map)
    qed (use that len GBranch.prems(1) t'(3) in auto)
  qed
  with t'(1) show ?case by simp
qed

lemma tree_inv_unique: "tree_inv ty K T D t \<Longrightarrow> tree_inv ty K T D' t' \<Longrightarrow> t = t'"
  by (rule rep_unique [of "heap T"]) (simp_all add: tree_core_def tree_inv_def)

definition iter_pos :: "'k ScalarType \<Rightarrow> 'k set \<Rightarrow> ('k, 'v) BTree \<Rightarrow> nat \<Rightarrow> iter \<Rightarrow> bool" where
  "iter_pos ty K T n it \<longleftrightarrow> (\<exists>D t. tree_inv ty K T D t \<and> iter_at t n it)"

sublocale scalar_order \<subseteq> tree_cursor: cursor "btree_inv ty K" contents "iter_pos ty K"
  iter_begin iter_end MoveNext MovePrior iter_get iter_eq
proof unfold_locales
  fix T :: "('k, 'b) BTree" and n m it it'
  assume "btree_inv ty K T"
  then obtain D t where inv: "tree_inv ty K T D t" by (auto simp: btree_inv_def)
  note c = contents_inorder [OF inv]
  have ip: "iter_pos ty K T n it \<longleftrightarrow> iter_at t n it" for n it
    unfolding iter_pos_def using inv tree_inv_unique [OF inv] by blast
  show "\<exists>it. iter_begin T = Inr it \<and> iter_pos ty K T 0 it" using iter_begin_at [OF inv] ip by auto
  show "\<exists>it. iter_end T = Inr it \<and> iter_pos ty K T (length (contents T)) it"
    using iter_end_at [OF inv] ip c by auto
  show "\<exists>it'. MovePrior T it = Inr it' \<and> iter_pos ty K T n it'" if "iter_pos ty K T (Suc n) it"
    using MovePrior_at [OF inv] that ip by auto
  show "iter_get T it = Inl (Throw ''Iterator not dereferenceable'')" if "iter_pos ty K T (length (contents T)) it"
    using iter_get_at [OF inv] that ip c by auto
  assume at: "iter_pos ty K T n it"
  show "n \<le> length (contents T)" using iter_at_bound at ip c by auto
  show "iter_eq it it' \<longleftrightarrow> n = m" if "iter_pos ty K T m it'" using iter_eq_at [OF inv] at that ip by auto
  assume n: "n < length (contents T)"
  show "\<exists>it'. MoveNext T it = Inr it' \<and> iter_pos ty K T (Suc n) it'" using MoveNext_at [OF inv] at n ip c by auto
  show "iter_get T it = Inr (contents T ! n)" using iter_get_at [OF inv] at n ip c by auto
qed

context scalar_order
begin

lemmas tree_laws = tree_cursor.forth_at tree_cursor.prior_at tree_cursor.same_at tree_cursor.get_at
  tree_cursor.get_end tree_cursor.at_le

lemmas tree_traversal = tree_cursor.traversal

lemma find_pos:
  assumes "btree_inv ty K T" "key \<in> K" "e \<in> set (contents T)" "Compare ty key (fst e) = 0"
  shows "\<exists>it n. iter_find T key = Inr it \<and> iter_pos ty K T n it \<and> n < length (contents T) \<and>
    Compare ty key (fst (contents T ! n)) = 0"
proof -
  obtain D t where inv: "tree_inv ty K T D t" using assms(1) by (auto simp: btree_inv_def)
  obtain fs a l r m where pos: "position ty K key t fs a l r m" and
    path: "GetPath T key = Inr \<lparr>Branches = rev (path_of fs), PathLeaf = a, LeafIndex = length l, Match = m\<rparr>" (is "_ = Inr ?p")
    using GetPath_position [OF inv assms(2)] by blast
  have m: m using position_match [OF pos assms(2)] contents_inorder [OF inv] assms(3,4) by auto
  then obtain e' r' where t: "t = plug fs (GLeaf a (l @ r))" "frames_ok fs" "r = e' # r'" "Compare ty key (fst e') = 0"
    using pos by (auto simp: position_def)
  have "iter_find T key = Inr \<lparr>itPath = ?p, eof = False\<rparr>" using path m by (simp add: iter_find_def new_iterator_def)
  moreover have "iter_pos ty K T (length (ents (lefts fs)) + length l) \<lparr>itPath = ?p, eof = False\<rparr>"
    using iter_atI [OF t(1,2) refl, of m] inv t(3) by (auto simp: iter_pos_def)
  moreover have "contents T = (ents (lefts fs) @ l) @ e' # r' @ ents (rights fs)"
    using position_ents [OF pos] contents_inorder [OF inv] t(3) by simp
  then have "length (ents (lefts fs)) + length l < length (contents T)"
    "contents T ! (length (ents (lefts fs)) + length l) = e'" by (simp_all add: nth_append)
  ultimately show ?thesis using t(4) by metis
qed

lemma findNearest_pos:
  assumes "btree_inv ty K T" "shallow T" "key \<in> K"
  shows "\<exists>it m. iter_findNearest T key = Inr (it, m) \<and> iter_pos ty K T (rank ty key (contents T)) it \<and>
    (m \<longleftrightarrow> (\<exists>e\<in>set (contents T). Compare ty key (fst e) = 0))"
proof -
  obtain D t where inv: "tree_inv ty K T D t" using assms(1) by (auto simp: btree_inv_def)
  show ?thesis using findNearest_at [OF inv assms(2,3)] inv by (auto simp: iter_pos_def)
qed

end

section \<open>Properties\<close>

text \<open>
  C4. Traversal: on a tree that satisfies the invariant, the loop from \<open>begin\<close> to \<open>end\<close>
  with \<open>++\<close> ends and reads every entry once in key order, and the loop from \<open>end\<close> to
  \<open>begin\<close> with \<open>--\<close> reads them in the opposite order.
\<close>

theorem traversal_complete:
  assumes "scalar_order ty K" "btree_inv ty K T"
  shows "\<exists>b e. iter_begin T = Inr b \<and> iter_end T = Inr e \<and>
    range_loop (MoveNext T) (MovePrior T) (iter_get T) iter_eq True (\<lambda>x s. Inr (s @ [x])) (\<lambda>s. False)
      (Suc (length (contents T))) b e [] = Inr (contents T) \<and>
    range_loop (MoveNext T) (MovePrior T) (iter_get T) iter_eq False (\<lambda>x s. Inr (s @ [x])) (\<lambda>s. False)
      (Suc (length (contents T))) e b [] = Inr (rev (contents T))"
proof -
  have "run_until (\<lambda>x s. Inr (s @ [x])) (\<lambda>s. False) xs s = Inr (s @ xs)" for xs s :: "('a \<times> 'b option) list"
    by (induction xs arbitrary: s) auto
  with scalar_order.tree_traversal [OF assms, of "Suc (length (contents T))" "\<lambda>x s. Inr (s @ [x])" "\<lambda>s. False" "[]"]
  show ?thesis by simp
qed

theorem traversal_complete_witness:
  "\<exists>b e. iter_begin sample_tree = Inr b \<and> iter_end sample_tree = Inr e \<and>
    range_loop (MoveNext sample_tree) (MovePrior sample_tree) (iter_get sample_tree) iter_eq True
      (\<lambda>x s. Inr (s @ [x])) (\<lambda>s. False) 3 b e [] = Inr [(3, Some 30), (5, Some 50)]"
proof -
  have "contents sample_tree = [(3, Some 30), (5, Some 50)]" by code_simp
  with traversal_complete [OF longT.scalar_order_axioms sample_inv] show ?thesis by (metis eval_nat_numeral(3) length_Cons list.size(3) numeral_2_eq_2)
qed

text \<open>
  C6. Moving an iterator forth and back: from the iterator of a key that is in the tree,
  \<open>++\<close> succeeds, and \<open>--\<close> leads from there to an iterator that compares equal to the
  first.
\<close>

theorem MovePrior_MoveNext:
  assumes "scalar_order ty K" "btree_inv ty K T" "key \<in> K" "e \<in> set (contents T)" "Compare ty key (fst e) = 0"
  shows "\<exists>it it' it''. iter_find T key = Inr it \<and> MoveNext T it = Inr it' \<and> MovePrior T it' = Inr it'' \<and>
    iter_eq it'' it \<and> \<not> iter_eq it' it"
proof -
  obtain it n where it: "iter_find T key = Inr it" "iter_pos ty K T n it" "n < length (contents T)"
    using scalar_order.find_pos [OF assms] by blast
  note cur = scalar_order.tree_laws [OF assms(1,2)]
  obtain it' where it': "MoveNext T it = Inr it'" "iter_pos ty K T (Suc n) it'"
    using cur(1) [OF it(2,3)] by blast
  obtain it'' where it'': "MovePrior T it' = Inr it''" "iter_pos ty K T n it''"
    using cur(2) [OF it'(2)] by blast
  show ?thesis using it it' it'' cur(3) by (metis n_not_Suc_n)
qed

theorem MovePrior_MoveNext_witness:
  "\<exists>it it' it''. iter_find sample_tree 5 = Inr it \<and> MoveNext sample_tree it = Inr it' \<and>
     MovePrior sample_tree it' = Inr it'' \<and> iter_eq it'' it \<and> \<not> iter_eq it' it"
proof -
  have "(5, Some 50) \<in> set (contents sample_tree)" "Compare LongType 5 (fst (5, Some (50 :: 64 word))) = 0"
    by code_simp+
  then show ?thesis by (rule MovePrior_MoveNext [OF longT.scalar_order_axioms sample_inv sample_keys(3)])
qed

text \<open>
  C5. Positioned search: on a tree with at most one level of branches, \<open>findNearest\<close> gives
  an iterator at the first entry that is not below the key, or at the end if there is none,
  and tells whether the key itself is there.
\<close>

theorem findNearest_correct:
  assumes "scalar_order ty K" "btree_inv ty K T" "shallow T" "key \<in> K"
  shows "\<exists>it m. iter_findNearest T key = Inr (it, m) \<and>
    (m \<longleftrightarrow> (\<exists>e\<in>set (contents T). Compare ty key (fst e) = 0)) \<and>
    iter_get T it = (case dropWhile (\<lambda>e. Compare ty (fst e) key < 0) (contents T) of
      [] \<Rightarrow> Inl (Throw ''Iterator not dereferenceable'') | e # es \<Rightarrow> Inr e)"
proof -
  obtain it m where it: "iter_findNearest T key = Inr (it, m)" "iter_pos ty K T (rank ty key (contents T)) it"
    "m \<longleftrightarrow> (\<exists>e\<in>set (contents T). Compare ty key (fst e) = 0)"
    using scalar_order.findNearest_pos [OF assms] by blast
  let ?n = "rank ty key (contents T)"
  have d: "dropWhile (\<lambda>e. Compare ty (fst e) key < 0) (contents T) = drop ?n (contents T)"
    by (simp add: rank_def dropWhile_eq_drop)
  note laws = scalar_order.tree_laws(4-6) [OF assms(1,2)]
  have "iter_get T it = (case dropWhile (\<lambda>e. Compare ty (fst e) key < 0) (contents T) of
      [] \<Rightarrow> Inl (Throw ''Iterator not dereferenceable'') | e # es \<Rightarrow> Inr e)"
  proof (cases "?n < length (contents T)")
    case True
    with laws(1) [OF it(2)] show ?thesis unfolding d by (simp flip: Cons_nth_drop_Suc)
  next
    case False
    with laws(3) [OF it(2)] have "?n = length (contents T)" by simp
    with laws(2) it(2) show ?thesis unfolding d by simp
  qed
  with it(1,3) show ?thesis by blast
qed

theorem findNearest_correct_witness:
  "\<exists>it. iter_findNearest sample_tree 4 = Inr (it, False) \<and> iter_get sample_tree it = Inr (5, Some 50)"
proof -
  have "shallow sample_tree" by code_simp
  moreover have "(\<exists>e\<in>set (contents sample_tree). Compare LongType 4 (fst e) = 0) \<longleftrightarrow> False"
    "dropWhile (\<lambda>e. Compare LongType (fst e) 4 < 0) (contents sample_tree) = [(5, Some 50)]" by code_simp+
  ultimately show ?thesis
    using findNearest_correct [OF longT.scalar_order_axioms sample_inv _ sample_keys(2)] by auto
qed

text \<open>
  C10. Early end: when the search for a missing key ends behind the last entry of a leaf
  that is the last child of its branch, \<open>findNearest\<close> gives an iterator that is at its end,
  whatever entries follow in the tree; the constructor of the iterator only looks at the
  innermost branch of the path.
\<close>

theorem findNearest_early_end:
  assumes "GetPath T key = Inr path" "\<not> Match path" "heap T (PathLeaf path) = Some (Leaf es)"
    and "LeafIndex path = length es" "Branches path \<noteq> []"
    and "heap T (fst (last (Branches path))) = Some n" "node_count n \<le> snd (last (Branches path))"
  shows "\<exists>it. iter_findNearest T key = Inr (it, False) \<and> eof it"
  using assms new_iterator_last [of T "PathLeaf path" es path] by (auto simp: iter_findNearest_def)

definition deep_tree :: "(64 word, 64 word) BTree" where
  "deep_tree = \<lparr>keyType = LongType, keyOnly = False, root = 0,
     heap = [0 \<mapsto> Branch [10] [1, 2], 1 \<mapsto> Branch [5] [3, 4], 2 \<mapsto> Branch [15] [5, 6],
       3 \<mapsto> Leaf [(1, Some 1)], 4 \<mapsto> Leaf [(5, Some 5)], 5 \<mapsto> Leaf [(10, Some 10)], 6 \<mapsto> Leaf [(15, Some 15)]],
     nextAddr = 7, treeCount = 4, listCapacity = 64\<rparr>"

theorem findNearest_early_end_witness:
  "(\<exists>it. iter_findNearest deep_tree 7 = Inr (it, False) \<and> eof it) \<and> (10, Some 10) \<in> set (contents deep_tree)"
proof -
  let ?p = "\<lparr>Branches = [(0, 0), (1, 1)], PathLeaf = 4, LeafIndex = 1, Match = False\<rparr>"
  have "GetPath deep_tree 7 = Inr ?p" "(10, Some 10) \<in> set (contents deep_tree)" by code_simp+
  moreover have "heap deep_tree 4 = Some (Leaf [(5, Some 5)])" "heap deep_tree 1 = Some (Branch [5] [3, 4])"
    by (simp_all add: deep_tree_def)
  ultimately show ?thesis using findNearest_early_end [of deep_tree 7 ?p "[(5, Some 5)]" "Branch [5] [3, 4]"] by simp
qed

end
