(* ===== verification/BTree_Map.thy ===== *)
theory BTree_Map
  imports Cursor BTree_Delete
begin

text \<open>
  A B-tree seen as a finite map from keys to entries: what a lookup returns after an
  insertion or a deletion. This is the view the column buffers take of their trees. Keys
  are the same when they compare equal.
\<close>

definition tree_lookup :: "'k ScalarType \<Rightarrow> ('k \<times> 'v option) list \<Rightarrow> 'k \<Rightarrow> ('k \<times> 'v option) option" where
  "tree_lookup ty es k = List.find (\<lambda>e. Compare ty k (fst e) = 0) es"

text \<open>\<open>(*path.Leaf)[path.LeafIndex].value\<close>; the value array of a key-only tree is null.\<close>

definition path_value :: "('k, 'v) BTree \<Rightarrow> Path \<Rightarrow> err + 'v" where
  "path_value T path =
     bindE (deref_leaf (heap T) (PathLeaf path)) (\<lambda>es.
     bindE (nthE es (LeafIndex path)) (\<lambda>e.
       case snd e of None \<Rightarrow> Inl NullPointer | Some v \<Rightarrow> Inr v))"

lemma ordered_ents:
  assumes "ordered ty K xs"
  shows "sorted_wrt (\<lambda>a b. Compare ty (fst a) (fst b) < 0) (ents xs) \<and> fst ` set (ents xs) \<subseteq> K"
  using assms
proof (induction xs rule: locs.induct)
  case (3 a e xs)
  have "Compare ty (fst e) (fst y) < 0" if y: "y \<in> set (ents xs)" for y
  proof -
    obtain b where "Ent b y \<in> set xs" using y by (auto simp: ents_def locs_eq_append_ents)
    with 3(2) show ?thesis by (auto simp: ordered_Cons before_simps)
  qed
  with 3 show ?case by (auto simp: ordered_Cons)
qed (auto simp: ordered_Cons)

lemma treeCount_contents: "btree_inv ty K T \<Longrightarrow> treeCount T = int (length (contents T))"
  unfolding btree_inv_def by (elim exE, frule contents_inorder) (simp add: tree_inv_def)

lemma new_BTree_btree_inv: "btree_inv ty K (new_BTree ty ko)"
  unfolding btree_inv_def by (rule exI, rule exI, rule new_BTree_inv)

lemma new_BTree_contents [simp]: "contents (new_BTree ty ko) = []"
  by (simp add: contents_def new_BTree_def)

lemma btree_inv_keyType: "btree_inv ty K T \<Longrightarrow> keyType T = ty"
  by (auto simp: btree_inv_def tree_inv_def tree_core_def)

context scalar_order
begin

lemma contents_sorted:
  assumes "btree_inv ty K T"
  shows "sorted_wrt (\<lambda>a b. Compare ty (fst a) (fst b) < 0) (contents T)" "fst ` set (contents T) \<subseteq> K"
proof -
  obtain D t where inv: "tree_inv ty K T D t" using assms by (auto simp: btree_inv_def)
  then have "ordered ty K (inorder t)" by (simp add: tree_inv_def tree_core_def)
  from ordered_ents [OF this] contents_inorder [OF inv]
  show "sorted_wrt (\<lambda>a b. Compare ty (fst a) (fst b) < 0) (contents T)" "fst ` set (contents T) \<subseteq> K" by simp_all
qed

lemma contents_K: "btree_inv ty K T \<Longrightarrow> e \<in> set (contents T) \<Longrightarrow> fst e \<in> K"
  using contents_sorted(2) by blast

lemma cmp_eq_trans:
  "a \<in> K \<Longrightarrow> b \<in> K \<Longrightarrow> c \<in> K \<Longrightarrow> Compare ty a b = 0 \<Longrightarrow> Compare ty b c = 0 \<Longrightarrow> Compare ty a c = 0"
  using cmp_trans [of a b c] cmp_trans [of c b a] cmp_eq_sym [of a b] cmp_eq_sym [of b c] cmp_le_iff [of c a] by force

text \<open>Equal keys have equal entries.\<close>

lemma entry_unique:
  assumes "btree_inv ty K T" "e \<in> set (contents T)" "e' \<in> set (contents T)" "Compare ty (fst e) (fst e') = 0"
  shows "e = e'"
proof (rule ccontr)
  assume ne: "e \<noteq> e'"
  obtain i j where ij: "i < length (contents T)" "j < length (contents T)" "contents T ! i = e" "contents T ! j = e'"
    using assms(2,3) by (metis in_set_conv_nth)
  with ne have "i < j \<or> j < i" by (metis linorder_neqE_nat)
  then have "Compare ty (fst e) (fst e') < 0 \<or> Compare ty (fst e') (fst e) < 0"
    using contents_sorted(1) [OF assms(1)] ij by (auto simp: sorted_wrt_iff_nth_less)
  with assms(4) show False
    using cmp_eq_sym [OF contents_K [OF assms(1,2)] contents_K [OF assms(1,3)]] by simp
qed

lemma distinct_contents:
  assumes "btree_inv ty K T"
  shows "distinct (contents T)"
proof -
  have "contents T ! i \<noteq> contents T ! j" if "i < j" "j < length (contents T)" for i j
  proof -
    have "Compare ty (fst (contents T ! i)) (fst (contents T ! j)) < 0"
      using contents_sorted(1) [OF assms] that by (simp add: sorted_wrt_iff_nth_less)
    moreover have "contents T ! j \<in> set (contents T)" using that by simp
    ultimately show ?thesis using cmp_refl [OF contents_K [OF assms, of "contents T ! j"]] by auto
  qed
  then show ?thesis unfolding distinct_conv_nth by (metis linorder_neqE_nat)
qed

lemma lookup_iff:
  assumes "btree_inv ty K T" "k \<in> K"
  shows "tree_lookup ty (contents T) k = Some e \<longleftrightarrow> e \<in> set (contents T) \<and> Compare ty k (fst e) = 0"
proof
  assume "tree_lookup ty (contents T) k = Some e"
  then show "e \<in> set (contents T) \<and> Compare ty k (fst e) = 0" by (auto simp: tree_lookup_def find_Some_iff)
next
  assume e: "e \<in> set (contents T) \<and> Compare ty k (fst e) = 0"
  then have "tree_lookup ty (contents T) k \<noteq> None"
    by (cases e) (auto simp: tree_lookup_def find_None_iff)
  then obtain e' where e': "tree_lookup ty (contents T) k = Some e'" by auto
  then have "e' \<in> set (contents T)" "Compare ty k (fst e') = 0" by (auto simp: tree_lookup_def find_Some_iff)
  with e have "e' = e" using entry_unique [OF assms(1)] cmp_eq_trans [of "fst e'" k "fst e"]
      cmp_eq_sym [of k "fst e'"] contents_K [OF assms(1)] assms(2) by blast
  with e' show "tree_lookup ty (contents T) k = Some e" by simp
qed

lemma lookup_None_iff:
  "tree_lookup ty es k = None \<longleftrightarrow> (\<forall>e\<in>set es. Compare ty k (fst e) \<noteq> 0)"
  by (auto simp: tree_lookup_def find_None_iff)

lemma lookup_same:
  assumes "btree_inv ty K T" "k \<in> K" "k' \<in> K" "Compare ty k k' = 0"
  shows "tree_lookup ty (contents T) k = tree_lookup ty (contents T) k'"
proof -
  have "Compare ty k (fst e) = 0 \<longleftrightarrow> Compare ty k' (fst e) = 0" if "e \<in> set (contents T)" for e
    using cmp_eq_trans [of k k' "fst e"] cmp_eq_trans [of k' k "fst e"] cmp_eq_sym [of k k'] assms
      contents_K [OF assms(1) that] by blast
  then show ?thesis unfolding tree_lookup_def by (intro find_cong) auto
qed

text \<open>Search, in the four forms the buffers use.\<close>

lemma GetPath_lookup:
  assumes "btree_inv ty K T" "k \<in> K"
  shows "\<exists>path. GetPath T k = Inr path \<and> (Match path \<longleftrightarrow> tree_lookup ty (contents T) k \<noteq> None) \<and>
    (\<forall>e. tree_lookup ty (contents T) k = Some e \<longrightarrow>
      path_value T path = (case snd e of None \<Rightarrow> Inl NullPointer | Some v \<Rightarrow> Inr v))"
proof -
  obtain path where p: "GetPath T k = Inr path" "Match path \<longleftrightarrow> (\<exists>e\<in>set (contents T). Compare ty k (fst e) = 0)"
    "Match path \<longrightarrow> (\<exists>es. heap T (PathLeaf path) = Some (Leaf es) \<and> LeafIndex path < length es \<and>
      es ! LeafIndex path \<in> set (contents T) \<and> Compare ty k (fst (es ! LeafIndex path)) = 0)"
    using GetPath_entry [OF assms] by blast
  have m: "Match path \<longleftrightarrow> tree_lookup ty (contents T) k \<noteq> None" using p(2) by (auto simp: lookup_None_iff)
  have "path_value T path = (case snd e of None \<Rightarrow> Inl NullPointer | Some v \<Rightarrow> Inr v)"
    if e: "tree_lookup ty (contents T) k = Some e" for e
  proof -
    obtain es where es: "heap T (PathLeaf path) = Some (Leaf es)" "LeafIndex path < length es"
      "es ! LeafIndex path \<in> set (contents T)" "Compare ty k (fst (es ! LeafIndex path)) = 0" using p(3) m e by auto
    then have "es ! LeafIndex path = e" using lookup_iff [OF assms, of "es ! LeafIndex path"] e by simp
    with es(1,2) show ?thesis by (simp add: path_value_def deref_leaf_def)
  qed
  with p(1) m show ?thesis by blast
qed

lemma findNearest_lookup:
  assumes "btree_inv ty K T" "k \<in> K" "tree_lookup ty (contents T) k = Some e"
  shows "\<exists>it. iter_findNearest T k = Inr (it, True) \<and> iter_get T it = Inr e"
proof -
  obtain path es where p: "GetPath T k = Inr path" "Match path" "heap T (PathLeaf path) = Some (Leaf es)"
    "LeafIndex path < length es" "es ! LeafIndex path \<in> set (contents T)" "Compare ty k (fst (es ! LeafIndex path)) = 0"
    using GetPath_entry [OF assms(1,2)] assms(3) lookup_iff [OF assms(1,2)] by blast
  then have "es ! LeafIndex path = e" using lookup_iff [OF assms(1,2), of "es ! LeafIndex path"] assms(3) by simp
  with p show ?thesis
    by (simp add: iter_findNearest_def new_iterator_def iter_get_def deref_leaf_def Let_def)
qed

lemma findNearest_missing:
  assumes "btree_inv ty K T" "k \<in> K" "tree_lookup ty (contents T) k = None"
  shows "\<exists>it. iter_findNearest T k = Inr (it, False)"
proof -
  obtain D t where inv: "tree_inv ty K T D t" using assms(1) by (auto simp: btree_inv_def)
  obtain fs a l r m where pos: "position ty K k t fs a l r m" and
    path: "GetPath T k = Inr \<lparr>Branches = rev (path_of fs), PathLeaf = a, LeafIndex = length l, Match = m\<rparr>" (is "_ = Inr ?p")
    using GetPath_position [OF inv assms(2)] by blast
  have m: "\<not> m" using position_match [OF pos assms(2)] contents_inorder [OF inv] assms(3) by (auto simp: lookup_None_iff)
  have t: "t = plug fs (GLeaf a (l @ r))" "frames_ok fs" using pos by (auto simp: position_def)
  have h: "heap T a = Some (Leaf (l @ r))" using inv_leaf inv t(1) by blast
  have "\<exists>it. new_iterator T ?p = Inr it"
  proof (cases "r = [] \<and> fs \<noteq> []")
    case True
    then obtain q kl tsl kr tsr fs' where fs: "fs = Frame q kl tsl kr tsr # fs'" by (cases fs; cases "hd fs") auto
    have q: "heap T q = Some (Branch (kl @ kr) (map addr_of tsl @ a # map addr_of tsr))"
      using inv_ctx(1) [OF inv [unfolded t(1)] t(2)] fs by simp
    show ?thesis
    proof (cases "kr = []")
      case kr: True
      then show ?thesis using h q fs m True t(2) by (simp add: new_iterator_def Let_def)
    next
      case False
      then have "rights fs \<noteq> []" using fs t(2) by (cases kr; cases tsr) auto
      then obtain it where it: "MoveNext T \<lparr>itPath = ?p, eof = False\<rparr> = Inr it"
        "iter_at t (length (ents (lefts fs)) + length (l @ r)) it"
        using MoveNext_leaf [OF inv t(1,2), of "\<lparr>itPath = ?p, eof = False\<rparr>"] True by auto
      then obtain fs' a' l' r' where p': "t = plug fs' (GLeaf a' (l' @ r'))" "PathLeaf (itPath it) = a'"
        unfolding iter_at_def by auto
      have "heap T a' = Some (Leaf (l' @ r'))" using inv_leaf inv p'(1) by blast
      with it(1) p'(2) h q fs m True False t(2) show ?thesis by (simp add: new_iterator_def Let_def)
    qed
  next
    case False
    with h m show ?thesis by (auto simp: new_iterator_def Let_def)
  qed
  with path m show ?thesis by (auto simp: iter_findNearest_def)
qed

text \<open>Insertion of a new key and deletion of a key that is there.\<close>

lemma Insert_map:
  assumes "btree_inv ty K T" "k \<in> K" "GetPath T k = Inr path" "\<not> Match path"
  shows "\<exists>T' moved. Insert T path k v = Inr (T', moved) \<and> btree_inv ty K T' \<and> keyOnly T' = keyOnly T \<and>
    set (contents T') = insert (slot T k v) (set (contents T)) \<and> length (contents T') = Suc (length (contents T))"
  using Insert_contents [OF assms, of v] by fastforce

lemma Delete_map:
  assumes "btree_inv ty K T" "k \<in> K" "GetPath T k = Inr path" "Match path" "delete_safe T path"
  shows "\<exists>T' e. Delete T path = Inr T' \<and> btree_inv ty K T' \<and> keyOnly T' = keyOnly T \<and>
    tree_lookup ty (contents T) k = Some e \<and> set (contents T') = set (contents T) - {e} \<and>
    length (contents T) = Suc (length (contents T'))"
proof -
  obtain T' xs e ys where d: "Delete T path = Inr T'" "btree_inv ty K T'" "keyOnly T' = keyOnly T"
    "contents T = xs @ e # ys" "Compare ty k (fst e) = 0" "contents T' = xs @ ys"
    using Delete_contents [OF assms] by blast
  moreover have "tree_lookup ty (contents T) k = Some e" using lookup_iff [OF assms(1,2)] d(4,5) by simp
  moreover have "set (contents T') = set (contents T) - {e}" using distinct_contents [OF assms(1)] d(4,6) by auto
  ultimately show ?thesis by auto
qed

lemma lookup_insert:
  assumes "btree_inv ty K T" "btree_inv ty K T'" "fst e \<in> K" "set (contents T') = insert e (set (contents T))" "x \<in> K"
  shows "tree_lookup ty (contents T') x = (if Compare ty x (fst e) = 0 then Some e else tree_lookup ty (contents T) x)"
proof (cases "Compare ty x (fst e) = 0")
  case True
  then show ?thesis using lookup_iff [OF assms(2,5), of e] assms(4) by simp
next
  case False
  then have "tree_lookup ty (contents T') x = Some y \<longleftrightarrow> tree_lookup ty (contents T) x = Some y" for y
    using lookup_iff [OF assms(2,5)] lookup_iff [OF assms(1,5)] assms(4) by auto
  with False show ?thesis by (cases "tree_lookup ty (contents T) x"; cases "tree_lookup ty (contents T') x") auto
qed

lemma lookup_delete:
  assumes "btree_inv ty K T" "btree_inv ty K T'" "e \<in> set (contents T)" "set (contents T') = set (contents T) - {e}" "x \<in> K"
  shows "tree_lookup ty (contents T') x = (if Compare ty x (fst e) = 0 then None else tree_lookup ty (contents T) x)"
proof (cases "Compare ty x (fst e) = 0")
  case True
  have "y = e" if "y \<in> set (contents T)" "Compare ty x (fst y) = 0" for y
    using lookup_iff [OF assms(1,5), of y] lookup_iff [OF assms(1,5), of e] that True assms(3) by simp
  then show ?thesis using True assms(4) by (auto simp: lookup_None_iff)
next
  case False
  then have "tree_lookup ty (contents T') x = Some y \<longleftrightarrow> tree_lookup ty (contents T) x = Some y" for y
    using lookup_iff [OF assms(2,5)] lookup_iff [OF assms(1,5)] assms(4) by auto
  with False show ?thesis by (cases "tree_lookup ty (contents T) x"; cases "tree_lookup ty (contents T') x") auto
qed

end

section \<open>Trees of one leaf\<close>

text \<open>The tree that holds a given list of entries in its root.\<close>

definition leaf_tree :: "'k ScalarType \<Rightarrow> bool \<Rightarrow> ('k \<times> 'v option) list \<Rightarrow> ('k, 'v) BTree" where
  "leaf_tree ty ko es = \<lparr>keyType = ty, keyOnly = ko, root = 0, heap = [0 \<mapsto> Leaf es],
     nextAddr = 1, treeCount = int (length es), listCapacity = 64\<rparr>"

lemma leaf_tree_simps [simp]:
  "contents (leaf_tree ty ko es) = es" "shallow (leaf_tree ty ko es)" "keyOnly (leaf_tree ty ko es) = ko"
  by (simp_all add: leaf_tree_def contents_def shallow_def)

lemma leaf_tree_tree_inv:
  assumes "sorted_wrt (\<lambda>a b. Compare ty (fst a) (fst b) < 0) es" "fst ` set es \<subseteq> K" "length es \<le> 64"
  shows "tree_inv ty K (leaf_tree ty ko es) 0 (GLeaf 0 es)"
proof -
  have "sorted_wrt (\<lambda>a b. before ty K (Ent 0 a) (Ent 0 b)) es"
    by (rule sorted_wrt_mono_rel [OF _ assms(1)]) (use assms(2) in \<open>auto simp: before_simps\<close>)
  then show ?thesis
    using assms by (simp add: tree_inv_def tree_core_def leaf_tree_def ordered_def sorted_wrt_map image_image capacity_ok_def)
qed

lemma leaf_tree_inv:
  assumes "sorted_wrt (\<lambda>a b. Compare ty (fst a) (fst b) < 0) es" "fst ` set es \<subseteq> K" "length es \<le> 64"
  shows "btree_inv ty K (leaf_tree ty ko es)"
  unfolding btree_inv_def by (rule exI, rule exI, rule leaf_tree_tree_inv [OF assms])

end
