(* ===== verification/BTree_Locs.thy ===== *)
theory BTree_Locs
  imports BTree_Map
begin

text \<open>
  The entries of a B-tree together with the leaves that hold them. Some buffers keep
  pointers to leaves, so they rely on what the values-moved callback reports and on entries
  staying where they are.
\<close>

fun collect_locs :: "nat \<Rightarrow> ('k, 'v) heap \<Rightarrow> addr \<Rightarrow> (addr \<times> 'k \<times> 'v option) list" where
  "collect_locs 0 h p = []"
| "collect_locs (Suc fuel) h p =
     (case h p of
        None \<Rightarrow> []
      | Some (Leaf es) \<Rightarrow> map (Pair p) es
      | Some (Branch ks cs) \<Rightarrow> concat (map (collect_locs fuel h) cs))"

definition located :: "('k, 'v) BTree \<Rightarrow> (addr \<times> 'k \<times> 'v option) list" where
  "located T = collect_locs (nextAddr T) (heap T) (root T)"

text \<open>Writing the slot a path leads to.\<close>

definition set_path_value :: "('k, 'v) BTree \<Rightarrow> Path \<Rightarrow> 'v \<Rightarrow> err + ('k, 'v) BTree" where
  "set_path_value T path v =
     bindE (deref_leaf (heap T) (PathLeaf path)) (\<lambda>es.
     bindE (nthE es (LeafIndex path)) (\<lambda>e.
       if snd e = None then Inl NullPointer
       else Inr (store T (PathLeaf path) (Leaf (es[LeafIndex path := (fst e, Some v)])))))"

lemma locs_weaveR: "length ks = length xs \<Longrightarrow> locs (weaveR ks xs) = concat (map locs xs)"
  by (induction ks xs rule: list_induct2) simp_all

lemma locs_weave: "length xs = Suc (length ks) \<Longrightarrow> locs (weave ks xs) = concat (map locs xs)"
  by (cases xs) (simp_all add: locs_weaveR)

lemma collect_locs_rep:
  assumes "rep h t" "shape cap d t \<or> rshape cap d t" "d < fuel"
  shows "collect_locs fuel h (addr_of t) = locs (inorder t)"
  using assms
proof (induction t arbitrary: d fuel)
  case (GLeaf a es)
  then show ?case by (cases fuel) auto
next
  case (GBranch a ks ts)
  obtain d' where d: "d = Suc d'" "length ts = Suc (length ks)" "\<forall>t\<in>set ts. shape cap d' t"
    using GBranch.prems(2) by (auto simp: shape_GBranch rshape_GBranch)
  obtain f where f: "fuel = Suc f" "d' < f" using GBranch.prems d by (cases fuel) auto
  have "map (collect_locs f h \<circ> addr_of) ts = map (locs \<circ> inorder) ts"
    using GBranch.IH [of _ d' f] GBranch.prems(1) d f by (intro map_cong) auto
  with GBranch.prems(1) f d show ?case by (simp add: locs_weave comp_def cong: map_cong)
qed

lemma located_inorder: "tree_inv ty K T D t \<Longrightarrow> located T = locs (inorder t)"
  using tree_inv_height [of ty K T D t] collect_locs_rep [of "heap T" t "listCapacity T" D "nextAddr T"]
  by (auto simp: located_def tree_inv_def tree_core_def)

lemma located_contents: "btree_inv ty K T \<Longrightarrow> contents T = map snd (located T)"
  by (auto simp: btree_inv_def located_inorder contents_inorder ents_def)

lemma new_BTree_located [simp]: "located (new_BTree ty ko) = []"
  by (simp add: located_def new_BTree_def)

lemma locs_leaf: "rep h t \<Longrightarrow> (a, e) \<in> set (locs (inorder t)) \<Longrightarrow> shape cap d t \<or> rshape cap d t \<Longrightarrow>
  \<exists>es. h a = Some (Leaf es) \<and> e \<in> set es \<and> Pair a ` set es \<subseteq> set (locs (inorder t))"
proof (induction t arbitrary: d)
  case (GBranch b ks ts)
  obtain d' where d: "length ts = Suc (length ks)" "\<forall>t\<in>set ts. shape cap d' t"
    using GBranch.prems(3) by (auto simp: shape_GBranch rshape_GBranch)
  with GBranch.prems obtain t where t: "t \<in> set ts" "(a, e) \<in> set (locs (inorder t))" by (auto simp: locs_weave)
  then have "\<exists>es. h a = Some (Leaf es) \<and> e \<in> set es \<and> Pair a ` set es \<subseteq> set (locs (inorder t))"
    using GBranch.IH [OF t(1), of d'] GBranch.prems(1) d(2) by auto
  with t(1) d(1) show ?case by (auto simp: locs_weave)
qed auto

lemma located_leaf:
  assumes "btree_inv ty K T" "(a, e) \<in> set (located T)"
  shows "\<exists>es. heap T a = Some (Leaf es) \<and> e \<in> set es \<and> Pair a ` set es \<subseteq> set (located T)"
proof -
  obtain D t where inv: "tree_inv ty K T D t" using assms(1) by (auto simp: btree_inv_def)
  then show ?thesis using locs_leaf [of "heap T" t a e "listCapacity T" D] assms(2) located_inorder [OF inv]
    by (auto simp: tree_inv_def tree_core_def)
qed

lemma ordered_value: "ordered ty K (xs @ Ent a (k, v) # ys) \<longleftrightarrow> ordered ty K (xs @ Ent a (k, w) # ys)"
proof -
  have "before ty K x (Ent a (k, v)) \<longleftrightarrow> before ty K x (Ent a (k, w))" for x
    by (cases x) (simp_all add: before_simps)
  then show ?thesis by (simp add: ordered_simps before_simps)
qed

text \<open>A deletion that rebalances nothing leaves every other entry in its leaf.\<close>

definition stays :: "('k, 'v) BTree \<Rightarrow> Path \<Rightarrow> bool" where
  "stays T path \<longleftrightarrow> PathLeaf path = root T \<or> 33 \<le> node_width (heap T) (PathLeaf path)"

context scalar_order
begin

text \<open>
  Insertion: an entry is in the leaf it was in (the leaf of the path, for a new one), or its
  leaf is reported.
\<close>

lemma Insert_located:
  assumes "btree_inv ty K T" "k \<in> K" "GetPath T k = Inr path" "\<not> Match path"
  shows "\<exists>T' moved. Insert T path k v = Inr (T', moved) \<and> btree_inv ty K T' \<and> keyOnly T' = keyOnly T \<and>
    set (contents T') = insert (slot T k v) (set (contents T)) \<and> length (contents T') = Suc (length (contents T)) \<and>
    (\<forall>b e w. (b, e, Some w) \<in> set (located T') \<longrightarrow> (w, b) \<in> set moved \<or>
      (b, e, Some w) \<in> set (located T) \<or> (e, Some w) = slot T k v \<and> b = PathLeaf path) \<and>
    (\<forall>w b. (w, b) \<in> set moved \<longrightarrow> (\<exists>e. (b, e, Some w) \<in> set (located T')))"
proof -
  obtain D t where inv: "tree_inv ty K T D t" using assms(1) by (auto simp: btree_inv_def)
  obtain fs a l r m where pos: "position ty K k t fs a l r m" and
    path: "path = \<lparr>Branches = rev (path_of fs), PathLeaf = a, LeafIndex = length l, Match = m\<rparr>"
    using GetPath_position [OF inv assms(2)] assms(3) by auto
  have "m = False" using path assms(4) by simp
  with pos obtain T' D' t' moved X where i: "Insert T path k v = Inr (T', moved)" "tree_inv ty K T' D' t'"
    "keyOnly T' = keyOnly T" "locs (inorder t') = locs (lefts fs) @ X @ locs (rights fs)"
    "map snd X = l @ slot T k v # r" "moved_ok a X moved"
    using Insert_inv [OF inv _ assms(2), of fs a l r path v] path by auto
  have old: "located T = locs (lefts fs) @ map (Pair a) (l @ r) @ locs (rights fs)"
    using located_inorder [OF inv] pos by (auto simp: position_def inorder_plug)
  have new: "located T' = locs (lefts fs) @ X @ locs (rights fs)" using located_inorder [OF i(2)] i(4) by simp
  have X: "snd x \<in> set l \<union> set r \<or> snd x = slot T k v" if "x \<in> set X" for x
    using arg_cong [OF i(5), of set] that by auto
  have 1: "(w, b) \<in> set moved \<or> (b, e, Some w) \<in> set (located T) \<or> (e, Some w) = slot T k v \<and> b = PathLeaf path"
    if x: "(b, e, Some w) \<in> set (located T')" for b e w
  proof (cases "(b, e, Some w) \<in> set X")
    case True
    with i(6) have "(w, b) \<in> set moved \<or> b = a" by (auto simp: moved_ok_def)
    with X [OF True] old path show ?thesis by auto
  qed (use x new old in auto)
  have 2: "\<exists>e. (b, e, Some w) \<in> set (located T')" if "(w, b) \<in> set moved" for w b
    using i(6) that new by (auto simp: moved_ok_def)
  obtain T'' moved' where m: "Insert T path k v = Inr (T'', moved')" "btree_inv ty K T''"
    "set (contents T'') = insert (slot T k v) (set (contents T))" "length (contents T'') = Suc (length (contents T))"
    using Insert_map [OF assms, of v] by blast
  with i(1,3) 1 2 show ?thesis by auto
qed

lemma Delete_located:
  assumes "btree_inv ty K T" "k \<in> K" "GetPath T k = Inr path" "Match path" "stays T path"
  shows "\<exists>T' e. Delete T path = Inr T' \<and> btree_inv ty K T' \<and> keyOnly T' = keyOnly T \<and>
    tree_lookup ty (contents T) k = Some e \<and> set (contents T') = set (contents T) - {e} \<and>
    length (contents T) = Suc (length (contents T')) \<and> set (located T') = {x \<in> set (located T). snd x \<noteq> e}"
proof -
  obtain D t where inv: "tree_inv ty K T D t" using assms(1) by (auto simp: btree_inv_def)
  obtain fs a l r m where pos: "position ty K k t fs a l r m" and
    path: "path = \<lparr>Branches = rev (path_of fs), PathLeaf = a, LeafIndex = length l, Match = m\<rparr>"
    using GetPath_position [OF inv assms(2)] assms(3) by auto
  obtain e r' where r: "r = e # r'" "Compare ty k (fst e) = 0" using pos path assms(4) by (auto simp: position_def)
  have t: "t = plug fs (GLeaf a (l @ e # r'))" "frames_ok fs" using pos r by (auto simp: position_def)
  have core: "tree_core ty K T D (plug fs (GLeaf a (l @ e # r')))" using inv t(1) by (simp add: tree_inv_def)
  note lf = leaf_focus [OF core t(2)]
  have "fs = [] \<or> 33 \<le> length (l @ e # r')"
    using assms(5) lf(3,5,6) ctx_root_in [of fs a] path by (auto simp: stays_def node_width_def)
  then obtain T' t' where d: "Delete T path = Inr T'" "tree_inv ty K T' D t'"
    "locs (inorder t') = locs (lefts fs) @ map (Pair a) (l @ r') @ locs (rights fs)"
    using Delete_simple [OF inv t, of path] path by auto
  have old: "located T = locs (lefts fs) @ map (Pair a) (l @ e # r') @ locs (rights fs)"
    using located_inorder [OF inv] t by (simp add: inorder_plug)
  have new: "located T' = locs (lefts fs) @ map (Pair a) (l @ r') @ locs (rights fs)" using located_inorder [OF d(2)] d(3) by simp
  have "delete_safe T path" using assms(5) by (auto simp: stays_def delete_safe_def)
  then obtain T'' e' where m: "Delete T path = Inr T''" "btree_inv ty K T''" "keyOnly T'' = keyOnly T"
    "tree_lookup ty (contents T) k = Some e'" "set (contents T'') = set (contents T) - {e'}"
    "length (contents T) = Suc (length (contents T''))" using Delete_map [OF assms(1-4)] by blast
  have "e \<in> set (contents T)" using located_contents [OF assms(1)] old by simp
  then have e: "e' = e" using m(4) r(2) lookup_iff [OF assms(1,2), of e] by simp
  have "distinct (map snd (located T))" using distinct_contents [OF assms(1)] located_contents [OF assms(1)] by simp
  then have "set (located T') = {x \<in> set (located T). snd x \<noteq> e}" using old new by auto
  with m d(1) e show ?thesis by auto
qed

text \<open>Writing the value of an entry in place.\<close>

lemma set_path_value_map:
  assumes "btree_inv ty K T" "k \<in> K" "GetPath T k = Inr path" "tree_lookup ty (contents T) k = Some (k0, Some w)"
  shows "\<exists>T'. set_path_value T path v = Inr T' \<and> btree_inv ty K T' \<and> keyOnly T' = keyOnly T \<and>
    set (contents T') = insert (k0, Some v) (set (contents T) - {(k0, Some w)}) \<and> length (contents T') = length (contents T)"
proof -
  obtain D t where inv: "tree_inv ty K T D t" using assms(1) by (auto simp: btree_inv_def)
  obtain fs a l r m where pos: "position ty K k t fs a l r m" and
    path: "path = \<lparr>Branches = rev (path_of fs), PathLeaf = a, LeafIndex = length l, Match = m\<rparr>"
    using GetPath_position [OF inv assms(2)] assms(3) by auto
  have "m" using position_match [OF pos assms(2)] contents_inorder [OF inv] lookup_iff [OF assms(1,2), of "(k0, Some w)"] assms(4) by force
  then obtain e r' where r: "r = e # r'" "Compare ty k (fst e) = 0" using pos by (auto simp: position_def)
  have con: "contents T = ents (lefts fs) @ l @ e # r' @ ents (rights fs)"
    using contents_inorder [OF inv] position_ents [OF pos] r by simp
  then have e: "e = (k0, Some w)" using lookup_iff [OF assms(1,2), of e] assms(4) r(2) by simp
  have t: "t = plug fs (GLeaf a (l @ (k0, Some w) # r'))" "frames_ok fs" using pos r e by (auto simp: position_def)
  have core: "tree_core ty K T D (plug fs (GLeaf a (l @ (k0, Some w) # r')))" using inv t(1) by (simp add: tree_inv_def)
  note lf = leaf_focus [OF core t(2)]
  let ?es = "l @ (k0, Some v) # r'"
  let ?T = "T\<lparr>heap := (heap T)(a \<mapsto> Leaf ?es)\<rparr>"
  have "set_path_value T path v = Inr ?T" using lf(3) path by (simp add: set_path_value_def store_def)
  moreover have "focus_shape (listCapacity T) fs 0 (GLeaf a ?es)" using lf(2) by (auto simp: focus_shape_def split: if_splits)
  then have "rshape (listCapacity T) D (plug fs (GLeaf a ?es))" by (rule rshape_plugI [OF lf(1)])
  moreover have "ordered ty K (lefts fs @ map (Ent a) ?es @ rights fs)"
    using lf(8) ordered_value [of ty K "lefts fs @ map (Ent a) l" a k0 "Some w" "map (Ent a) r' @ rights fs" "Some v"] by simp
  ultimately have new: "tree_inv ty K ?T D (plug fs (GLeaf a ?es))" "set_path_value T path v = Inr ?T"
    using lf(4-7,9,12) inv con e contents_inorder [OF inv]
    by (auto simp: tree_inv_def tree_core_def rep_plug inorder_plug [OF t(2)])
  have "contents ?T = ents (lefts fs) @ l @ (k0, Some v) # r' @ ents (rights fs)"
    using contents_inorder [OF new(1)] by (simp add: inorder_plug [OF t(2)])
  moreover have "distinct (contents T)" by (rule distinct_contents [OF assms(1)])
  ultimately have "set (contents ?T) = insert (k0, Some v) (set (contents T) - {(k0, Some w)})" "length (contents ?T) = length (contents T)"
    using con e by auto
  with new show ?thesis by (auto simp: btree_inv_def)
qed

end

end
