(* ===== verification/Buffer.thy ===== *)
theory Buffer
  imports BTree_Locs
begin

text \<open>
  What the column buffers of \<open>FastoreCommon/Buffer\<close> share: the request and result messages,
  reading keys through possibly null pointers, the positioning and the loop of the
  \<open>GetRows\<close> functions, and the contract every buffer keeps when it includes and excludes
  rows.
\<close>

section \<open>Messages\<close>

text \<open>
  The message types of \<open>Communication/Comm_types.h\<close>. An optional field is an option; the
  \<open>__isset\<close> flag is its constructor.
\<close>

record RangeBound =
  boundValue :: string
  inclusive :: bool

record RangeRequest =
  ascending :: bool
  limit :: "32 word"
  first :: "RangeBound option"
  last_bound :: "RangeBound option"
  start_rowID :: "string option"

record ValueRows =
  vrValue :: string
  vrRowIDs :: "string list"

record RangeResult =
  valueRowsList :: "ValueRows list"
  res_eof :: bool
  res_bof :: bool
  limited :: bool

record Cell =
  cell_rowID :: string
  cell_value :: string

record ColumnWrites =
  cw_includes :: "Cell list"
  cw_excludes :: "Cell list"

record Statistic =
  total :: int
  unique :: int

type_synonym OptionalValue = "string option"

definition new_RangeResult :: RangeResult where
  "new_RangeResult = \<lparr>valueRowsList = [], res_eof = False, res_bof = False, limited = False\<rparr>"

section \<open>Keys behind pointers\<close>

text \<open>
  A search whose key pointer may be null (\<open>None\<close>). The key is read at the first comparison;
  only an empty root leaf is searched without one.
\<close>

definition GetPathPtr :: "('k, 'v) BTree \<Rightarrow> 'k option \<Rightarrow> err + Path" where
  "GetPathPtr T key =
     (case key of
        Some k \<Rightarrow> GetPath T k
      | None \<Rightarrow>
          bindE (deref (heap T) (root T)) (\<lambda>n.
            case n of
              Leaf [] \<Rightarrow> Inr \<lparr>Branches = [], PathLeaf = root T, LeafIndex = 0, Match = False\<rparr>
            | _ \<Rightarrow> Inl NullPointer))"

definition findNearestPtr :: "('k, 'v) BTree \<Rightarrow> 'k option \<Rightarrow> err + iter \<times> bool" where
  "findNearestPtr T key =
     bindE (GetPathPtr T key) (\<lambda>p. bindE (new_iterator T p) (\<lambda>it. Inr (it, Match p)))"

lemma GetPathPtr_Some [simp]: "GetPathPtr T (Some k) = GetPath T k"
  by (simp add: GetPathPtr_def)

lemma findNearestPtr_Some [simp]: "findNearestPtr T (Some k) = iter_findNearest T k"
  by (simp add: findNearestPtr_def iter_findNearest_def)

section \<open>Positioning a range\<close>

text \<open>The pointers of the bounds, with their inclusive flags.\<close>

definition bound_pointer :: "'k ScalarType \<Rightarrow> RangeBound option \<Rightarrow> err + ('k \<times> bool) option" where
  "bound_pointer ty b =
     (case b of
        None \<Rightarrow> Inr None
      | Some rb \<Rightarrow> bindE (GetPointer ty (boundValue rb)) (\<lambda>k. Inr (Some (k, inclusive rb))))"

definition row_pointer :: "'r ScalarType \<Rightarrow> string option \<Rightarrow> err + 'r option" where
  "row_pointer ty s =
     (case s of None \<Rightarrow> Inr None | Some x \<Rightarrow> bindE (GetPointer ty x) (\<lambda>r. Inr (Some r)))"

text \<open>
  The check for disjoint constraints. It fills in an empty result and does not return, so
  the fields are overwritten by what follows.
\<close>

definition disjoint_constraints :: "'k ScalarType \<Rightarrow> bool \<Rightarrow> ('k \<times> bool) option \<Rightarrow> ('k \<times> bool) option \<Rightarrow> RangeResult \<Rightarrow> RangeResult" where
  "disjoint_constraints ty asc fst_bound lst_bound result =
     (case (fst_bound, lst_bound) of
        (Some (f, _), Some (l, _)) \<Rightarrow>
          if asc \<and> 0 < Compare ty f l \<or> \<not> asc \<and> Compare ty f l < 0
          then result\<lparr>valueRowsList := [], res_bof := True, res_eof := True, limited := False\<rparr>
          else result
      | _ \<Rightarrow> result)"

text \<open>
  The iterators \<open>begin\<close> and \<open>end\<close> of a range and the flags \<open>bof\<close> and \<open>eof\<close>. The start key
  is the value of the row the request continues after; its lookup can fail, and a missing
  row gives a null pointer.
\<close>

definition range_bounds ::
  "('k, 'v) BTree \<Rightarrow> bool \<Rightarrow> (err + 'k option) option \<Rightarrow> ('k \<times> bool) option \<Rightarrow> ('k \<times> bool) option \<Rightarrow>
   err + iter \<times> iter \<times> bool \<times> bool"
where
  "range_bounds T asc start fst_bound lst_bound =
     bindE (if asc then iter_begin T else iter_end T) (\<lambda>firstMarker.
     bindE (if asc then iter_end T else iter_begin T) (\<lambda>lastMarker.
     (let bInclusive = (case fst_bound of None \<Rightarrow> True | Some (_, i) \<Rightarrow> i);
          eInclusive = (case lst_bound of None \<Rightarrow> True | Some (_, i) \<Rightarrow> i)
      in
      bindE (case start of
               Some m \<Rightarrow> bindE m (findNearestPtr T)
             | None \<Rightarrow> (case fst_bound of
                  Some (k, _) \<Rightarrow> iter_findNearest T k
                | None \<Rightarrow> Inr (firstMarker, False))) (\<lambda>(b, beginMatch).
      bindE (case lst_bound of
               Some (k, _) \<Rightarrow> iter_findNearest T k
             | None \<Rightarrow> Inr (lastMarker, False)) (\<lambda>(e, endMatch).
      (let bof = iter_eq b firstMarker; eof = iter_eq e lastMarker
       in
       bindE (if (if asc then \<not> bInclusive else bInclusive) \<and> beginMatch
              then bindE (MoveNext T b) (\<lambda>b'. Inr (b', False)) else Inr (b, bof)) (\<lambda>(b', bof').
       bindE (if (if asc then eInclusive else \<not> eInclusive) \<and> endMatch
              then bindE (MoveNext T e) (\<lambda>e'. Inr (e', iter_eq e' lastMarker)) else Inr (e, eof)) (\<lambda>(e', eof').
         Inr (b', e', bof', eof'))))))))) "

text \<open>The state of the loop: the result so far, the rows, their number.\<close>

record scan =
  result :: RangeResult
  startFound :: bool
  vrl :: "ValueRows list"
  num :: nat

text \<open>
  The end of \<open>GetRows\<close>: a limited scan has not seen the end.
\<close>

definition finish_scan :: "scan \<Rightarrow> RangeResult" where
  "finish_scan s =
     (let r = result s;
          r' = (if limited r \<and> res_eof r then r\<lparr>res_eof := False\<rparr> else r)
      in r'\<lparr>valueRowsList := vrl s\<rparr>)"

text \<open>
  The part of \<open>GetRows\<close> from the markers on: positioning, the loop with the visit of an
  entry, the adjustment of \<open>eof\<close>. A loop over the entries needs at most one step for each
  entry and one to see the end.
\<close>

definition scan_range ::
  "('k, 'v) BTree \<Rightarrow> bool \<Rightarrow> (err + 'k option) option \<Rightarrow> ('k \<times> bool) option \<Rightarrow> ('k \<times> bool) option \<Rightarrow>
   RangeResult \<Rightarrow> ('k \<times> 'v option \<Rightarrow> scan \<Rightarrow> err + scan) \<Rightarrow> err + RangeResult"
where
  "scan_range T asc start fst_bound lst_bound result0 visit =
     bindE (range_bounds T asc start fst_bound lst_bound) (\<lambda>(b, e, bof, eof).
     bindE (range_loop (MoveNext T) (MovePrior T) (iter_get T) iter_eq asc visit (\<lambda>s. limited (result s))
              (nat (treeCount T) + 2) b e
              \<lparr>result = result0\<lparr>res_bof := bof, res_eof := eof\<rparr>, startFound = (start = None), vrl = [], num = 0\<rparr>)
       (\<lambda>s. Inr (finish_scan s)))"

text \<open>
  The visit of an entry in the buffers with one row for each value. \<open>size_t(range.limit)\<close> is
  the limit modulo \<open>2 ^ 64\<close>.
\<close>

definition visit_row ::
  "'v ScalarType \<Rightarrow> 'r ScalarType \<Rightarrow> 'r option \<Rightarrow> 32 word \<Rightarrow> 'v \<Rightarrow> 'r \<Rightarrow> scan \<Rightarrow> err + scan"
where
  "visit_row vty rty startId lim valuep rowIdp st =
     (if \<not> startFound st \<and> (case startId of Some s \<Rightarrow> Compare rty rowIdp s = 0 | None \<Rightarrow> False)
      then Inr (st\<lparr>startFound := True, result := (result st)\<lparr>res_bof := False\<rparr>\<rparr>)
      else
        bindE (CopyOut vty valuep) (\<lambda>value.
        bindE (CopyOut rty rowIdp) (\<lambda>rowId.
          (let rows = vrl st @ [\<lparr>vrValue = value, vrRowIDs = [rowId]\<rparr>]
           in Inr (st\<lparr>vrl := rows,
                      result := (result st)\<lparr>limited := (int (length rows) = sint lim mod 2 ^ 64)\<rparr>\<rparr>)))))"

text \<open>Sequences of writes and of lookups.\<close>

fun foldE :: "('a \<Rightarrow> 's \<Rightarrow> err + 's) \<Rightarrow> 'a list \<Rightarrow> 's \<Rightarrow> err + 's" where
  "foldE f [] s = Inr s"
| "foldE f (x # xs) s = bindE (f x s) (foldE f xs)"

fun mapE :: "('a \<Rightarrow> err + 'b) \<Rightarrow> 'a list \<Rightarrow> err + 'b list" where
  "mapE f [] = Inr []"
| "mapE f (x # xs) = bindE (f x) (\<lambda>y. bindE (mapE f xs) (\<lambda>ys. Inr (y # ys)))"

section \<open>The positions of a range\<close>

text \<open>
  A key against a bound, which is a lower bound (\<open>lower\<close>) or an upper one; and the number of
  entries left of an iterator placed at the bound.
\<close>

definition in_bound :: "'k ScalarType \<Rightarrow> bool \<Rightarrow> ('k \<times> bool) option \<Rightarrow> 'k \<Rightarrow> bool" where
  "in_bound ty lower bd k =
     (case bd of
        None \<Rightarrow> True
      | Some (b, inc) \<Rightarrow>
          if lower then (if inc then 0 \<le> Compare ty k b else 0 < Compare ty k b)
          else (if inc then Compare ty k b \<le> 0 else Compare ty k b < 0))"

definition bound_pos :: "'k ScalarType \<Rightarrow> bool \<Rightarrow> ('k \<times> bool) option \<Rightarrow> ('k \<times> 'v option) list \<Rightarrow> nat" where
  "bound_pos ty lower bd es =
     (case bd of
        None \<Rightarrow> if lower then 0 else length es
      | Some (b, inc) \<Rightarrow>
          length (takeWhile (\<lambda>e. if lower = inc then Compare ty (fst e) b < 0 else Compare ty (fst e) b \<le> 0) es))"

text \<open>The bound a scan begins at: the value of the start row, or the first bound.\<close>

definition begin_bound :: "'k option \<Rightarrow> ('k \<times> bool) option \<Rightarrow> ('k \<times> bool) option" where
  "begin_bound sk f =
     (case sk of Some k \<Rightarrow> Some (k, case f of None \<Rightarrow> True | Some (_, i) \<Rightarrow> i) | None \<Rightarrow> f)"

text \<open>What a range request selects, in the order of the scan.\<close>

definition selected ::
  "'k ScalarType \<Rightarrow> bool \<Rightarrow> ('k \<times> bool) option \<Rightarrow> ('k \<times> bool) option \<Rightarrow> ('k \<times> 'v option) list \<Rightarrow> ('k \<times> 'v option) list"
where
  "selected ty asc b e es =
     (if asc then id else rev) (filter (\<lambda>x. in_bound ty asc b (fst x) \<and> in_bound ty (\<not> asc) e (fst x)) es)"

text \<open>
  Bounds between which the loop ends: they are in order, or equal and not both exclusive.
\<close>

definition bounds_meet :: "'k ScalarType \<Rightarrow> bool \<Rightarrow> ('k \<times> bool) option \<Rightarrow> ('k \<times> bool) option \<Rightarrow> bool" where
  "bounds_meet ty asc b e =
     (case (b, e) of
        (Some (x, i), Some (y, j)) \<Rightarrow>
          (let c = (if asc then Compare ty x y else Compare ty y x) in c < 0 \<or> c = 0 \<and> (i \<or> j))
      | _ \<Rightarrow> True)"

definition bound_in :: "'k set \<Rightarrow> ('k \<times> bool) option \<Rightarrow> bool" where
  "bound_in K bd = (case bd of None \<Rightarrow> True | Some (k, _) \<Rightarrow> k \<in> K)"

lemma bound_in_simps [simp]: "bound_in K None" "bound_in K (Some (k, i)) \<longleftrightarrow> k \<in> K"
  by (simp_all add: bound_in_def)

lemma slice_filter:
  assumes "sorted_wrt R es" "\<And>a b. a \<in> set es \<Longrightarrow> b \<in> set es \<Longrightarrow> R a b \<Longrightarrow> P b \<Longrightarrow> P a"
    and "\<And>a b. a \<in> set es \<Longrightarrow> b \<in> set es \<Longrightarrow> R a b \<Longrightarrow> Q b \<Longrightarrow> Q a"
  shows "drop (length (takeWhile P es)) (take (length (takeWhile Q es)) es) = filter (\<lambda>e. \<not> P e \<and> Q e) es"
  using assms
proof (induction es)
  case (Cons x es)
  have IH: "drop (length (takeWhile P es)) (take (length (takeWhile Q es)) es) = filter (\<lambda>e. \<not> P e \<and> Q e) es"
    using Cons.prems by (intro Cons.IH) auto
  have later: "\<not> Q y" if "\<not> Q x" "y \<in> set es" for y using Cons.prems(1,3) that by auto
  have "\<not> P y" if "\<not> P x" "y \<in> set es" for y using Cons.prems(1,2) that by auto
  then have "takeWhile P es = []" if "\<not> P x" using that by (cases es) auto
  with IH later show ?case by (auto simp: filter_empty_conv)
qed simp

lemma takeWhile_True [simp]: "takeWhile (\<lambda>x. True) xs = xs"
  by (induction xs) simp_all

lemma takeWhile_mono_length:
  "(\<And>x. x \<in> set xs \<Longrightarrow> P x \<Longrightarrow> Q x) \<Longrightarrow> length (takeWhile P xs) \<le> length (takeWhile Q xs)"
  by (induction xs) auto

context scalar_order
begin

text \<open>The entries between two bounds are the entries the bounds select.\<close>

lemma slice_selected:
  assumes es: "sorted_wrt (\<lambda>a b. Compare ty (fst a) (fst b) < 0) es" "fst ` set es \<subseteq> K"
    and lo: "bound_in K lo" and hi: "bound_in K hi"
  shows "drop (bound_pos ty True lo es) (take (bound_pos ty False hi es) es) =
    filter (\<lambda>x. in_bound ty True lo (fst x) \<and> in_bound ty False hi (fst x)) es"
proof -
  let ?P = "\<lambda>e. \<not> in_bound ty True lo (fst e)" and ?Q = "\<lambda>e. in_bound ty False hi (fst e)"
  have mono: "Compare ty b k < 0 \<longrightarrow> Compare ty a k < 0" "Compare ty b k \<le> 0 \<longrightarrow> Compare ty a k \<le> 0"
    if "a \<in> K" "b \<in> K" "k \<in> K" "Compare ty a b < 0" for a b k
    using that cmp_lt_le_trans [of a b k] by auto
  have "bound_pos ty True lo es = length (takeWhile ?P es)"
  proof (cases lo)
    case (Some x)
    then show ?thesis by (cases x; cases "snd x") (simp_all add: bound_pos_def in_bound_def not_less not_le)
  qed (cases es; simp add: bound_pos_def in_bound_def)
  moreover have "bound_pos ty False hi es = length (takeWhile ?Q es)"
  proof (cases hi)
    case (Some x)
    then show ?thesis by (cases x; cases "snd x") (simp_all add: bound_pos_def in_bound_def)
  next
    case None
    then show ?thesis by (simp add: bound_pos_def in_bound_def)
  qed
  moreover have "drop (length (takeWhile ?P es)) (take (length (takeWhile ?Q es)) es) = filter (\<lambda>e. \<not> ?P e \<and> ?Q e) es"
  proof (rule slice_filter [OF es(1)])
    fix a b assume ab: "a \<in> set es" "b \<in> set es" "Compare ty (fst a) (fst b) < 0"
    then have K: "fst a \<in> K" "fst b \<in> K" using es(2) by auto
    show "?P a" if "?P b"
    proof (cases lo)
      case (Some x)
      with lo have "fst x \<in> K" by (cases x) simp
      with Some mono [OF K _ ab(3), of "fst x"] that show ?thesis
        by (cases x; cases "snd x") (simp_all add: in_bound_def not_less not_le)
    qed (use that in \<open>simp add: in_bound_def\<close>)
    show "?Q a" if "?Q b"
    proof (cases hi)
      case (Some x)
      with hi have "fst x \<in> K" by (cases x) simp
      with Some mono [OF K _ ab(3), of "fst x"] that show ?thesis
        by (cases x; cases "snd x") (simp_all add: in_bound_def)
    qed (simp add: in_bound_def)
  qed
  ultimately show ?thesis by simp
qed

lemma weak_rank:
  assumes "sorted_wrt (\<lambda>a b. Compare ty (fst a) (fst b) < 0) es" "fst ` set es \<subseteq> K" "k \<in> K"
  shows "length (takeWhile (\<lambda>e. Compare ty (fst e) k \<le> 0) es) =
    rank ty k es + (if \<exists>e\<in>set es. Compare ty k (fst e) = 0 then 1 else 0)"
  using assms(1,2)
proof (induction es)
  case (Cons x es)
  have x: "fst x \<in> K" using Cons.prems by simp
  have es: "fst y \<in> K" "Compare ty (fst x) (fst y) < 0" if "y \<in> set es" for y
    using Cons.prems that by auto
  show ?case
  proof (cases "Compare ty (fst x) k < 0")
    case True
    then have "Compare ty k (fst x) \<noteq> 0" using cmp_eq_sym [OF assms(3) x] by simp
    moreover have "length (takeWhile (\<lambda>e. Compare ty (fst e) k \<le> 0) es) =
        rank ty k es + (if \<exists>e\<in>set es. Compare ty k (fst e) = 0 then 1 else 0)"
      using Cons by simp
    ultimately show ?thesis using True by (simp add: rank_def)
  next
    case False
    have gt: "0 < Compare ty (fst y) k" if "y \<in> set es" for y
      using cmp_le_lt_trans [OF assms(3) x es(1) [OF that]] es(2) [OF that] False
        cmp_le_iff [OF assms(3) x] cmp_sym [OF assms(3) es(1) [OF that]] by simp
    have "Compare ty k (fst y) \<noteq> 0" if "y \<in> set es" for y
      using gt [OF that] cmp_eq_sym [OF assms(3) es(1) [OF that]] by simp
    moreover have "takeWhile (\<lambda>e. Compare ty (fst e) k \<le> 0) es = []"
      using gt [of "hd es"] by (cases es) simp_all
    ultimately show ?thesis using False cmp_eq_sym [OF assms(3) x] by (simp add: rank_def)
  qed
qed (simp add: rank_def)

text \<open>An iterator placed at a bound: a search, and one step more when an equal entry is passed.\<close>

lemma place_bound:
  assumes inv: "btree_inv ty K T" "shallow T" "k \<in> K"
  shows "\<exists>it m it'. iter_findNearest T k = Inr (it, m) \<and> iter_pos ty K T (rank ty k (contents T)) it \<and>
    (if adv \<and> m then MoveNext T it else Inr it) = Inr it' \<and>
    iter_pos ty K T (length (takeWhile (\<lambda>e. if \<not> adv then Compare ty (fst e) k < 0 else Compare ty (fst e) k \<le> 0) (contents T))) it'"
proof -
  obtain it m where it: "iter_findNearest T k = Inr (it, m)" "iter_pos ty K T (rank ty k (contents T)) it"
    "m \<longleftrightarrow> (\<exists>e\<in>set (contents T). Compare ty k (fst e) = 0)"
    using findNearest_pos [OF inv] by blast
  have w: "length (takeWhile (\<lambda>e. Compare ty (fst e) k \<le> 0) (contents T)) = rank ty k (contents T) + (if m then 1 else 0)"
    using weak_rank [OF contents_sorted [OF inv(1)] inv(3)] it(3) by simp
  show ?thesis
  proof (cases "adv \<and> m")
    case True
    then have "rank ty k (contents T) < length (contents T)"
      using w length_takeWhile_le [of "\<lambda>e. Compare ty (fst e) k \<le> 0" "contents T"] by simp
    then obtain it' where "MoveNext T it = Inr it'" "iter_pos ty K T (Suc (rank ty k (contents T))) it'"
      using tree_cursor.forth_at [OF inv(1) it(2)] by blast
    with True it(1,2) w show ?thesis by (intro exI [of _ it] exI [of _ m] exI [of _ it']) simp
  next
    case False
    have "length (takeWhile (\<lambda>e. if \<not> adv then Compare ty (fst e) k < 0 else Compare ty (fst e) k \<le> 0) (contents T)) =
        rank ty k (contents T)" using False w by (cases adv) (simp_all add: rank_def)
    with False it(1,2) show ?thesis by (intro exI [of _ it] exI [of _ m] exI [of _ it]) auto
  qed
qed

lemma meet_pos:
  assumes "bounds_meet ty True lo hi" "fst ` set es \<subseteq> K" "bound_in K lo" "bound_in K hi"
  shows "bound_pos ty True lo es \<le> bound_pos ty False hi es"
proof (cases "lo = None \<or> hi = None")
  case True
  then show ?thesis by (auto simp: bound_pos_def length_takeWhile_le split: option.split)
next
  case False
  then obtain x i y j where lo: "lo = Some (x, i)" and hi: "hi = Some (y, j)" by auto
  have K: "x \<in> K" "y \<in> K" using lo hi assms(3,4) by simp_all
  have meet: "Compare ty x y < 0 \<or> Compare ty x y = 0 \<and> (i \<or> j)"
    using assms(1) lo hi by (simp add: bounds_meet_def Let_def)
  show ?thesis unfolding lo hi bound_pos_def option.case prod.case
  proof (rule takeWhile_mono_length)
    fix e assume e: "e \<in> set es" "if True = i then Compare ty (fst e) x < 0 else Compare ty (fst e) x \<le> 0"
    have "fst e \<in> K" using e(1) assms(2) by auto
    note t = cmp_le_lt_trans [OF this K] cmp_lt_le_trans [OF this K] cmp_trans [OF this K]
    have le: "Compare ty (fst e) y \<le> 0" using t(3) meet e(2) by (cases i) force+
    have "Compare ty (fst e) y < 0" if "\<not> j" using t(1,2) meet e(2) that by (cases i) force+
    with le show "if False = j then Compare ty (fst e) y < 0 else Compare ty (fst e) y \<le> 0" by simp
  qed
qed

lemma bounds_meet_swap: "bounds_meet ty False b e = bounds_meet ty True e b"
  by (auto simp: bounds_meet_def Let_def split: option.splits)

text \<open>The iterators of a range stand at the positions of its bounds.\<close>

abbreviation bound_inc :: "('k \<times> bool) option \<Rightarrow> bool" where
  "bound_inc bd \<equiv> (case bd of None \<Rightarrow> True | Some (_, i) \<Rightarrow> i)"

lemma place_opt:
  assumes inv: "btree_inv ty K T" "shallow T" and bd: "bound_in K bd"
    and mk: "iter_pos ty K T (if lower then 0 else length (contents T)) mk"
  shows "\<exists>it m it'. (case bd of Some (k, _) \<Rightarrow> iter_findNearest T k | None \<Rightarrow> Inr (mk, False)) = Inr (it, m) \<and>
    (if (if lower then \<not> bound_inc bd else bound_inc bd) \<and> m then MoveNext T it else Inr it) = Inr it' \<and>
    iter_pos ty K T (bound_pos ty lower bd (contents T)) it'"
proof (cases bd)
  case None
  with mk show ?thesis by - (rule exI [of _ mk], rule exI [of _ False], rule exI [of _ mk], simp add: bound_pos_def)
next
  case (Some x)
  obtain k i where x: "x = (k, i)" by (cases x)
  have k: "k \<in> K" using bd Some x by simp
  have "bound_pos ty lower bd (contents T) = length (takeWhile (\<lambda>e. if \<not> (if lower then \<not> i else i)
      then Compare ty (fst e) k < 0 else Compare ty (fst e) k \<le> 0) (contents T))"
    using Some x by (cases lower) (simp_all add: bound_pos_def)
  note pos = this
  obtain it m it' where it: "iter_findNearest T k = Inr (it, m)"
    "(if (if lower then \<not> i else i) \<and> m then MoveNext T it else Inr it) = Inr it'"
    "iter_pos ty K T (bound_pos ty lower bd (contents T)) it'"
    using place_bound [OF inv k, of "if lower then \<not> i else i", folded pos] by (elim exE conjE) (rule that)
  show ?thesis using it Some x by - (rule exI [of _ it], rule exI [of _ m], rule exI [of _ it'], simp only: option.case prod.case simp_thms)
qed

lemma range_bounds_at:
  assumes inv: "btree_inv ty K T" "shallow T"
    and st: "set_option sk \<subseteq> K"
    and f: "bound_in K f" and l: "bound_in K l"
  shows "\<exists>b e bof. range_bounds T asc (map_option (\<lambda>k. Inr (Some k)) sk) f l =
      Inr (b, e, bof, bound_pos ty (\<not> asc) l (contents T) = (if asc then length (contents T) else 0)) \<and>
    iter_pos ty K T (bound_pos ty asc (begin_bound sk f) (contents T)) b \<and>
    iter_pos ty K T (bound_pos ty (\<not> asc) l (contents T)) e"
proof -
  let ?es = "contents T" and ?bb = "begin_bound sk f"
  obtain fm where fm: "(if asc then iter_begin T else iter_end T) = Inr fm"
    "iter_pos ty K T (if asc then 0 else length ?es) fm"
    using tree_cursor.at_start [OF inv(1)] tree_cursor.at_finish [OF inv(1)] by (cases asc) auto
  obtain lm where lm: "(if asc then iter_end T else iter_begin T) = Inr lm"
    "iter_pos ty K T (if \<not> asc then 0 else length ?es) lm"
    using tree_cursor.at_start [OF inv(1)] tree_cursor.at_finish [OF inv(1)] by (cases asc) auto
  have bb: "bound_in K ?bb" using st f by (cases sk) (simp_all add: begin_bound_def)
  have start: "(case map_option (\<lambda>k. Inr (Some k)) sk of Some m \<Rightarrow> bindE m (findNearestPtr T)
        | None \<Rightarrow> (case f of Some (k, _) \<Rightarrow> iter_findNearest T k | None \<Rightarrow> Inr (fm, False)))
      = (case ?bb of Some (k, _) \<Rightarrow> iter_findNearest T k | None \<Rightarrow> Inr (fm, False))" "bound_inc f = bound_inc ?bb"
    by (cases sk; simp add: begin_bound_def)+
  obtain b m b' where b: "(case ?bb of Some (k, _) \<Rightarrow> iter_findNearest T k | None \<Rightarrow> Inr (fm, False)) = Inr (b, m)"
    "(if (if asc then \<not> bound_inc ?bb else bound_inc ?bb) \<and> m then MoveNext T b else Inr b) = Inr b'"
    "iter_pos ty K T (bound_pos ty asc ?bb ?es) b'"
    using place_opt [OF inv bb fm(2)] by (elim exE conjE) (rule that)
  obtain e m' e' where e: "(case l of Some (k, _) \<Rightarrow> iter_findNearest T k | None \<Rightarrow> Inr (lm, False)) = Inr (e, m')"
    "(if (if \<not> asc then \<not> bound_inc l else bound_inc l) \<and> m' then MoveNext T e else Inr e) = Inr e'"
    "iter_pos ty K T (bound_pos ty (\<not> asc) l ?es) e'"
    using place_opt [OF inv l lm(2)] by (elim exE conjE) (rule that)
  have eof: "iter_eq e' lm \<longleftrightarrow> bound_pos ty (\<not> asc) l ?es = (if asc then length ?es else 0)"
    using tree_cursor.same_at [OF inv(1) e(3) lm(2)] by auto
  have move: "(if c then bindE (MoveNext T x) (\<lambda>y. Inr (y, g y)) else Inr (x, z)) = Inr (y, if c then g y else z)"
    if "(if c then MoveNext T x else Inr x) = Inr y" for c x y z and g :: "iter \<Rightarrow> bool"
    using that by (cases c) simp_all
  have swap: "(if asc then bound_inc l else \<not> bound_inc l) = (if \<not> asc then \<not> bound_inc l else bound_inc l)" by simp
  have "(if (if \<not> asc then \<not> bound_inc l else bound_inc l) \<and> m' then iter_eq e' lm else iter_eq e lm) = iter_eq e' lm"
    using e(2) by (cases "(if \<not> asc then \<not> bound_inc l else bound_inc l) \<and> m'") simp_all
  then have "range_bounds T asc (map_option (\<lambda>k. Inr (Some k)) sk) f l = Inr (b', e',
      (if (if asc then \<not> bound_inc ?bb else bound_inc ?bb) \<and> m then False else iter_eq b fm), iter_eq e' lm)"
    unfolding range_bounds_def fm(1) lm(1) bindE_simps Let_def start b(1) e(1) prod.case swap move [OF b(2)] move [OF e(2)]
    by simp
  with b(3) e(3) show ?thesis unfolding eof [symmetric] by blast
qed

lemma at_last_iff:
  assumes es: "sorted_wrt (\<lambda>a b. Compare ty (fst a) (fst b) < 0) es" "fst ` set es \<subseteq> K" and l: "bound_in K l"
  shows "bound_pos ty (\<not> asc) l es = (if asc then length es else 0) \<longleftrightarrow> (\<forall>x\<in>set es. in_bound ty (\<not> asc) l (fst x))"
proof -
  have "drop (bound_pos ty True lo es) (take (bound_pos ty False hi es) es) = es \<longleftrightarrow>
      (\<forall>x\<in>set es. in_bound ty True lo (fst x) \<and> in_bound ty False hi (fst x))"
    if "bound_in K lo" "bound_in K hi" for lo hi
    using slice_selected [OF es that] by (simp add: filter_id_conv)
  note all = this [of l None] this [of None l]
  have len: "bound_pos ty lower l es \<le> length es" for lower
    by (auto simp: bound_pos_def length_takeWhile_le split: option.split)
  have none: "bound_pos ty True None es = 0" "bound_pos ty False None es = length es" "in_bound ty lower None k" for lower k
    by (simp_all add: bound_pos_def in_bound_def)
  show ?thesis
  proof (cases asc)
    case True
    have "take (bound_pos ty False l es) es = es \<longleftrightarrow> bound_pos ty False l es = length es" using len [of False] by auto
    with True all(2) l show ?thesis by (simp add: none)
  next
    case False
    have "drop (bound_pos ty True l es) es = es \<longleftrightarrow> bound_pos ty True l es = 0"
      using len [of True] by (auto dest: arg_cong [of _ _ length])
    with False all(1) l show ?thesis by (simp add: none)
  qed
qed

text \<open>
  The scan of a range whose bounds meet: the visits of the selected entries, in order,
  until the limit is reached.
\<close>

lemma scan_range_selected:
  assumes inv: "btree_inv ty K T" "shallow T"
    and st: "set_option sk \<subseteq> K"
    and f: "bound_in K f" and l: "bound_in K l" and meet: "bounds_meet ty asc (begin_bound sk f) l"
  shows "\<exists>bof. scan_range T asc (map_option (\<lambda>k. Inr (Some k)) sk) f l r0 visit =
    bindE (run_until visit (\<lambda>s. limited (result s)) (selected ty asc (begin_bound sk f) l (contents T))
        \<lparr>result = r0\<lparr>res_bof := bof, res_eof := (\<forall>x\<in>set (contents T). in_bound ty (\<not> asc) l (fst x))\<rparr>,
         startFound = (sk = None), vrl = [], num = 0\<rparr>) (\<lambda>s. Inr (finish_scan s))"
proof -
  let ?es = "contents T" and ?bb = "begin_bound sk f"
  note sorted = contents_sorted [OF inv(1)]
  have bb: "bound_in K ?bb" using st f by (cases sk) (simp_all add: begin_bound_def)
  obtain b e bof where r: "range_bounds T asc (map_option (\<lambda>k. Inr (Some k)) sk) f l =
      Inr (b, e, bof, bound_pos ty (\<not> asc) l ?es = (if asc then length ?es else 0))"
    "iter_pos ty K T (bound_pos ty asc ?bb ?es) b" "iter_pos ty K T (bound_pos ty (\<not> asc) l ?es) e"
    using range_bounds_at [OF inv st f l, of asc] by (elim exE conjE) (rule that)
  have fuel: "nat (treeCount T) = length ?es" using treeCount_contents [OF inv(1)] by simp
  have loop: "range_loop (MoveNext T) (MovePrior T) (iter_get T) iter_eq asc visit (\<lambda>s. limited (result s))
      (nat (treeCount T) + 2) b e s = run_until visit (\<lambda>s. limited (result s)) (selected ty asc ?bb l ?es) s" for s
  proof (cases asc)
    case True
    then have le: "bound_pos ty asc ?bb ?es \<le> bound_pos ty (\<not> asc) l ?es" using meet_pos [OF _ sorted(2) bb l] meet by simp
    have "bound_pos ty (\<not> asc) l ?es - bound_pos ty asc ?bb ?es < nat (treeCount T) + 2"
      using tree_cursor.at_le [OF inv(1) r(3)] fuel by linarith
    from tree_cursor.loop_ascending [OF inv(1) r(2,3) le this] slice_selected [OF sorted bb l] True
    show ?thesis by (simp only: selected_def if_True id_apply not_True_eq_False)
  next
    case False
    then have le: "bound_pos ty (\<not> asc) l ?es \<le> bound_pos ty asc ?bb ?es"
      using meet_pos [OF _ sorted(2) l bb] meet by (simp add: bounds_meet_swap)
    have "bound_pos ty asc ?bb ?es - bound_pos ty (\<not> asc) l ?es < nat (treeCount T) + 2"
      using tree_cursor.at_le [OF inv(1) r(2)] fuel by linarith
    from tree_cursor.loop_descending [OF inv(1) r(2,3) le this] slice_selected [OF sorted l bb] False
    show ?thesis by (simp only: selected_def if_False not_False_eq_True conj_commute)
  qed
  show ?thesis unfolding scan_range_def r(1) bindE_simps prod.case at_last_iff [OF sorted l] loop option.map_disc_iff by (rule exI, rule refl)
qed

end

section \<open>The rows of a scan\<close>

text \<open>The limit as the number of rows it stands for; zero is no limit.\<close>

definition row_limit :: "32 word \<Rightarrow> nat" where
  "row_limit lim = nat (sint lim mod 2 ^ 64)"

definition take_limit :: "nat \<Rightarrow> 'a list \<Rightarrow> 'a list" where
  "take_limit n xs = (if n = 0 then xs else take n xs)"

definition wire :: "'k ScalarType \<Rightarrow> 'k \<Rightarrow> string" where
  "wire ty k = (case CopyOut ty k of Inl e \<Rightarrow> [] | Inr s \<Rightarrow> s)"

definition row_of :: "'v ScalarType \<Rightarrow> 'r ScalarType \<Rightarrow> 'v \<times> 'r \<Rightarrow> ValueRows" where
  "row_of vty rty x = \<lparr>vrValue = wire vty (fst x), vrRowIDs = [wire rty (snd x)]\<rparr>"

definition start_row :: "'r ScalarType \<Rightarrow> 'r option \<Rightarrow> 'r \<Rightarrow> bool" where
  "start_row rty startId r = (case startId of Some s \<Rightarrow> Compare rty r s = 0 | None \<Rightarrow> False)"

lemma wire_CopyOut: "CopyOut ty k = Inr s \<Longrightarrow> CopyOut ty k = Inr (wire ty k)"
  by (simp add: wire_def)

text \<open>
  The visits of a list of values with their rows: every row but the start row is written,
  up to the limit.
\<close>

lemma run_rows:
  assumes "\<forall>x\<in>set xs. (\<exists>s. CopyOut vty (fst x) = Inr s) \<and> (\<exists>s. CopyOut rty (snd x) = Inr s)"
    and "\<not> limited (result st)" "row_limit lim = 0 \<or> length (vrl st) < row_limit lim"
    and "startFound st \<or> length (filter (\<lambda>x. start_row rty sid (snd x)) xs) \<le> 1"
    and "ys = (if startFound st then xs else filter (\<lambda>x. \<not> start_row rty sid (snd x)) xs)"
  shows "\<exists>bof sf. run_until (\<lambda>x. visit_row vty rty sid lim (fst x) (snd x)) (\<lambda>s. limited (result s)) xs st =
    Inr (st\<lparr>vrl := vrl st @ map (row_of vty rty) (if row_limit lim = 0 then ys else take (row_limit lim - length (vrl st)) ys),
      startFound := sf,
      result := (result st)\<lparr>res_bof := bof, limited := (row_limit lim \<noteq> 0 \<and> row_limit lim - length (vrl st) \<le> length ys)\<rparr>\<rparr>)"
  using assms
proof (induction xs arbitrary: st ys)
  case Nil
  then show ?case by - (rule exI [of _ "res_bof (result st)"], rule exI [of _ "startFound st"], auto)
next
  case (Cons x xs)
  let ?visit = "\<lambda>x. visit_row vty rty sid lim (fst x) (snd x)"
  show ?case
  proof (cases "\<not> startFound st \<and> start_row rty sid (snd x)")
    case True
    let ?st = "st\<lparr>startFound := True, result := (result st)\<lparr>res_bof := False\<rparr>\<rparr>"
    have v: "?visit x st = Inr ?st" using True by (simp add: visit_row_def start_row_def)
    have "filter (\<lambda>x. start_row rty sid (snd x)) xs = []" using Cons.prems(4) True by simp
    then have "filter (\<lambda>x. \<not> start_row rty sid (snd x)) xs = xs" by (auto simp: filter_id_conv filter_empty_conv)
    then have ys: "ys = xs" using Cons.prems(5) True by simp
    obtain bof sf where "run_until ?visit (\<lambda>s. limited (result s)) xs ?st =
      Inr (?st\<lparr>vrl := vrl ?st @ map (row_of vty rty) (if row_limit lim = 0 then xs else take (row_limit lim - length (vrl ?st)) xs),
        startFound := sf, result := (result ?st)\<lparr>res_bof := bof,
          limited := (row_limit lim \<noteq> 0 \<and> row_limit lim - length (vrl ?st) \<le> length xs)\<rparr>\<rparr>)"
      using Cons.IH [of ?st xs] Cons.prems(1,2,3) by auto
    with v ys Cons.prems(2) show ?thesis by auto
  next
    case False
    let ?vrl = "vrl st @ [row_of vty rty x]"
    let ?st = "st\<lparr>vrl := ?vrl, result := (result st)\<lparr>limited := (int (length ?vrl) = sint lim mod 2 ^ 64)\<rparr>\<rparr>"
    have "CopyOut vty (fst x) = Inr (wire vty (fst x))" "CopyOut rty (snd x) = Inr (wire rty (snd x))"
      using Cons.prems(1) wire_CopyOut by fastforce+
    then have v: "?visit x st = Inr ?st" using False by (auto simp: visit_row_def start_row_def row_of_def)
    define zs where "zs = (if startFound st then xs else filter (\<lambda>x. \<not> start_row rty sid (snd x)) xs)"
    have ys: "ys = x # zs" using Cons.prems(5) False by (auto simp: zs_def)
    have lim: "int (length ?vrl) = sint lim mod 2 ^ 64 \<longleftrightarrow> row_limit lim = Suc (length (vrl st))"
      by (auto simp: row_limit_def)
    show ?thesis
    proof (cases "row_limit lim = Suc (length (vrl st))")
      case True
      with v ys Cons.prems(2) lim show ?thesis
        by - (rule exI [of _ "res_bof (result st)"], rule exI [of _ "startFound st"], simp)
    next
      case no: False
      have IH: "\<exists>bof sf. run_until ?visit (\<lambda>s. limited (result s)) xs ?st =
        Inr (?st\<lparr>vrl := vrl ?st @ map (row_of vty rty) (if row_limit lim = 0 then zs else take (row_limit lim - length (vrl ?st)) zs),
          startFound := sf, result := (result ?st)\<lparr>res_bof := bof,
            limited := (row_limit lim \<noteq> 0 \<and> row_limit lim - length (vrl ?st) \<le> length zs)\<rparr>\<rparr>)"
        using no lim Cons.prems(1,3,4) by (intro Cons.IH) (auto simp: zs_def split: if_splits)
      have m: "row_limit lim - length (vrl st) = Suc (row_limit lim - Suc (length (vrl st)))" if "row_limit lim \<noteq> 0"
        using Cons.prems(3) that by auto
      from IH obtain bof sf where "run_until ?visit (\<lambda>s. limited (result s)) xs ?st =
        Inr (?st\<lparr>vrl := vrl ?st @ map (row_of vty rty) (if row_limit lim = 0 then zs else take (row_limit lim - length (vrl ?st)) zs),
          startFound := sf, result := (result ?st)\<lparr>res_bof := bof,
            limited := (row_limit lim \<noteq> 0 \<and> row_limit lim - length (vrl ?st) \<le> length zs)\<rparr>\<rparr>)"
        by (elim exE) (rule that)
      then show ?thesis using v ys Cons.prems(2) m
        by - (rule exI [of _ bof], rule exI [of _ sf], cases "row_limit lim = 0"; simp)
    qed
  qed
qed

lemma run_until_map: "run_until (\<lambda>x. visit (g x)) lim xs s = run_until visit lim (map g xs) s"
proof (induction xs arbitrary: s)
  case (Cons x xs)
  then have "run_until (\<lambda>x. visit (g x)) lim xs = run_until visit lim (map g xs)" by (intro ext)
  then show ?case by simp
qed simp

lemma run_until_cong: "(\<And>x. x \<in> set xs \<Longrightarrow> f x = g x) \<Longrightarrow> run_until f lim xs = run_until g lim xs"
  by (induction xs) (auto intro!: ext)

lemma filter_at_most_one:
  "distinct xs \<Longrightarrow> (\<And>x y. x \<in> set xs \<Longrightarrow> y \<in> set xs \<Longrightarrow> P x \<Longrightarrow> P y \<Longrightarrow> x = y) \<Longrightarrow> length (filter P xs) \<le> 1"
proof (induction xs)
  case (Cons x xs)
  have "filter P xs = []" if "P x" using Cons.prems that by (auto simp: filter_empty_conv)
  with Cons show ?case by auto
qed simp

lemma disjoint_constraints_limited [simp]: "limited (disjoint_constraints ty asc f l new_RangeResult) = False"
  by (auto simp: disjoint_constraints_def new_RangeResult_def split: option.split)

context wire_type
begin

text \<open>
  The answer of a buffer with one row for each value: the selected entries but the start
  row, up to the limit.
\<close>

lemma scan_rows:
  assumes inv: "btree_inv ty K T" "shallow T" and st: "set_option sk \<subseteq> K" "sk = None \<longleftrightarrow> sid = None"
    and f: "bound_in K f" and l: "bound_in K l" and meet: "bounds_meet ty asc (begin_bound sk f) l"
    and visit: "\<And>e. e \<in> set (contents T) \<Longrightarrow> visit e = visit_row ty rty sid lim (fst e) (g e)"
    and rows: "\<And>e. e \<in> set (contents T) \<Longrightarrow> \<exists>s. CopyOut rty (g e) = Inr s"
    and one: "\<And>e e'. e \<in> set (contents T) \<Longrightarrow> e' \<in> set (contents T) \<Longrightarrow>
      start_row rty sid (g e) \<Longrightarrow> start_row rty sid (g e') \<Longrightarrow> e = e'"
    and r0: "\<not> limited r0"
    and sel: "sel = filter (\<lambda>e. \<not> start_row rty sid (g e)) (selected ty asc (begin_bound sk f) l (contents T))"
  shows "\<exists>res. scan_range T asc (map_option (\<lambda>k. Inr (Some k)) sk) f l r0 visit = Inr res \<and>
    valueRowsList res = map (\<lambda>e. row_of ty rty (fst e, g e)) (take_limit (row_limit lim) sel) \<and>
    (limited res \<longleftrightarrow> row_limit lim \<noteq> 0 \<and> row_limit lim \<le> length sel) \<and>
    (res_eof res \<longleftrightarrow> \<not> limited res \<and> (\<forall>x\<in>set (contents T). in_bound ty (\<not> asc) l (fst x)))"
proof -
  let ?xs = "selected ty asc (begin_bound sk f) l (contents T)" and ?p = "\<lambda>e. (fst e, g e)"
  have sub: "set ?xs \<subseteq> set (contents T)" "distinct ?xs"
    using distinct_contents [OF inv(1)] by (auto simp: selected_def)
  obtain bof where scan: "scan_range T asc (map_option (\<lambda>k. Inr (Some k)) sk) f l r0 visit =
    bindE (run_until visit (\<lambda>s. limited (result s)) ?xs
        \<lparr>result = r0\<lparr>res_bof := bof, res_eof := (\<forall>x\<in>set (contents T). in_bound ty (\<not> asc) l (fst x))\<rparr>,
         startFound = (sk = None), vrl = [], num = 0\<rparr>) (\<lambda>s. Inr (finish_scan s))"
    using scan_range_selected [OF inv st(1) f l meet, of r0 visit] by (elim exE) (rule that)
  let ?st = "\<lparr>result = r0\<lparr>res_bof := bof, res_eof := (\<forall>x\<in>set (contents T). in_bound ty (\<not> asc) l (fst x))\<rparr>,
    startFound = (sk = None), vrl = [], num = 0\<rparr>"
  have "run_until visit (\<lambda>s. limited (result s)) ?xs = run_until (\<lambda>e. visit_row ty rty sid lim (fst (?p e)) (snd (?p e))) (\<lambda>s. limited (result s)) ?xs"
    using sub(1) visit by (intro run_until_cong) auto
  then have run: "run_until visit (\<lambda>s. limited (result s)) ?xs ?st =
      run_until (\<lambda>x. visit_row ty rty sid lim (fst x) (snd x)) (\<lambda>s. limited (result s)) (map ?p ?xs) ?st"
    using run_until_map [of "\<lambda>x. visit_row ty rty sid lim (fst x) (snd x)" ?p] by simp
  have c1: "\<forall>x\<in>set (map ?p ?xs). (\<exists>s. CopyOut ty (fst x) = Inr s) \<and> (\<exists>s. CopyOut rty (snd x) = Inr s)"
    using sub(1) rows CopyOut_total contents_K [OF inv(1)] by (fastforce simp: subset_iff)
  have c2: "startFound ?st \<or> length (filter (\<lambda>x. start_row rty sid (snd x)) (map ?p ?xs)) \<le> 1"
    using filter_at_most_one [OF sub(2), of "\<lambda>e. start_row rty sid (g e)"] sub(1) one
    by (simp add: filter_map comp_def) blast
  have c3: "map ?p sel = (if startFound ?st then map ?p ?xs else filter (\<lambda>x. \<not> start_row rty sid (snd x)) (map ?p ?xs))"
    using sel st(2) by (auto simp: filter_map comp_def start_row_def)
  have c4: "\<not> limited (result ?st)" "row_limit lim = 0 \<or> length (vrl ?st) < row_limit lim" using r0 by auto
  obtain bof' sf where "run_until visit (\<lambda>s. limited (result s)) ?xs ?st =
    Inr (?st\<lparr>vrl := vrl ?st @ map (row_of ty rty) (if row_limit lim = 0 then map ?p sel else take (row_limit lim - length (vrl ?st)) (map ?p sel)),
      startFound := sf, result := (result ?st)\<lparr>res_bof := bof',
        limited := (row_limit lim \<noteq> 0 \<and> row_limit lim - length (vrl ?st) \<le> length (map ?p sel))\<rparr>\<rparr>)"
    using run_rows [OF c1 c4 c2 c3, folded run] by (elim exE) (rule that)
  with scan show ?thesis by (auto simp: finish_scan_def Let_def take_limit_def take_map)
qed

text \<open>
  A scan whose begin is behind its end runs past the end of the tree, unless the limit
  stops it.
\<close>

lemma scan_rows_overrun:
  assumes inv: "btree_inv ty K T" "shallow T" and f: "bound_in K f" and l: "bound_in K l"
    and cross: "bound_pos ty False l (contents T) < bound_pos ty True f (contents T)"
    and visit: "\<And>e. e \<in> set (contents T) \<Longrightarrow> visit e = visit_row ty rty None lim (fst e) (g e)"
    and rows: "\<And>e. e \<in> set (contents T) \<Longrightarrow> \<exists>s. CopyOut rty (g e) = Inr s"
    and r0: "\<not> limited r0" "row_limit lim = 0"
  shows "scan_range T True None f l r0 visit = Inl (Throw ''Iterator not dereferenceable'')"
proof -
  let ?es = "contents T" and ?p = "\<lambda>e. (fst e, g e)"
  let ?xs = "drop (bound_pos ty True f ?es) ?es"
  obtain b e bof where r: "range_bounds T True None f l = Inr (b, e, bof, bound_pos ty False l ?es = length ?es)"
    "iter_pos ty K T (bound_pos ty True f ?es) b" "iter_pos ty K T (bound_pos ty False l ?es) e"
    using range_bounds_at [OF inv, of None f l True] f l by (auto simp: begin_bound_def)
  let ?st = "\<lparr>result = r0\<lparr>res_bof := bof, res_eof := (bound_pos ty False l ?es = length ?es)\<rparr>,
    startFound = True, vrl = [], num = 0\<rparr>"
  have sub: "set ?xs \<subseteq> set ?es" by (rule set_drop_subset)
  have "run_until visit (\<lambda>s. limited (result s)) ?xs =
      run_until (\<lambda>e. visit_row ty rty None lim (fst (?p e)) (snd (?p e))) (\<lambda>s. limited (result s)) ?xs"
    using sub visit by (intro run_until_cong) auto
  then have run: "run_until visit (\<lambda>s. limited (result s)) ?xs ?st =
      run_until (\<lambda>x. visit_row ty rty None lim (fst x) (snd x)) (\<lambda>s. limited (result s)) (map ?p ?xs) ?st"
    using run_until_map [of "\<lambda>x. visit_row ty rty None lim (fst x) (snd x)" ?p] by simp
  have c1: "\<forall>x\<in>set (map ?p ?xs). (\<exists>s. CopyOut ty (fst x) = Inr s) \<and> (\<exists>s. CopyOut rty (snd x) = Inr s)"
    using sub rows CopyOut_total contents_K [OF inv(1)] by (fastforce simp: subset_iff)
  have c2: "\<not> limited (result ?st)" "row_limit lim = 0 \<or> length (vrl ?st) < row_limit lim"
    "startFound ?st \<or> length (filter (\<lambda>x. start_row rty None (snd x)) (map ?p ?xs)) \<le> 1" using r0 by auto
  have "\<exists>s. run_until visit (\<lambda>s. limited (result s)) ?xs ?st = Inr s \<and> \<not> limited (result s)"
    using run_rows [OF c1 c2 refl, folded run] r0(2) by fastforce
  then obtain s where s: "run_until visit (\<lambda>s. limited (result s)) ?xs ?st = Inr s" "\<not> limited (result s)" by blast
  have "length ?es - bound_pos ty True f ?es < nat (treeCount T) + 2" using treeCount_contents [OF inv(1)] by simp
  from tree_cursor.loop_overrun [OF inv(1) r(2,3) cross this, of visit "\<lambda>s. limited (result s)" ?st] s
  show ?thesis unfolding scan_range_def r(1) by simp
qed

end

section \<open>Writes\<close>

text \<open>
  \<open>Apply\<close> of every buffer: first the excludes, then the includes, each through the
  buffer's own \<open>Exclude\<close> and \<open>Include\<close>, whose results are not looked at.
\<close>

definition apply_writes ::
  "(string \<Rightarrow> err + 'v) \<Rightarrow> (string \<Rightarrow> err + 'r) \<Rightarrow> ('s \<Rightarrow> 'r \<Rightarrow> err + 's \<times> bool) \<Rightarrow> ('s \<Rightarrow> 'r \<Rightarrow> 'v \<Rightarrow> err + 's \<times> bool) \<Rightarrow>
   ColumnWrites \<Rightarrow> 's \<Rightarrow> err + 's"
where
  "apply_writes vp rp excl incl writes s =
     bindE (foldE (\<lambda>x s. bindE (rp (cell_rowID x)) (\<lambda>rowId. bindE (excl s rowId) (\<lambda>(s', b). Inr s')))
              (cw_excludes writes) s) (\<lambda>s1.
       foldE (\<lambda>x s. bindE (vp (cell_value x)) (\<lambda>value. bindE (rp (cell_rowID x)) (\<lambda>rowId.
                bindE (incl s rowId value) (\<lambda>(s', b). Inr s'))))
         (cw_includes writes) s1)"

text \<open>
  The abstract column: a partial map from rows to values. An include is ignored when the
  row has a value already or the value is not \<open>avail\<close>able.
\<close>

definition abs_exclude :: "('r \<Rightarrow> 'r \<Rightarrow> bool) \<Rightarrow> 'r \<Rightarrow> ('r \<Rightarrow> 'v option) \<Rightarrow> ('r \<Rightarrow> 'v option)" where
  "abs_exclude same r m = (\<lambda>x. if same x r then None else m x)"

definition abs_include ::
  "('r \<Rightarrow> 'r \<Rightarrow> bool) \<Rightarrow> (('r \<Rightarrow> 'v option) \<Rightarrow> 'v \<Rightarrow> bool) \<Rightarrow> 'r \<times> 'v \<Rightarrow> ('r \<Rightarrow> 'v option) \<Rightarrow> ('r \<Rightarrow> 'v option)"
where
  "abs_include same avail x m =
     (if m (fst x) = None \<and> avail m (snd x) then (\<lambda>y. if same y (fst x) then Some (snd x) else m y) else m)"

text \<open>Rows are the same when they compare equal.\<close>

definition same_key :: "'k ScalarType \<Rightarrow> 'k set \<Rightarrow> 'k \<Rightarrow> 'k \<Rightarrow> bool" where
  "same_key ty K x y \<longleftrightarrow> x \<in> K \<and> Compare ty x y = 0"

text \<open>An exclude that rebalances no leaf, or does so from siblings.\<close>

definition tree_safe :: "('k, 'v) BTree \<Rightarrow> 'k \<Rightarrow> bool" where
  "tree_safe T k = (case GetPath T k of Inl e \<Rightarrow> False | Inr p \<Rightarrow> \<not> Match p \<or> delete_safe T p)"

text \<open>Excludes that are safe one after the other.\<close>

fun all_safe :: "('s \<Rightarrow> 'r \<Rightarrow> bool) \<Rightarrow> ('s \<Rightarrow> 'r \<Rightarrow> err + 's \<times> bool) \<Rightarrow> 's \<Rightarrow> 'r list \<Rightarrow> bool" where
  "all_safe safe excl s [] = True"
| "all_safe safe excl s (r # rs) =
     (safe s r \<and> (case excl s r of Inl e \<Rightarrow> False | Inr (s', b) \<Rightarrow> all_safe safe excl s' rs))"

text \<open>
  The contract of a column buffer: its state stands for an abstract column, \<open>Include\<close>
  refines the abstract include and \<open>Exclude\<close>, where it is safe, the abstract exclude, and
  both report whether the column has changed. The column may hold a value only as far as it
  can be told from others; \<open>view\<close> is what it holds of a value.
\<close>

locale column_buffer =
  fixes inv :: "'s \<Rightarrow> bool" and look :: "'s \<Rightarrow> 'r \<Rightarrow> 'w option" and same :: "'r \<Rightarrow> 'r \<Rightarrow> bool"
    and avail :: "('r \<Rightarrow> 'w option) \<Rightarrow> 'w \<Rightarrow> bool" and rowset :: "'r set" and fits :: "'r \<Rightarrow> 'v \<Rightarrow> bool"
    and safe :: "'s \<Rightarrow> 'r \<Rightarrow> bool"
    and excl :: "'s \<Rightarrow> 'r \<Rightarrow> err + 's \<times> bool" and incl :: "'s \<Rightarrow> 'r \<Rightarrow> 'v \<Rightarrow> err + 's \<times> bool"
    and view :: "'v \<Rightarrow> 'w"
  assumes incl_ok: "inv s \<Longrightarrow> r \<in> rowset \<Longrightarrow> fits r v \<Longrightarrow>
      \<exists>s' b. incl s r v = Inr (s', b) \<and> inv s' \<and> look s' = abs_include same avail (r, view v) (look s) \<and>
        (b \<longleftrightarrow> look s r = None \<and> avail (look s) (view v))"
    and excl_ok: "inv s \<Longrightarrow> r \<in> rowset \<Longrightarrow> safe s r \<Longrightarrow>
      \<exists>s' b. excl s r = Inr (s', b) \<and> inv s' \<and> look s' = abs_exclude same r (look s) \<and> (b \<longleftrightarrow> look s r \<noteq> None)"
begin

lemma fold_excludes:
  assumes "inv s" "list_all2 (\<lambda>x r. rp (cell_rowID x) = Inr r) xs rs" "set rs \<subseteq> rowset" "all_safe safe excl s rs"
  shows "\<exists>s'. foldE (\<lambda>x s. bindE (rp (cell_rowID x)) (\<lambda>rowId. bindE (excl s rowId) (\<lambda>(s', b). Inr s'))) xs s = Inr s' \<and>
    inv s' \<and> look s' = fold (abs_exclude same) rs (look s)"
  using assms
proof (induction xs arbitrary: s rs)
  case (Cons x xs)
  then obtain r rs' where rs: "rs = r # rs'" "rp (cell_rowID x) = Inr r" "list_all2 (\<lambda>x r. rp (cell_rowID x) = Inr r) xs rs'"
    by (auto simp: list_all2_Cons1)
  obtain s1 b where s1: "excl s r = Inr (s1, b)" "inv s1" "look s1 = abs_exclude same r (look s)"
    using excl_ok [OF Cons.prems(1), of r] Cons.prems(3,4) rs(1) by auto
  have "\<exists>s'. foldE (\<lambda>x s. bindE (rp (cell_rowID x)) (\<lambda>rowId. bindE (excl s rowId) (\<lambda>(s', b). Inr s'))) xs s1 = Inr s' \<and>
    inv s' \<and> look s' = fold (abs_exclude same) rs' (look s1)"
    using Cons.IH [OF s1(2) rs(3)] Cons.prems(3,4) rs(1) s1(1) by simp
  with rs s1 show ?case by simp
qed simp

lemma fold_includes:
  assumes "inv s" "list_all2 (\<lambda>x p. rp (cell_rowID x) = Inr (fst p) \<and> vp (cell_value x) = Inr (snd p)) xs ps"
    and "\<forall>(r, v)\<in>set ps. r \<in> rowset \<and> fits r v"
  shows "\<exists>s'. foldE (\<lambda>x s. bindE (vp (cell_value x)) (\<lambda>value. bindE (rp (cell_rowID x)) (\<lambda>rowId.
      bindE (incl s rowId value) (\<lambda>(s', b). Inr s')))) xs s = Inr s' \<and>
    inv s' \<and> look s' = fold (\<lambda>(r, v). abs_include same avail (r, view v)) ps (look s)"
  using assms
proof (induction xs arbitrary: s ps)
  case (Cons x xs)
  then obtain r v ps' where ps: "ps = (r, v) # ps'" "rp (cell_rowID x) = Inr r" "vp (cell_value x) = Inr v"
    "list_all2 (\<lambda>x p. rp (cell_rowID x) = Inr (fst p) \<and> vp (cell_value x) = Inr (snd p)) xs ps'"
    by (auto simp: list_all2_Cons1)
  obtain s1 b where s1: "incl s r v = Inr (s1, b)" "inv s1" "look s1 = abs_include same avail (r, view v) (look s)"
    using incl_ok [OF Cons.prems(1), of r v] Cons.prems(3) ps(1) by auto
  have "\<exists>s'. foldE (\<lambda>x s. bindE (vp (cell_value x)) (\<lambda>value. bindE (rp (cell_rowID x)) (\<lambda>rowId.
      bindE (incl s rowId value) (\<lambda>(s', b). Inr s')))) xs s1 = Inr s' \<and>
    inv s' \<and> look s' = fold (\<lambda>(r, v). abs_include same avail (r, view v)) ps' (look s1)"
    using Cons.IH [OF s1(2) ps(4)] Cons.prems(3) ps(1) by simp
  with ps s1 show ?case by simp
qed simp

text \<open>\<open>Apply\<close> refines the abstract writes.\<close>

lemma apply_refines:
  assumes "inv s" "list_all2 (\<lambda>x r. rp (cell_rowID x) = Inr r) (cw_excludes w) rs" "set rs \<subseteq> rowset" "all_safe safe excl s rs"
    and "list_all2 (\<lambda>x p. rp (cell_rowID x) = Inr (fst p) \<and> vp (cell_value x) = Inr (snd p)) (cw_includes w) ps"
    and "\<forall>(r, v)\<in>set ps. r \<in> rowset \<and> fits r v"
  shows "\<exists>s'. apply_writes vp rp excl incl w s = Inr s' \<and> inv s' \<and>
    look s' = fold (\<lambda>(r, v). abs_include same avail (r, view v)) ps (fold (abs_exclude same) rs (look s))"
proof -
  obtain s1 where s1: "foldE (\<lambda>x s. bindE (rp (cell_rowID x)) (\<lambda>rowId. bindE (excl s rowId) (\<lambda>(s', b). Inr s')))
      (cw_excludes w) s = Inr s1" "inv s1" "look s1 = fold (abs_exclude same) rs (look s)"
    using fold_excludes [OF assms(1-4)] by blast
  show ?thesis unfolding apply_writes_def s1(1) bindE_simps s1(3) [symmetric]
    by (rule fold_includes [OF s1(2) assms(5,6)])
qed

end

context scalar_order
begin

lemma cmp_eq_cong:
  "x \<in> K \<Longrightarrow> r \<in> K \<Longrightarrow> e \<in> K \<Longrightarrow> Compare ty r e = 0 \<Longrightarrow> Compare ty x e = 0 \<longleftrightarrow> Compare ty x r = 0"
  using cmp_eq_trans [of x r e] cmp_eq_trans [of x e r] cmp_eq_sym [of r e] by blast

end

text \<open>A column: the types of its rows and of its values.\<close>

locale column_types = row: wire_type rty KR + val: wire_type vty KV
  for rty :: "'r ScalarType" and KR and vty :: "'v ScalarType" and KV

interpretation long_long: column_types LongType half_range LongType half_range
  by (intro column_types.intro longW.wire_type_axioms)

interpretation long_string: column_types LongType half_range StringType UNIV
  by (intro column_types.intro longW.wire_type_axioms stringW.wire_type_axioms)

text \<open>The encoding of a number in a message.\<close>

definition long :: "64 word \<Rightarrow> string" where
  "long x = le_bytes 8 (unat x)"

lemma long_pointer [simp]: "GetPointer LongType (long x) = Inr x"
  using wire_round_trip [of 8 x] by (simp add: LongType_def long_def CopyOutOfArray_def)

end
