(* ===== verification/IdentityBuffer.thy ===== *)
theory IdentityBuffer
  imports Buffer
begin

text \<open>
  \<open>FastoreCommon/Buffer/IdentityBuffer.cpp\<close>: a column whose values are its row ids, kept
  in one key-only tree.
\<close>

record 'k IdentityBuffer =
  id_type :: "'k ScalarType"
  id_rows :: "('k, 'k) BTree"
  id_count :: int

definition new_IdentityBuffer :: "'k ScalarType \<Rightarrow> 'k IdentityBuffer" where
  "new_IdentityBuffer ty = \<lparr>id_type = ty, id_rows = new_BTree ty True, id_count = 0\<rparr>"

definition id_GetStatistic :: "'k IdentityBuffer \<Rightarrow> Statistic" where
  "id_GetStatistic b = \<lparr>total = id_count b, unique = id_count b\<rparr>"

definition id_GetValue :: "'k IdentityBuffer \<Rightarrow> string \<Rightarrow> err + OptionalValue" where
  "id_GetValue b rowId =
     bindE (GetPointer (id_type b) rowId) (\<lambda>k.
     bindE (GetPath (id_rows b) k) (\<lambda>path.
       Inr (if Match path then Some rowId else None)))"

definition id_GetValues :: "'k IdentityBuffer \<Rightarrow> string list \<Rightarrow> err + OptionalValue list" where
  "id_GetValues b rowIds =
     mapE (\<lambda>rowId.
       bindE (GetPointer (id_type b) rowId) (\<lambda>k.
       bindE (GetPath (id_rows b) k) (\<lambda>path.
         Inr (if Match path then Some rowId else None)))) rowIds"

definition id_Include :: "'k IdentityBuffer \<Rightarrow> 'k \<Rightarrow> err + 'k IdentityBuffer \<times> bool" where
  "id_Include b rowId =
     bindE (GetPath (id_rows b) rowId) (\<lambda>rowpath.
       if Match rowpath then Inr (b, False)
       else
         bindE (Insert (id_rows b) rowpath rowId rowId) (\<lambda>(rows, _).
           Inr (b\<lparr>id_rows := rows, id_count := id_count b + 1\<rparr>, True)))"

definition id_Exclude :: "'k IdentityBuffer \<Rightarrow> 'k \<Rightarrow> err + 'k IdentityBuffer \<times> bool" where
  "id_Exclude b rowId =
     bindE (GetPath (id_rows b) rowId) (\<lambda>rowpath.
       if \<not> Match rowpath then Inr (b, False)
       else
         bindE (Delete (id_rows b) rowpath) (\<lambda>rows.
           Inr (b\<lparr>id_rows := rows, id_count := id_count b - 1\<rparr>, True)))"

text \<open>The body of the include loop of \<open>Apply\<close>.\<close>

definition id_ApplyInclude :: "'k IdentityBuffer \<Rightarrow> 'k \<Rightarrow> 'k \<Rightarrow> err + 'k IdentityBuffer \<times> bool" where
  "id_ApplyInclude b rowId value =
     (if Compare (id_type b) value rowId \<noteq> 0
      then Inl (Throw ''Identity buffer requires the rowId and value to be the same'')
      else id_Include b rowId)"

definition id_Apply :: "'k IdentityBuffer \<Rightarrow> ColumnWrites \<Rightarrow> err + 'k IdentityBuffer" where
  "id_Apply b writes =
     apply_writes (GetPointer (id_type b)) (GetPointer (id_type b)) id_Exclude id_ApplyInclude writes b"

definition id_GetRows :: "'k IdentityBuffer \<Rightarrow> RangeRequest \<Rightarrow> err + RangeResult" where
  "id_GetRows b rng =
     bindE (bound_pointer (id_type b) (first rng)) (\<lambda>firstp.
     bindE (bound_pointer (id_type b) (last_bound rng)) (\<lambda>lastp.
     bindE (row_pointer (id_type b) (start_rowID rng)) (\<lambda>startId.
       scan_range (id_rows b) (ascending rng) (map_option (\<lambda>k. Inr (Some k)) startId) firstp lastp
         (disjoint_constraints (id_type b) (ascending rng) firstp lastp new_RangeResult)
         (\<lambda>e. visit_row (id_type b) (id_type b) startId (limit rng) (fst e) (fst e)))))"

section \<open>The invariant and the abstract column\<close>

definition id_inv :: "'k ScalarType \<Rightarrow> 'k set \<Rightarrow> 'k IdentityBuffer \<Rightarrow> bool" where
  "id_inv ty K b \<longleftrightarrow> id_type b = ty \<and> btree_inv ty K (id_rows b) \<and> keyOnly (id_rows b) \<and>
     id_count b = int (length (contents (id_rows b)))"

definition id_look :: "'k ScalarType \<Rightarrow> 'k set \<Rightarrow> 'k IdentityBuffer \<Rightarrow> 'k \<Rightarrow> 'k option" where
  "id_look ty K b x = (if x \<in> K then map_option fst (tree_lookup ty (contents (id_rows b)) x) else None)"

lemma new_IdentityBuffer_inv: "id_inv ty K (new_IdentityBuffer ty)"
  by (simp add: id_inv_def new_IdentityBuffer_def new_BTree_btree_inv) (simp add: new_BTree_def)

context scalar_order
begin

lemma id_Include_ok:
  assumes b: "id_inv ty K b" and r: "r \<in> K"
  shows "\<exists>b' c. id_Include b r = Inr (b', c) \<and> id_inv ty K b' \<and>
    id_look ty K b' = abs_include (same_key ty K) (\<lambda>m v. True) (r, r) (id_look ty K b) \<and> (c \<longleftrightarrow> id_look ty K b r = None)"
proof -
  note inv = b [unfolded id_inv_def]
  obtain path where p: "GetPath (id_rows b) r = Inr path" "Match path \<longleftrightarrow> tree_lookup ty (contents (id_rows b)) r \<noteq> None"
    using GetPath_lookup [of "id_rows b" r] inv r by blast
  show ?thesis
  proof (cases "Match path")
    case True
    then have "id_look ty K b r \<noteq> None" "id_Include b r = Inr (b, False)" using p r by (auto simp: id_Include_def id_look_def)
    with b show ?thesis by (auto simp: abs_include_def)
  next
    case False
    then have none: "tree_lookup ty (contents (id_rows b)) r = None" using p(2) by blast
    obtain T moved where T: "Insert (id_rows b) path r r = Inr (T, moved)" "btree_inv ty K T" "keyOnly T"
      "set (contents T) = insert (slot (id_rows b) r r) (set (contents (id_rows b)))"
      "length (contents T) = Suc (length (contents (id_rows b)))"
      using Insert_map [of "id_rows b" r path r] inv r p(1) False by auto
    let ?b = "b\<lparr>id_rows := T, id_count := id_count b + 1\<rparr>"
    have "id_look ty K ?b = abs_include (same_key ty K) (\<lambda>m v. True) (r, r) (id_look ty K b)"
      using lookup_insert [of "id_rows b" T "slot (id_rows b) r r"] inv r T(2,4) none
      by (intro ext) (simp add: id_look_def abs_include_def same_key_def slot_def)
    moreover have "id_inv ty K ?b" using inv T by (simp add: id_inv_def)
    moreover have "id_Include b r = Inr (?b, True)" using False p(1) T(1) by (simp add: id_Include_def)
    moreover have "id_look ty K b r = None" using none by (simp add: id_look_def)
    ultimately show ?thesis by blast
  qed
qed

lemma id_Exclude_ok:
  assumes b: "id_inv ty K b" and r: "r \<in> K" and safe: "tree_safe (id_rows b) r"
  shows "\<exists>b' c. id_Exclude b r = Inr (b', c) \<and> id_inv ty K b' \<and>
    id_look ty K b' = abs_exclude (same_key ty K) r (id_look ty K b) \<and> (c \<longleftrightarrow> id_look ty K b r \<noteq> None)"
proof -
  note inv = b [unfolded id_inv_def]
  obtain path where p: "GetPath (id_rows b) r = Inr path" "Match path \<longleftrightarrow> tree_lookup ty (contents (id_rows b)) r \<noteq> None"
    using GetPath_lookup [of "id_rows b" r] inv r by blast
  show ?thesis
  proof (cases "Match path")
    case False
    then have none: "tree_lookup ty (contents (id_rows b)) r = None" using p(2) by blast
    have "id_look ty K b x = None" if "x \<in> K" "Compare ty x r = 0" for x
      using lookup_same [of "id_rows b" x r] inv r that none by (simp add: id_look_def)
    then have "id_look ty K b = abs_exclude (same_key ty K) r (id_look ty K b)"
      by (intro ext) (simp add: abs_exclude_def same_key_def)
    moreover have "id_Exclude b r = Inr (b, False)" using False p(1) by (simp add: id_Exclude_def)
    moreover have "id_look ty K b r = None" using none by (simp add: id_look_def)
    ultimately show ?thesis using b by metis
  next
    case True
    obtain T e where T: "Delete (id_rows b) path = Inr T" "btree_inv ty K T" "keyOnly T"
      "tree_lookup ty (contents (id_rows b)) r = Some e" "set (contents T) = set (contents (id_rows b)) - {e}"
      "length (contents (id_rows b)) = Suc (length (contents T))"
      using Delete_map [of "id_rows b" r path] inv r p(1) True safe by (auto simp: tree_safe_def)
    have e: "e \<in> set (contents (id_rows b))" "Compare ty r (fst e) = 0" "fst e \<in> K"
      using lookup_iff [of "id_rows b" r e] inv r T(4) contents_K by blast+
    note eq = cmp_eq_cong [OF _ r e(3,2)]
    let ?b = "b\<lparr>id_rows := T, id_count := id_count b - 1\<rparr>"
    have "id_look ty K ?b = abs_exclude (same_key ty K) r (id_look ty K b)"
      using lookup_delete [of "id_rows b" T e] inv T(2,5) e(1) eq
      by (intro ext) (simp add: id_look_def abs_exclude_def same_key_def)
    moreover have "id_inv ty K ?b" using inv T by (simp add: id_inv_def)
    moreover have "id_Exclude b r = Inr (?b, True)" using True p(1) T(1) by (simp add: id_Exclude_def)
    moreover have "id_look ty K b r \<noteq> None" using T(4) r by (simp add: id_look_def)
    ultimately show ?thesis by blast
  qed
qed

end

sublocale scalar_order \<subseteq> identity: column_buffer "id_inv ty K" "id_look ty K" "same_key ty K" "\<lambda>m v. True" K
  "\<lambda>r v. v = r" "\<lambda>b. tree_safe (id_rows b)" id_Exclude id_ApplyInclude "\<lambda>v. v"
proof unfold_locales
  fix b :: "'k IdentityBuffer" and r v
  assume b: "id_inv ty K b" and r: "r \<in> K"
  show "\<exists>b' c. id_ApplyInclude b r v = Inr (b', c) \<and> id_inv ty K b' \<and>
      id_look ty K b' = abs_include (same_key ty K) (\<lambda>m v. True) (r, v) (id_look ty K b) \<and>
      (c \<longleftrightarrow> id_look ty K b r = None \<and> True)" if "v = r"
    using id_Include_ok [OF b r] that cmp_refl [OF r] b by (simp add: id_ApplyInclude_def id_inv_def)
  show "\<exists>b' c. id_Exclude b r = Inr (b', c) \<and> id_inv ty K b' \<and>
      id_look ty K b' = abs_exclude (same_key ty K) r (id_look ty K b) \<and> (c \<longleftrightarrow> id_look ty K b r \<noteq> None)"
    if "tree_safe (id_rows b) r"
    using id_Exclude_ok [OF b r that] .
qed

context scalar_order
begin

lemmas id_apply_refines = identity.apply_refines

end

section \<open>Properties\<close>

text \<open>
  C13. Writes to an identity column: if the excludes are safe one after the other (each deletion
  from the tree of rows is \<open>delete_safe\<close>; that tree is key-only, so no leaf below the
  root underflows) and every include has a value equal to its row, then \<open>Apply\<close>
  succeeds, keeps the invariant of the buffer and acts on the column as the excludes followed by
  the includes do on a partial map, where including a row that is there already changes nothing.
  The cells parse, and their rows and values lie in the range on which the types are ordered.
\<close>

theorem id_Apply_refines:
  assumes "scalar_order ty K" "id_inv ty K b"
    and "list_all2 (\<lambda>x r. GetPointer ty (cell_rowID x) = Inr r) (cw_excludes w) rs" "set rs \<subseteq> K"
    and "all_safe (\<lambda>b. tree_safe (id_rows b)) id_Exclude b rs"
    and "list_all2 (\<lambda>x p. GetPointer ty (cell_rowID x) = Inr (fst p) \<and> GetPointer ty (cell_value x) = Inr (snd p)) (cw_includes w) ps"
    and "\<forall>(r, v)\<in>set ps. r \<in> K \<and> v = r"
  shows "\<exists>b'. id_Apply b w = Inr b' \<and> id_inv ty K b' \<and> id_look ty K b' =
    fold (abs_include (same_key ty K) (\<lambda>m v. True)) ps (fold (abs_exclude (same_key ty K)) rs (id_look ty K b))"
proof -
  have "id_type b = ty" using assms(2) by (simp add: id_inv_def)
  then show ?thesis unfolding id_Apply_def using scalar_order.id_apply_refines [OF assms] by simp
qed

definition sample_identity :: "64 word IdentityBuffer" where
  "sample_identity = \<lparr>id_type = LongType, id_rows = leaf_tree LongType True [(3, None), (5, None), (8, None)], id_count = 3\<rparr>"

lemma sample_identity_inv: "id_inv LongType half_range sample_identity"
  unfolding id_inv_def sample_identity_def
  by (simp add: leaf_tree_inv LongType_def LongCompare_def half_range_def)

theorem id_Apply_refines_witness:
  "\<exists>b'. id_Apply sample_identity \<lparr>cw_includes = [\<lparr>cell_rowID = long 4, cell_value = long 4\<rparr>], cw_excludes = [\<lparr>cell_rowID = long 5, cell_value = []\<rparr>]\<rparr> = Inr b' \<and>
     id_inv LongType half_range b' \<and> id_look LongType half_range b' 4 = Some 4 \<and> id_look LongType half_range b' 5 = None"
proof -
  let ?w = "\<lparr>cw_includes = [\<lparr>cell_rowID = long 4, cell_value = long 4\<rparr>], cw_excludes = [\<lparr>cell_rowID = long 5, cell_value = []\<rparr>]\<rparr>"
  have "all_safe (\<lambda>b. tree_safe (id_rows b)) id_Exclude sample_identity [5]" by code_simp
  moreover have "id_look LongType half_range sample_identity 4 = None" "\<not> same_key LongType half_range 5 4"
    "same_key LongType half_range 5 5" "same_key LongType half_range 4 4"
    by (simp_all add: id_look_def sample_identity_def tree_lookup_def same_key_def LongType_def LongCompare_def half_range_def)
  ultimately show ?thesis
    using id_Apply_refines [OF longT.scalar_order_axioms sample_identity_inv, of ?w "[5]" "[(4, 4)]"] sample_keys
    by (auto simp: abs_include_def abs_exclude_def)
qed

text \<open>
  C14. Range queries on an identity column: on a shallow tree of rows (at most one level of
  branches) and for a request whose begin, which is the start row if there is one, and end meet
  (they are in order, or equal and not both exclusive), \<open>GetRows\<close> returns the rows
  between the bounds in the order asked for, without the start row and up to the limit, and sets
  limited exactly when the limit was reached and eof exactly when it was not and every entry lies
  within the end bound. Bounds and start row parse and lie in the range on which the type is
  ordered.
\<close>

theorem id_GetRows_correct:
  assumes "wire_type ty K" "id_inv ty K b" "shallow (id_rows b)"
    and "bound_pointer ty (first rng) = Inr f" "bound_in K f"
    and "bound_pointer ty (last_bound rng) = Inr l" "bound_in K l"
    and "row_pointer ty (start_rowID rng) = Inr sid" "set_option sid \<subseteq> K"
    and "bounds_meet ty (ascending rng) (begin_bound sid f) l"
    and sel: "sel = filter (\<lambda>e. \<not> start_row ty sid (fst e))
      (selected ty (ascending rng) (begin_bound sid f) l (contents (id_rows b)))"
  shows "\<exists>res. id_GetRows b rng = Inr res \<and>
    valueRowsList res = map (\<lambda>e. row_of ty ty (fst e, fst e)) (take_limit (row_limit (limit rng)) sel) \<and>
    (limited res \<longleftrightarrow> row_limit (limit rng) \<noteq> 0 \<and> row_limit (limit rng) \<le> length sel) \<and>
    (res_eof res \<longleftrightarrow> \<not> limited res \<and> (\<forall>e\<in>set (contents (id_rows b)). in_bound ty (\<not> ascending rng) l (fst e)))"
proof -
  have b: "id_type b = ty" "btree_inv ty K (id_rows b)" using assms(2) by (simp_all add: id_inv_def)
  have so: "scalar_order ty K" using assms(1) by (simp add: wire_type_def)
  show ?thesis unfolding id_GetRows_def b(1) assms(4,6,8) bindE_simps
  proof (rule wire_type.scan_rows [OF assms(1) b(2) assms(3,9) _ assms(5,7,10) _ _ _ _ sel])
    fix e e' assume e: "e \<in> set (contents (id_rows b))" "e' \<in> set (contents (id_rows b))"
    show "\<exists>s. CopyOut ty (fst e) = Inr s"
      using wire_type.CopyOut_total [OF assms(1)] scalar_order.contents_K [OF so b(2) e(1)] by blast
    show "e = e'" if st: "start_row ty sid (fst e)" "start_row ty sid (fst e')"
    proof -
      obtain s where s: "sid = Some s" "s \<in> K" "Compare ty (fst e) s = 0" "Compare ty (fst e') s = 0"
        using st assms(9) by (auto simp: start_row_def split: option.splits)
      have K: "fst e \<in> K" "fst e' \<in> K" using scalar_order.contents_K [OF so b(2)] e by auto
      have "Compare ty s (fst e') = 0" using scalar_order.cmp_eq_sym [OF so K(2) s(2)] s(4) by simp
      then show ?thesis
        using scalar_order.cmp_eq_trans [OF so K(1) s(2) K(2) s(3)] scalar_order.entry_unique [OF so b(2) e] by blast
    qed
  qed simp_all
qed

theorem id_GetRows_correct_witness:
  "\<exists>res. id_GetRows sample_identity \<lparr>ascending = False, limit = 1, first = None,
      last_bound = Some \<lparr>boundValue = long 3, inclusive = False\<rparr>, start_rowID = Some (long 8)\<rparr> = Inr res \<and>
     valueRowsList res = [\<lparr>vrValue = long 5, vrRowIDs = [long 5]\<rparr>] \<and> limited res"
proof -
  let ?r = "\<lparr>ascending = False, limit = 1, first = None,
    last_bound = Some \<lparr>boundValue = long 3, inclusive = False\<rparr>, start_rowID = Some (long 8)\<rparr>"
  have p: "shallow (id_rows sample_identity)" "bound_pointer LongType (first ?r) = Inr None"
    "bound_pointer LongType (last_bound ?r) = Inr (Some (3, False))" "row_pointer LongType (start_rowID ?r) = Inr (Some 8)"
    by (simp_all add: sample_identity_def bound_pointer_def row_pointer_def)
  have k: "bound_in half_range (None :: (64 word \<times> bool) option)" "bound_in half_range (Some (3 :: 64 word, False))"
    "set_option (Some (8 :: 64 word)) \<subseteq> half_range"
    by (simp_all add: half_range_def)
  have m: "bounds_meet LongType (ascending ?r) (begin_bound (Some 8) None) (Some (3, False))" by code_simp
  have sel: "[(5, None)] = filter (\<lambda>e. \<not> start_row LongType (Some 8) (fst e))
      (selected LongType (ascending ?r) (begin_bound (Some 8) None) (Some (3, False)) (contents (id_rows sample_identity)))"
    by code_simp
  have "row_limit 1 = 1" "row_of LongType LongType (5, 5) = \<lparr>vrValue = long 5, vrRowIDs = [long 5]\<rparr>" by code_simp+
  with id_GetRows_correct [OF longW.wire_type_axioms sample_identity_inv p(1,2) k(1) p(3) k(2) p(4) k(3) m sel]
  show ?thesis by (auto simp: take_limit_def)
qed

text \<open>
  C15. Disjoint ranges: on a shallow tree, an ascending request without start row and without
  limit whose end position in the column lies before its begin position (the bounds are crossed
  and an entry lies between them, or both exclude the same entry), which the code means to answer
  with an empty set, runs past the end of the tree and throws.
\<close>

theorem id_GetRows_overrun:
  assumes "wire_type ty K" "id_inv ty K b" "shallow (id_rows b)" "ascending rng" "start_rowID rng = None"
    and "bound_pointer ty (first rng) = Inr f" "bound_in K f"
    and "bound_pointer ty (last_bound rng) = Inr l" "bound_in K l" "row_limit (limit rng) = 0"
    and "bound_pos ty False l (contents (id_rows b)) < bound_pos ty True f (contents (id_rows b))"
  shows "id_GetRows b rng = Inl (Throw ''Iterator not dereferenceable'')"
proof -
  have b: "id_type b = ty" "btree_inv ty K (id_rows b)" using assms(2) by (simp_all add: id_inv_def)
  have so: "scalar_order ty K" using assms(1) by (simp add: wire_type_def)
  have copy: "\<exists>s. CopyOut ty (fst e) = Inr s" if "e \<in> set (contents (id_rows b))" for e
    using wire_type.CopyOut_total [OF assms(1) scalar_order.contents_K [OF so b(2) that]] by blast
  have "scan_range (id_rows b) True None f l (disjoint_constraints ty True f l new_RangeResult)
      (\<lambda>e. visit_row ty ty None (limit rng) (fst e) (fst e)) = Inl (Throw ''Iterator not dereferenceable'')"
    by (rule wire_type.scan_rows_overrun [OF assms(1) b(2) assms(3,7,9,11)])
      (use assms(10) copy in simp_all)
  then show ?thesis using assms(4-6,8) by (simp add: id_GetRows_def b(1) row_pointer_def)
qed

theorem id_GetRows_overrun_witness:
  "id_GetRows sample_identity \<lparr>ascending = True, limit = 0, first = Some \<lparr>boundValue = long 8, inclusive = True\<rparr>,
     last_bound = Some \<lparr>boundValue = long 3, inclusive = True\<rparr>, start_rowID = None\<rparr> =
   Inl (Throw ''Iterator not dereferenceable'')"
proof -
  let ?r = "\<lparr>ascending = True, limit = 0, first = Some \<lparr>boundValue = long 8, inclusive = True\<rparr>,
    last_bound = Some \<lparr>boundValue = long 3, inclusive = True\<rparr>, start_rowID = None\<rparr>"
  have p: "shallow (id_rows sample_identity)" "ascending ?r" "start_rowID ?r = None"
    "bound_pointer LongType (first ?r) = Inr (Some (8, True))" "bound_pointer LongType (last_bound ?r) = Inr (Some (3, True))"
    by (simp_all add: sample_identity_def bound_pointer_def)
  have k: "bound_in half_range (Some (8 :: 64 word, True))" "bound_in half_range (Some (3 :: 64 word, True))"
    by (simp_all add: half_range_def)
  have "row_limit (limit ?r) = 0" "bound_pos LongType False (Some (3, True)) (contents (id_rows sample_identity)) <
    bound_pos LongType True (Some (8, True)) (contents (id_rows sample_identity))" by code_simp+
  then show ?thesis
    by (rule id_GetRows_overrun [OF longW.wire_type_axioms sample_identity_inv p(1-4) k(1) p(5) k(2)])
qed

end
