(* ===== verification/UniqueColumn.thy ===== *)
theory UniqueColumn
  imports Buffer
begin

text \<open>
  What the two buffers for unique values share: the column read off the tree from values to
  rows, and the scan of that tree.
\<close>

section \<open>The column of a tree from values to rows\<close>

definition row_lookup :: "'r ScalarType \<Rightarrow> ('v \<times> 'r option) list \<Rightarrow> 'r \<Rightarrow> 'v option" where
  "row_lookup rty es x =
     map_option fst (List.find (\<lambda>e. case snd e of Some r \<Rightarrow> Compare rty x r = 0 | None \<Rightarrow> False) es)"

definition unique_look :: "'r ScalarType \<Rightarrow> 'r set \<Rightarrow> ('v \<times> 'r option) list \<Rightarrow> 'r \<Rightarrow> 'v option" where
  "unique_look rty KR es x = (if x \<in> KR then row_lookup rty es x else None)"

text \<open>Every value has a row, and no two values have the same row.\<close>

definition unique_rows :: "'r ScalarType \<Rightarrow> 'r set \<Rightarrow> ('v \<times> 'r option) set \<Rightarrow> bool" where
  "unique_rows rty KR V \<longleftrightarrow> (\<forall>e\<in>V. \<exists>v. \<exists>r\<in>KR. e = (v, Some r)) \<and>
     (\<forall>v r v' r'. (v, Some r) \<in> V \<longrightarrow> (v', Some r') \<in> V \<longrightarrow> Compare rty r r' = 0 \<longrightarrow> v = v' \<and> r = r')"

text \<open>A value is available when no row has an equal one.\<close>

definition free_value :: "'v ScalarType \<Rightarrow> ('r \<Rightarrow> 'v option) \<Rightarrow> 'v \<Rightarrow> bool" where
  "free_value vty m v \<longleftrightarrow> (\<forall>x v'. m x = Some v' \<longrightarrow> Compare vty v v' \<noteq> 0)"

lemma unique_rowsD:
  assumes "unique_rows rty KR V" "(v, Some r) \<in> V"
  shows "r \<in> KR" "(v', Some r') \<in> V \<Longrightarrow> Compare rty r r' = 0 \<Longrightarrow> v = v' \<and> r = r'"
  using assms unfolding unique_rows_def by blast+

lemma unique_rows_Some: "unique_rows rty KR V \<Longrightarrow> e \<in> V \<Longrightarrow> \<exists>v. \<exists>r\<in>KR. e = (v, Some r)"
  unfolding unique_rows_def by blast

lemma unique_rows_mono: "unique_rows rty KR V \<Longrightarrow> W \<subseteq> V \<Longrightarrow> unique_rows rty KR W"
  unfolding unique_rows_def by blast

lemma option_eqI:
  assumes "\<And>v. f = Some v \<longleftrightarrow> g = Some v"
  shows "f = g"
  using assms [of "the f"] assms [of "the g"] by (cases f; cases g) simp_all

text \<open>The visit of an entry; the row of a key-only tree would be a null pointer.\<close>

definition visit_unique ::
  "'v ScalarType \<Rightarrow> 'r ScalarType \<Rightarrow> 'r option \<Rightarrow> 32 word \<Rightarrow> 'v \<times> 'r option \<Rightarrow> scan \<Rightarrow> err + scan"
where
  "visit_unique vty rty startId lim e st =
     (case snd e of None \<Rightarrow> Inl NullPointer | Some rowIdp \<Rightarrow> visit_row vty rty startId lim (fst e) rowIdp st)"

context column_types
begin

lemma unique_look_iff:
  assumes "unique_rows rty KR (set es)"
  shows "unique_look rty KR es x = Some v \<longleftrightarrow> x \<in> KR \<and> (\<exists>r. (v, Some r) \<in> set es \<and> Compare rty x r = 0)"
proof (cases "x \<in> KR")
  case x: True
  let ?P = "\<lambda>e. case snd e of Some r \<Rightarrow> Compare rty x r = 0 | None \<Rightarrow> False"
  show ?thesis
  proof (cases "List.find ?P es")
    case None
    then have "\<not> ?P (v, Some r)" if "(v, Some r) \<in> set es" for r using that unfolding find_None_iff by blast
    with None x show ?thesis by (auto simp: unique_look_def row_lookup_def)
  next
    case (Some e)
    then have "e \<in> set es" "?P e" by (auto simp: find_Some_iff)
    then obtain r where r: "snd e = Some r" "Compare rty x r = 0" by (auto split: option.splits)
    define v' where "v' = fst e"
    have e: "e = (v', Some r)" "(v', Some r) \<in> set es" "Compare rty x r = 0"
      using r \<open>e \<in> set es\<close> by (simp_all add: v'_def prod_eq_iff) (metis prod.collapse)
    have "v' = v" if "(v, Some r') \<in> set es" "Compare rty x r' = 0" for r'
    proof -
      have K: "r \<in> KR" "r' \<in> KR" using unique_rowsD(1) [OF assms] e(2) that(1) by blast+
      have "Compare rty r r' = 0" using row.cmp_eq_trans [OF K(1) x K(2)] row.cmp_eq_sym [OF x K(1)] e(3) that(2) by simp
      then show ?thesis using unique_rowsD(2) [OF assms e(2) that(1)] by simp
    qed
    with Some x e show ?thesis by (auto simp: unique_look_def row_lookup_def)
  qed
qed (simp add: unique_look_def)

lemma unique_rows_insert:
  assumes "unique_rows rty KR (set es)" "r \<in> KR" "unique_look rty KR es r = None"
  shows "unique_rows rty KR (insert (v, Some r) (set es))"
proof -
  have ne: "Compare rty r r' \<noteq> 0" "Compare rty r' r \<noteq> 0" if "(v', Some r') \<in> set es" for v' r'
  proof -
    have "unique_look rty KR es r \<noteq> Some v'" using assms(3) by simp
    then show "Compare rty r r' \<noteq> 0" using unique_look_iff [OF assms(1)] assms(2) that by blast
    with row.cmp_eq_sym [OF assms(2) unique_rowsD(1) [OF assms(1) that]] show "Compare rty r' r \<noteq> 0" by simp
  qed
  show ?thesis unfolding unique_rows_def
  proof (intro conjI ballI allI impI)
    show "\<exists>v. \<exists>r\<in>KR. e = (v, Some r)" if "e \<in> insert (v, Some r) (set es)" for e
      using that assms(2) unique_rows_Some [OF assms(1), of e] by auto
    fix v1 r1 v2 r2
    assume m: "(v1, Some r1) \<in> insert (v, Some r) (set es)" "(v2, Some r2) \<in> insert (v, Some r) (set es)" "Compare rty r1 r2 = 0"
    then have "v1 = v2 \<and> r1 = r2" using ne(1) [of v2 r2] ne(2) [of v1 r1] unique_rowsD(2) [OF assms(1), of v1 r1 v2 r2] by fastforce
    then show "v1 = v2" "r1 = r2" by simp_all
  qed
qed

lemma unique_look_add:
  assumes "unique_rows rty KR (set es)" "r \<in> KR" "set es' = insert (v, Some r) (set es)" "unique_look rty KR es r = None"
  shows "unique_look rty KR es' x = (if same_key rty KR x r then Some v else unique_look rty KR es x)"
proof (rule option_eqI)
  fix w
  have u: "unique_rows rty KR (set es')" using unique_rows_insert [OF assms(1,2,4)] assms(3) by simp
  have "w = v" if x: "x \<in> KR" "Compare rty x r = 0" "(w, Some r') \<in> set es" "Compare rty x r' = 0" for r'
  proof -
    have r': "r' \<in> KR" by (rule unique_rowsD(1) [OF assms(1) x(3)])
    have "Compare rty r r' = 0" using row.cmp_eq_trans [OF assms(2) x(1) r'] row.cmp_eq_sym [OF x(1) assms(2)] x(2,4) by simp
    with x(3) assms(2,4) show ?thesis using unique_look_iff [OF assms(1), of r w] by auto
  qed
  then show "unique_look rty KR es' x = Some w \<longleftrightarrow> (if same_key rty KR x r then Some v else unique_look rty KR es x) = Some w"
    using unique_look_iff [OF u, of x w] unique_look_iff [OF assms(1), of x w] assms(2,3) by (auto simp: same_key_def)
qed

lemma unique_look_insert:
  assumes "unique_rows rty KR (set es)" "r \<in> KR" "set es' = insert (v, Some r) (set es)" "unique_look rty KR es r = None"
    "free_value vty (unique_look rty KR es) v"
  shows "unique_look rty KR es' = abs_include (same_key rty KR) (free_value vty) (r, v) (unique_look rty KR es)"
  using unique_look_add [OF assms(1-4)] assms(4,5) by (intro ext) (simp add: abs_include_def)

lemma unique_look_delete:
  assumes "unique_rows rty KR (set es)" "r \<in> KR" "(v, Some r0) \<in> set es" "Compare rty r r0 = 0" "set es' = set es - {(v, Some r0)}"
  shows "unique_look rty KR es' = abs_exclude (same_key rty KR) r (unique_look rty KR es)"
proof
  fix x
  have u: "unique_rows rty KR (set es')" using unique_rows_mono [OF assms(1)] assms(5) by auto
  have r0: "r0 \<in> KR" by (rule unique_rowsD(1) [OF assms(1,3)])
  show "unique_look rty KR es' x = abs_exclude (same_key rty KR) r (unique_look rty KR es) x"
  proof (rule option_eqI)
    fix w
    have eq: "Compare rty x r0 = 0 \<longleftrightarrow> Compare rty x r = 0" if "x \<in> KR" using row.cmp_eq_cong [OF that assms(2) r0 assms(4)] .
    have "w = v \<and> r' = r0" if x: "x \<in> KR" "Compare rty x r = 0" "(w, Some r') \<in> set es" "Compare rty x r' = 0" for r'
    proof -
      have r': "r' \<in> KR" by (rule unique_rowsD(1) [OF assms(1) x(3)])
      have "Compare rty r' r0 = 0" using row.cmp_eq_trans [OF r' x(1) r0] row.cmp_eq_sym [OF x(1) r'] x(1,2,4) eq by simp
      then show ?thesis using unique_rowsD(2) [OF assms(1) x(3) assms(3)] by simp
    qed
    then show "unique_look rty KR es' x = Some w \<longleftrightarrow> abs_exclude (same_key rty KR) r (unique_look rty KR es) x = Some w"
      using unique_look_iff [OF u, of x w] unique_look_iff [OF assms(1), of x w] assms(5) eq
      by (auto simp: abs_exclude_def same_key_def)
  qed
qed

lemma unique_look_absent:
  assumes "unique_rows rty KR (set es)" "r \<in> KR" "unique_look rty KR es r = None"
  shows "abs_exclude (same_key rty KR) r (unique_look rty KR es) = unique_look rty KR es"
proof
  fix x
  have "unique_look rty KR es x = None" if x: "x \<in> KR" "Compare rty x r = 0"
  proof (cases "unique_look rty KR es x")
    case (Some v)
    then obtain r' where r': "(v, Some r') \<in> set es" "Compare rty x r' = 0" using unique_look_iff [OF assms(1)] by blast
    have K: "r' \<in> KR" by (rule unique_rowsD(1) [OF assms(1) r'(1)])
    have "Compare rty r r' = 0" using row.cmp_eq_trans [OF assms(2) x(1) K] row.cmp_eq_sym [OF x(1) assms(2)] x(2) r'(2) by simp
    then have "unique_look rty KR es r = Some v" using unique_look_iff [OF assms(1)] assms(2) r'(1) by blast
    with assms(3) show ?thesis by simp
  qed
  then show "abs_exclude (same_key rty KR) r (unique_look rty KR es) x = unique_look rty KR es x"
    by (simp add: abs_exclude_def same_key_def)
qed

text \<open>The tree answers whether a value is free.\<close>

lemma free_iff:
  assumes "unique_rows rty KR (set es)"
  shows "tree_lookup vty es v = None \<longleftrightarrow> free_value vty (unique_look rty KR es) v"
proof
  assume "tree_lookup vty es v = None"
  then show "free_value vty (unique_look rty KR es) v"
    by (fastforce simp: free_value_def unique_look_iff [OF assms] val.lookup_None_iff)
next
  assume free: "free_value vty (unique_look rty KR es) v"
  show "tree_lookup vty es v = None" unfolding val.lookup_None_iff
  proof
    fix e assume e: "e \<in> set es"
    obtain v' r where r: "r \<in> KR" "e = (v', Some r)" using unique_rows_Some [OF assms e] by blast
    then have "unique_look rty KR es r = Some v'" using unique_look_iff [OF assms, of r v'] row.cmp_refl e by blast
    with free r show "Compare vty v (fst e) \<noteq> 0" by (auto simp: free_value_def)
  qed
qed

text \<open>The scan of the values.\<close>

lemma unique_scan:
  assumes inv: "btree_inv vty KV T" "shallow T" and u: "unique_rows rty KR (set (contents T))"
    and f: "bound_in KV f" and l: "bound_in KV l" and sid: "set_option sid \<subseteq> KR"
    and sk: "sk = Option.bind sid (unique_look rty KR (contents T))" "sk = None \<longleftrightarrow> sid = None"
    and get: "\<forall>s\<in>set_option sid. get s = Inr (unique_look rty KR (contents T) s)"
    and meet: "bounds_meet vty asc (begin_bound sk f) l"
    and sel: "sel = filter (\<lambda>e. \<not> start_row rty sid (the (snd e))) (selected vty asc (begin_bound sk f) l (contents T))"
  shows "\<exists>res. scan_range T asc (map_option get sid) f l (disjoint_constraints vty asc f l new_RangeResult)
      (visit_unique vty rty sid lim) = Inr res \<and>
    valueRowsList res = map (\<lambda>e. row_of vty rty (fst e, the (snd e))) (take_limit (row_limit lim) sel) \<and>
    (limited res \<longleftrightarrow> row_limit lim \<noteq> 0 \<and> row_limit lim \<le> length sel) \<and>
    (res_eof res \<longleftrightarrow> \<not> limited res \<and> (\<forall>e\<in>set (contents T). in_bound vty (\<not> asc) l (fst e)))"
proof -
  have skK: "set_option sk \<subseteq> KV"
  proof
    fix v assume "v \<in> set_option sk"
    then obtain s where "unique_look rty KR (contents T) s = Some v" using sk(1) by (auto simp: bind_eq_Some_conv)
    then obtain r where "(v, Some r) \<in> set (contents T)" using unique_look_iff [OF u] by blast
    then show "v \<in> KV" using val.contents_K [OF inv(1)] by fastforce
  qed
  have "map_option get sid = map_option (\<lambda>k. Inr (Some k)) sk" using sk get by (cases sid) auto
  then show ?thesis
  proof (simp only:, intro val.scan_rows [OF inv skK sk(2) f l meet _ _ _ _ sel])
    fix e assume e: "e \<in> set (contents T)"
    obtain v r where r: "r \<in> KR" "e = (v, Some r)" using unique_rows_Some [OF u e] by blast
    show "visit_unique vty rty sid lim e = visit_row vty rty sid lim (fst e) (the (snd e))"
      using r by (intro ext) (simp add: visit_unique_def)
    show "\<exists>s. CopyOut rty (the (snd e)) = Inr s" using r row.CopyOut_total by fastforce
  next
    fix e e' assume e: "e \<in> set (contents T)" "e' \<in> set (contents T)"
      and st: "start_row rty sid (the (snd e))" "start_row rty sid (the (snd e'))"
    obtain v r v' r' where r: "r \<in> KR" "e = (v, Some r)" "r' \<in> KR" "e' = (v', Some r')"
      using unique_rows_Some [OF u e(1)] unique_rows_Some [OF u e(2)] by blast
    obtain s where s: "s \<in> KR" "Compare rty r s = 0" "Compare rty r' s = 0"
      using st sid r by (auto simp: start_row_def split: option.splits)
    have "Compare rty r r' = 0" using row.cmp_eq_cong [OF r(1,3) s(1,3)] s(2) by simp
    then show "e = e'" using unique_rowsD(2) [OF u, of v r v' r'] e r by simp
  qed simp
qed

end

end
