(* ===== verification/UniqueInlineBuffer.thy ===== *)
theory UniqueInlineBuffer
  imports UniqueColumn
begin

text \<open>
  \<open>FastoreCommon/Buffer/UniqueInlineBuffer.cpp\<close>: a column of unique values of at most eight
  bytes. A tree from rows to values and a tree from values to rows hold the same pairs.
\<close>

record ('r, 'v) UniqueInlineBuffer =
  ui_rowType :: "'r ScalarType"
  ui_valueType :: "'v ScalarType"
  ui_rows :: "('r, 'v) BTree"
  ui_values :: "('v, 'r) BTree"
  ui_count :: int

definition new_UniqueInlineBuffer :: "'r ScalarType \<Rightarrow> 'v ScalarType \<Rightarrow> ('r, 'v) UniqueInlineBuffer" where
  "new_UniqueInlineBuffer rty vty =
     \<lparr>ui_rowType = rty, ui_valueType = vty, ui_rows = new_BTree rty False, ui_values = new_BTree vty False, ui_count = 0\<rparr>"

definition ui_GetStatistic :: "('r, 'v) UniqueInlineBuffer \<Rightarrow> Statistic" where
  "ui_GetStatistic b = \<lparr>total = ui_count b, unique = ui_count b\<rparr>"

text \<open>\<open>GetValue(void* rowId)\<close>: the value of a row, or a null pointer.\<close>

definition ui_GetValuePtr :: "('r, 'v) UniqueInlineBuffer \<Rightarrow> 'r \<Rightarrow> err + 'v option" where
  "ui_GetValuePtr b rowId =
     bindE (iter_findNearest (ui_rows b) rowId) (\<lambda>(it, match).
       if match then bindE (iter_get (ui_rows b) it) (\<lambda>e. Inr (snd e)) else Inr None)"

definition ui_GetValue :: "('r, 'v) UniqueInlineBuffer \<Rightarrow> string \<Rightarrow> err + OptionalValue" where
  "ui_GetValue b rowId =
     bindE (GetPointer (ui_rowType b) rowId) (\<lambda>r.
     bindE (ui_GetValuePtr b r) (\<lambda>value.
       case value of
         None \<Rightarrow> Inr None
       | Some v \<Rightarrow> bindE (CopyOut (ui_valueType b) v) (\<lambda>s. Inr (Some s))))"

definition ui_GetValues :: "('r, 'v) UniqueInlineBuffer \<Rightarrow> string list \<Rightarrow> err + OptionalValue list" where
  "ui_GetValues b rowIds = mapE (ui_GetValue b) rowIds"

definition ui_Include :: "('r, 'v) UniqueInlineBuffer \<Rightarrow> 'r \<Rightarrow> 'v \<Rightarrow> err + ('r, 'v) UniqueInlineBuffer \<times> bool" where
  "ui_Include b rowId value =
     bindE (GetPath (ui_rows b) rowId) (\<lambda>rowpath.
       if Match rowpath then Inr (b, False)
       else
         bindE (GetPath (ui_values b) value) (\<lambda>path.
           if Match path then Inr (b, False)
           else
             bindE (Insert (ui_rows b) rowpath rowId value) (\<lambda>(rows, _).
             bindE (Insert (ui_values b) path value rowId) (\<lambda>(values, _).
               Inr (b\<lparr>ui_rows := rows, ui_values := values, ui_count := ui_count b + 1\<rparr>, True)))))"

definition ui_ExcludeValue :: "('r, 'v) UniqueInlineBuffer \<Rightarrow> 'r \<Rightarrow> 'v option \<Rightarrow> err + ('r, 'v) UniqueInlineBuffer \<times> bool" where
  "ui_ExcludeValue b rowId value =
     bindE (GetPath (ui_rows b) rowId) (\<lambda>rowpath.
       if \<not> Match rowpath then Inr (b, False)
       else
         bindE (GetPathPtr (ui_values b) value) (\<lambda>path.
           if Match path
           then
             bindE (path_value (ui_values b) path) (\<lambda>existing.
               if Compare (ui_rowType b) rowId existing = 0
               then
                 bindE (Delete (ui_values b) path) (\<lambda>values.
                 bindE (Delete (ui_rows b) rowpath) (\<lambda>rows.
                   Inr (b\<lparr>ui_rows := rows, ui_values := values, ui_count := ui_count b - 1\<rparr>, True)))
               else Inr (b, False))
           else Inr (b, False)))"

definition ui_Exclude :: "('r, 'v) UniqueInlineBuffer \<Rightarrow> 'r \<Rightarrow> err + ('r, 'v) UniqueInlineBuffer \<times> bool" where
  "ui_Exclude b rowId = bindE (ui_GetValuePtr b rowId) (\<lambda>val. ui_ExcludeValue b rowId val)"

definition ui_Apply :: "('r, 'v) UniqueInlineBuffer \<Rightarrow> ColumnWrites \<Rightarrow> err + ('r, 'v) UniqueInlineBuffer" where
  "ui_Apply b writes =
     apply_writes (GetPointer (ui_valueType b)) (GetPointer (ui_rowType b)) ui_Exclude ui_Include writes b"

definition ui_GetRows :: "('r, 'v) UniqueInlineBuffer \<Rightarrow> RangeRequest \<Rightarrow> err + RangeResult" where
  "ui_GetRows b rng =
     bindE (bound_pointer (ui_valueType b) (first rng)) (\<lambda>firstp.
     bindE (bound_pointer (ui_valueType b) (last_bound rng)) (\<lambda>lastp.
     bindE (row_pointer (ui_rowType b) (start_rowID rng)) (\<lambda>startId.
       scan_range (ui_values b) (ascending rng) (map_option (ui_GetValuePtr b) startId) firstp lastp
         (disjoint_constraints (ui_valueType b) (ascending rng) firstp lastp new_RangeResult)
         (visit_unique (ui_valueType b) (ui_rowType b) startId (limit rng)))))"

section \<open>The invariant and the abstract column\<close>

text \<open>Two trees that mirror each other.\<close>

definition mirror :: "('r \<times> 'v option) set \<Rightarrow> ('v \<times> 'r option) set \<Rightarrow> bool" where
  "mirror R V \<longleftrightarrow> (\<forall>r v. (r, Some v) \<in> R \<longleftrightarrow> (v, Some r) \<in> V) \<and> (\<forall>r. (r, None) \<notin> R) \<and> (\<forall>v. (v, None) \<notin> V)"

definition ui_inv :: "'r ScalarType \<Rightarrow> 'r set \<Rightarrow> 'v ScalarType \<Rightarrow> 'v set \<Rightarrow> ('r, 'v) UniqueInlineBuffer \<Rightarrow> bool" where
  "ui_inv rty KR vty KV b \<longleftrightarrow> ui_rowType b = rty \<and> ui_valueType b = vty \<and>
     btree_inv rty KR (ui_rows b) \<and> \<not> keyOnly (ui_rows b) \<and>
     btree_inv vty KV (ui_values b) \<and> \<not> keyOnly (ui_values b) \<and>
     mirror (set (contents (ui_rows b))) (set (contents (ui_values b))) \<and>
     ui_count b = int (length (contents (ui_rows b)))"

abbreviation ui_look :: "'r ScalarType \<Rightarrow> 'r set \<Rightarrow> ('r, 'v) UniqueInlineBuffer \<Rightarrow> 'r \<Rightarrow> 'v option" where
  "ui_look rty KR b \<equiv> unique_look rty KR (contents (ui_values b))"

definition ui_safe :: "('r, 'v) UniqueInlineBuffer \<Rightarrow> 'r \<Rightarrow> bool" where
  "ui_safe b r \<longleftrightarrow> tree_safe (ui_rows b) r \<and>
     (case ui_GetValuePtr b r of Inr (Some v) \<Rightarrow> tree_safe (ui_values b) v | Inr None \<Rightarrow> True | Inl _ \<Rightarrow> False)"

lemma mirror_insert: "mirror R V \<Longrightarrow> mirror (insert (r, Some v) R) (insert (v, Some r) V)"
  by (auto simp: mirror_def)

lemma mirror_delete: "mirror R V \<Longrightarrow> mirror (R - {(r, Some v)}) (V - {(v, Some r)})"
  by (auto simp: mirror_def)

lemma mirror_value:
  assumes "mirror R V" "e \<in> V"
  obtains v r where "e = (v, Some r)" "(r, Some v) \<in> R"
  using assms that by (cases e; cases "snd e") (auto simp: mirror_def)

lemma new_UniqueInlineBuffer_inv: "ui_inv rty KR vty KV (new_UniqueInlineBuffer rty vty)"
  by (simp add: ui_inv_def new_UniqueInlineBuffer_def new_BTree_btree_inv mirror_def) (simp add: new_BTree_def)

context column_types
begin

lemma ui_unique:
  assumes "ui_inv rty KR vty KV b"
  shows "unique_rows rty KR (set (contents (ui_values b)))"
proof -
  note inv = assms [unfolded ui_inv_def]
  have K: "r \<in> KR" if "(r, v) \<in> set (contents (ui_rows b))" for r v
    using row.contents_K [of "ui_rows b" "(r, v)"] that inv by simp
  show ?thesis unfolding unique_rows_def
  proof (intro conjI ballI allI impI)
    show "\<exists>v. \<exists>r\<in>KR. e = (v, Some r)" if "e \<in> set (contents (ui_values b))" for e
      using mirror_value [OF _ that] inv K by metis
    fix v r v' r'
    assume "(v, Some r) \<in> set (contents (ui_values b))" "(v', Some r') \<in> set (contents (ui_values b))" and c: "Compare rty r r' = 0"
    then have "(r, Some v) \<in> set (contents (ui_rows b))" "(r', Some v') \<in> set (contents (ui_rows b))" using inv by (simp_all add: mirror_def)
    from row.entry_unique [OF _ this] c inv show "v = v'" "r = r'" by simp_all
  qed
qed

lemma ui_look_rows:
  assumes "ui_inv rty KR vty KV b" "x \<in> KR"
  shows "ui_look rty KR b x = Option.bind (tree_lookup rty (contents (ui_rows b)) x) snd"
proof (rule option_eqI)
  fix v
  have "tree_lookup rty (contents (ui_rows b)) x = Some e \<longleftrightarrow> e \<in> set (contents (ui_rows b)) \<and> Compare rty x (fst e) = 0" for e
    using row.lookup_iff [of "ui_rows b" x e] assms by (simp add: ui_inv_def)
  then have "Option.bind (tree_lookup rty (contents (ui_rows b)) x) snd = Some v \<longleftrightarrow>
      (\<exists>r. (r, Some v) \<in> set (contents (ui_rows b)) \<and> Compare rty x r = 0)" by (auto simp: bind_eq_Some_conv)
  moreover have "(r, Some v) \<in> set (contents (ui_rows b)) \<longleftrightarrow> (v, Some r) \<in> set (contents (ui_values b))" for r
    using assms(1) by (simp add: ui_inv_def mirror_def)
  ultimately show "ui_look rty KR b x = Some v \<longleftrightarrow> Option.bind (tree_lookup rty (contents (ui_rows b)) x) snd = Some v"
    using unique_look_iff [OF ui_unique [OF assms(1)], of x v] assms(2) by simp
qed

lemma ui_look_None_iff:
  assumes "ui_inv rty KR vty KV b" "x \<in> KR"
  shows "ui_look rty KR b x = None \<longleftrightarrow> tree_lookup rty (contents (ui_rows b)) x = None"
proof (cases "tree_lookup rty (contents (ui_rows b)) x")
  case (Some e)
  then have "(fst e, snd e) \<in> set (contents (ui_rows b))" using row.lookup_iff [of "ui_rows b" x e] assms by (simp add: ui_inv_def)
  then have "snd e \<noteq> None" using assms(1) unfolding ui_inv_def mirror_def by metis
  with Some show ?thesis using ui_look_rows [OF assms] by simp
qed (use ui_look_rows [OF assms] in simp)

lemma ui_GetValuePtr_look:
  assumes "ui_inv rty KR vty KV b" "r \<in> KR"
  shows "ui_GetValuePtr b r = Inr (ui_look rty KR b r)"
proof (cases "tree_lookup rty (contents (ui_rows b)) r")
  case None
  then obtain it where "iter_findNearest (ui_rows b) r = Inr (it, False)"
    using row.findNearest_missing [of "ui_rows b" r] assms by (auto simp: ui_inv_def)
  with None ui_look_rows [OF assms] show ?thesis by (simp add: ui_GetValuePtr_def)
next
  case (Some e)
  then obtain it where "iter_findNearest (ui_rows b) r = Inr (it, True)" "iter_get (ui_rows b) it = Inr e"
    using row.findNearest_lookup [of "ui_rows b" r e] assms by (auto simp: ui_inv_def)
  with Some ui_look_rows [OF assms] show ?thesis by (simp add: ui_GetValuePtr_def)
qed

lemma ui_Include_ok:
  assumes b: "ui_inv rty KR vty KV b" and r: "r \<in> KR" and v: "v \<in> KV"
  shows "\<exists>b' c. ui_Include b r v = Inr (b', c) \<and> ui_inv rty KR vty KV b' \<and>
    ui_look rty KR b' = abs_include (same_key rty KR) (free_value vty) (r, v) (ui_look rty KR b) \<and>
    (c \<longleftrightarrow> ui_look rty KR b r = None \<and> free_value vty (ui_look rty KR b) v)"
proof -
  note inv = b [unfolded ui_inv_def]
  obtain rp where rp: "GetPath (ui_rows b) r = Inr rp" "Match rp \<longleftrightarrow> tree_lookup rty (contents (ui_rows b)) r \<noteq> None"
    using row.GetPath_lookup [of "ui_rows b" r] inv r by blast
  obtain vp where vp: "GetPath (ui_values b) v = Inr vp" "Match vp \<longleftrightarrow> \<not> free_value vty (ui_look rty KR b) v"
    using val.GetPath_lookup [of "ui_values b" v] free_iff [OF ui_unique [OF b], of v] inv v by auto
  have look: "Match rp \<longleftrightarrow> ui_look rty KR b r \<noteq> None"
    using rp(2) ui_look_None_iff [OF b r] by simp
  show ?thesis
  proof (cases "Match rp \<or> Match vp")
    case True
    then have "ui_Include b r v = Inr (b, False)" using rp(1) vp(1) by (auto simp: ui_Include_def)
    moreover have "\<not> (ui_look rty KR b r = None \<and> free_value vty (ui_look rty KR b) v)" using True look vp(2) by blast
    ultimately show ?thesis using b by (auto simp: abs_include_def)
  next
    case False
    obtain R m where R: "Insert (ui_rows b) rp r v = Inr (R, m)" "btree_inv rty KR R" "\<not> keyOnly R"
      "set (contents R) = insert (r, Some v) (set (contents (ui_rows b)))"
      "length (contents R) = Suc (length (contents (ui_rows b)))"
      using row.Insert_map [of "ui_rows b" r rp v] inv r rp(1) False by (auto simp: slot_def)
    obtain V m' where V: "Insert (ui_values b) vp v r = Inr (V, m')" "btree_inv vty KV V" "\<not> keyOnly V"
      "set (contents V) = insert (v, Some r) (set (contents (ui_values b)))"
      using val.Insert_map [of "ui_values b" v vp r] inv v vp(1) False by (auto simp: slot_def)
    let ?b = "b\<lparr>ui_rows := R, ui_values := V, ui_count := ui_count b + 1\<rparr>"
    have "ui_look rty KR b r = None" "free_value vty (ui_look rty KR b) v" using False look vp(2) by blast+
    moreover from this have "ui_look rty KR ?b = abs_include (same_key rty KR) (free_value vty) (r, v) (ui_look rty KR b)"
      using unique_look_insert [OF ui_unique [OF b] r, of "contents V" v] V(4) by simp
    moreover have "ui_inv rty KR vty KV ?b" using inv R V by (simp add: ui_inv_def mirror_insert)
    moreover have "ui_Include b r v = Inr (?b, True)" using False rp(1) vp(1) R(1) V(1) by (simp add: ui_Include_def)
    ultimately show ?thesis by blast
  qed
qed

lemma ui_Exclude_ok:
  assumes b: "ui_inv rty KR vty KV b" and r: "r \<in> KR" and safe: "ui_safe b r"
  shows "\<exists>b' c. ui_Exclude b r = Inr (b', c) \<and> ui_inv rty KR vty KV b' \<and>
    ui_look rty KR b' = abs_exclude (same_key rty KR) r (ui_look rty KR b) \<and> (c \<longleftrightarrow> ui_look rty KR b r \<noteq> None)"
proof -
  note inv = b [unfolded ui_inv_def]
  note get = ui_GetValuePtr_look [OF b r]
  obtain rp where rp: "GetPath (ui_rows b) r = Inr rp" "Match rp \<longleftrightarrow> tree_lookup rty (contents (ui_rows b)) r \<noteq> None"
    using row.GetPath_lookup [of "ui_rows b" r] inv r by blast
  show ?thesis
  proof (cases "ui_look rty KR b r")
    case None
    then have none: "tree_lookup rty (contents (ui_rows b)) r = None"
      using ui_look_None_iff [OF b r] by simp
    have "abs_exclude (same_key rty KR) r (ui_look rty KR b) = ui_look rty KR b"
      by (rule unique_look_absent [OF ui_unique [OF b] r None])
    moreover have "ui_Exclude b r = Inr (b, False)" using none rp get None by (simp add: ui_Exclude_def ui_ExcludeValue_def)
    ultimately show ?thesis using b None by auto
  next
    case (Some v)
    then obtain r0 where vr: "(v, Some r0) \<in> set (contents (ui_values b))" and c: "Compare rty r r0 = 0"
      using unique_look_iff [OF ui_unique [OF b]] by blast
    then have r0: "(r0, Some v) \<in> set (contents (ui_rows b))" "Compare rty r r0 = 0" using inv by (simp_all add: mirror_def)
    have K: "r0 \<in> KR" "v \<in> KV" using row.contents_K [of "ui_rows b" "(r0, Some v)"] val.contents_K [of "ui_values b" "(v, Some r0)"] r0 vr inv by auto
    have lr: "tree_lookup rty (contents (ui_rows b)) r = Some (r0, Some v)" using row.lookup_iff [of "ui_rows b" r] inv r r0 by simp
    have lv: "tree_lookup vty (contents (ui_values b)) v = Some (v, Some r0)"
      using val.lookup_iff [of "ui_values b" v] inv K(2) vr val.cmp_refl by simp
    obtain vp where vp: "GetPath (ui_values b) v = Inr vp" "Match vp" "path_value (ui_values b) vp = Inr r0"
      using val.GetPath_lookup [of "ui_values b" v] inv K(2) lv by auto
    obtain R where R: "Delete (ui_rows b) rp = Inr R" "btree_inv rty KR R" "\<not> keyOnly R"
      "set (contents R) = set (contents (ui_rows b)) - {(r0, Some v)}" "length (contents (ui_rows b)) = Suc (length (contents R))"
      using row.Delete_map [of "ui_rows b" r rp] inv r rp lr safe by (auto simp: ui_safe_def tree_safe_def)
    obtain V where V: "Delete (ui_values b) vp = Inr V" "btree_inv vty KV V" "\<not> keyOnly V"
      "set (contents V) = set (contents (ui_values b)) - {(v, Some r0)}"
      using val.Delete_map [of "ui_values b" v vp] inv K(2) vp lv safe get Some by (auto simp: ui_safe_def tree_safe_def)
    let ?b = "b\<lparr>ui_rows := R, ui_values := V, ui_count := ui_count b - 1\<rparr>"
    have "ui_look rty KR ?b = abs_exclude (same_key rty KR) r (ui_look rty KR b)"
      using unique_look_delete [OF ui_unique [OF b] r vr c, of "contents V"] V(4) by simp
    moreover have "ui_inv rty KR vty KV ?b" using inv R V by (simp add: ui_inv_def mirror_delete)
    moreover have "ui_Exclude b r = Inr (?b, True)" using get Some rp lr vp R(1) V(1) r0(2) inv
      by (simp add: ui_Exclude_def ui_ExcludeValue_def)
    ultimately show ?thesis using Some by blast
  qed
qed

end

sublocale column_types \<subseteq> unique_inline: column_buffer "ui_inv rty KR vty KV" "ui_look rty KR" "same_key rty KR"
  "free_value vty" KR "\<lambda>r v. v \<in> KV" ui_safe ui_Exclude ui_Include "\<lambda>v. v"
  by unfold_locales (fact ui_Include_ok, fact ui_Exclude_ok)

context column_types
begin

lemmas ui_apply_refines = unique_inline.apply_refines

end

section \<open>Properties\<close>

text \<open>
  C16. Writes to a column of unique inline values: if the excludes are safe one after the other
  (the deletions from the tree of rows and from the tree of values are both
  \<open>delete_safe\<close>), then \<open>Apply\<close> succeeds, keeps the two trees in step and
  acts as excludes and includes on a partial map, where an include is ignored when the row has a
  value or another row has an equal one. The cells parse, and their rows and values lie in the
  range on which the types are ordered.
\<close>

theorem ui_Apply_refines:
  assumes "column_types rty KR vty KV" "ui_inv rty KR vty KV b"
    and "list_all2 (\<lambda>x r. GetPointer rty (cell_rowID x) = Inr r) (cw_excludes w) rs" "set rs \<subseteq> KR"
    and "all_safe ui_safe ui_Exclude b rs"
    and "list_all2 (\<lambda>x p. GetPointer rty (cell_rowID x) = Inr (fst p) \<and> GetPointer vty (cell_value x) = Inr (snd p)) (cw_includes w) ps"
    and "\<forall>(r, v)\<in>set ps. r \<in> KR \<and> v \<in> KV"
  shows "\<exists>b'. ui_Apply b w = Inr b' \<and> ui_inv rty KR vty KV b' \<and> ui_look rty KR b' =
    fold (abs_include (same_key rty KR) (free_value vty)) ps (fold (abs_exclude (same_key rty KR)) rs (ui_look rty KR b))"
proof -
  have "ui_rowType b = rty" "ui_valueType b = vty" using assms(2) by (simp_all add: ui_inv_def)
  then show ?thesis unfolding ui_Apply_def using column_types.ui_apply_refines [OF assms] by simp
qed

definition sample_unique :: "(64 word, 64 word) UniqueInlineBuffer" where
  "sample_unique = \<lparr>ui_rowType = LongType, ui_valueType = LongType,
     ui_rows = leaf_tree LongType False [(3, Some 8), (4, Some 5)],
     ui_values = leaf_tree LongType False [(5, Some 4), (8, Some 3)], ui_count = 2\<rparr>"

lemma sample_unique_inv: "ui_inv LongType half_range LongType half_range sample_unique"
  unfolding ui_inv_def sample_unique_def
  by (auto simp: leaf_tree_inv LongType_def LongCompare_def half_range_def mirror_def)

theorem ui_Apply_refines_witness:
  "\<exists>b'. ui_Apply sample_unique \<lparr>cw_includes = [\<lparr>cell_rowID = long 5, cell_value = long 8\<rparr>, \<lparr>cell_rowID = long 3, cell_value = long 5\<rparr>],
       cw_excludes = [\<lparr>cell_rowID = long 4, cell_value = []\<rparr>]\<rparr> = Inr b' \<and>
     ui_inv LongType half_range LongType half_range b' \<and> ui_look LongType half_range b' 3 = Some 8 \<and>
     ui_look LongType half_range b' 4 = None \<and> ui_look LongType half_range b' 5 = None"
proof -
  let ?w = "\<lparr>cw_includes = [\<lparr>cell_rowID = long 5, cell_value = long 8\<rparr>, \<lparr>cell_rowID = long 3, cell_value = long 5\<rparr>],
    cw_excludes = [\<lparr>cell_rowID = long 4, cell_value = []\<rparr>]\<rparr>"
  have safe: "all_safe ui_safe ui_Exclude sample_unique [4]" by code_simp
  have look: "ui_look LongType half_range sample_unique 3 = Some 8" "ui_look LongType half_range sample_unique 5 = None"
    "same_key LongType half_range 4 4" "\<not> same_key LongType half_range 3 4" "\<not> same_key LongType half_range 5 4" "Compare LongType 8 8 = 0"
    by (simp_all add: unique_look_def row_lookup_def sample_unique_def same_key_def LongType_def LongCompare_def half_range_def)
  let ?m = "abs_exclude (same_key LongType half_range) 4 (ui_look LongType half_range sample_unique)"
  have m: "?m 3 = Some 8" "?m 4 = None" "?m 5 = None" using look by (simp_all add: abs_exclude_def)
  have "\<not> free_value LongType ?m 8" unfolding free_value_def using m(1) look(6) by blast
  with m have "fold (abs_include (same_key LongType half_range) (free_value LongType)) [(5, 8), (3, 5)] ?m = ?m"
    by (simp add: abs_include_def)
  then show ?thesis
    using ui_Apply_refines [OF long_long.column_types_axioms sample_unique_inv, of ?w "[4]" "[(5, 8), (3, 5)]"] safe sample_keys m
    by (auto simp: half_range_def)
qed

text \<open>
  C17. Range queries on a column of unique inline values: on a shallow tree of values (at most one
  level of branches), for a start row, if one is given, that is in the column, and for a begin
  (the value of the start row, if one is given) and an end that meet, \<open>GetRows\<close>
  returns the rows whose values lie between the bounds, without the start row and up to the limit,
  and sets limited exactly when the limit was reached and eof exactly when it was not and every
  entry lies within the end bound. Bounds and start row parse and lie in the ranges on which the
  types are ordered.
\<close>

theorem ui_GetRows_correct:
  assumes "column_types rty KR vty KV" "ui_inv rty KR vty KV b" "shallow (ui_values b)"
    and "bound_pointer vty (first rng) = Inr f" "bound_in KV f"
    and "bound_pointer vty (last_bound rng) = Inr l" "bound_in KV l"
    and "row_pointer rty (start_rowID rng) = Inr sid" "set_option sid \<subseteq> KR"
    and sk: "sk = Option.bind sid (ui_look rty KR b)" "sk = None \<longleftrightarrow> sid = None"
    and "bounds_meet vty (ascending rng) (begin_bound sk f) l"
    and sel: "sel = filter (\<lambda>e. \<not> start_row rty sid (the (snd e)))
      (selected vty (ascending rng) (begin_bound sk f) l (contents (ui_values b)))"
  shows "\<exists>res. ui_GetRows b rng = Inr res \<and>
    valueRowsList res = map (\<lambda>e. row_of vty rty (fst e, the (snd e))) (take_limit (row_limit (limit rng)) sel) \<and>
    (limited res \<longleftrightarrow> row_limit (limit rng) \<noteq> 0 \<and> row_limit (limit rng) \<le> length sel) \<and>
    (res_eof res \<longleftrightarrow> \<not> limited res \<and> (\<forall>e\<in>set (contents (ui_values b)). in_bound vty (\<not> ascending rng) l (fst e)))"
proof -
  have ty: "ui_rowType b = rty" "ui_valueType b = vty" and tv: "btree_inv vty KV (ui_values b)"
    using assms(2) by (simp_all add: ui_inv_def)
  have get: "\<forall>s\<in>set_option sid. ui_GetValuePtr b s = Inr (ui_look rty KR b s)"
    using column_types.ui_GetValuePtr_look [OF assms(1,2)] assms(9) by auto
  show ?thesis unfolding ui_GetRows_def ty assms(4,6,8) bindE_simps
    by (rule column_types.unique_scan [OF assms(1) tv assms(3) column_types.ui_unique [OF assms(1,2)] assms(5,7,9) sk get assms(12) sel])
qed

theorem ui_GetRows_correct_witness:
  "\<exists>res. ui_GetRows sample_unique \<lparr>ascending = True, limit = 5, first = None,
      last_bound = Some \<lparr>boundValue = long 8, inclusive = True\<rparr>, start_rowID = Some (long 4)\<rparr> = Inr res \<and>
     valueRowsList res = [\<lparr>vrValue = long 8, vrRowIDs = [long 3]\<rparr>] \<and> \<not> limited res \<and> res_eof res"
proof -
  let ?r = "\<lparr>ascending = True, limit = 5, first = None,
    last_bound = Some \<lparr>boundValue = long 8, inclusive = True\<rparr>, start_rowID = Some (long 4)\<rparr>"
  have p: "shallow (ui_values sample_unique)" "bound_pointer LongType (first ?r) = Inr None"
    "bound_pointer LongType (last_bound ?r) = Inr (Some (8, True))" "row_pointer LongType (start_rowID ?r) = Inr (Some 4)"
    by (simp_all add: sample_unique_def bound_pointer_def row_pointer_def)
  have k: "bound_in half_range (None :: (64 word \<times> bool) option)" "bound_in half_range (Some (8 :: 64 word, True))"
    "set_option (Some (4 :: 64 word)) \<subseteq> half_range"
    by (simp_all add: half_range_def)
  have sk: "Some 5 = Option.bind (Some 4) (ui_look LongType half_range sample_unique)" "Some (5 :: 64 word) = None \<longleftrightarrow> Some (4 :: 64 word) = None"
    by (simp_all add: unique_look_def row_lookup_def sample_unique_def LongType_def LongCompare_def half_range_def)
  have m: "bounds_meet LongType (ascending ?r) (begin_bound (Some 5) None) (Some (8, True))" by code_simp
  have sel: "[(8, Some 3)] = filter (\<lambda>e. \<not> start_row LongType (Some 4) (the (snd e)))
      (selected LongType (ascending ?r) (begin_bound (Some 5) None) (Some (8, True)) (contents (ui_values sample_unique)))"
    by code_simp
  have "row_limit 5 = 5" "row_of LongType LongType (8, 3) = \<lparr>vrValue = long 8, vrRowIDs = [long 3]\<rparr>"
    "\<forall>e\<in>set (contents (ui_values sample_unique)). in_bound LongType False (Some (8, True)) (fst e)" by code_simp+
  with ui_GetRows_correct [OF long_long.column_types_axioms sample_unique_inv p(1,2) k(1) p(3) k(2) p(4) k(3) sk m sel]
  show ?thesis by (auto simp: take_limit_def)
qed

end
