(* ===== verification/LeafPointers.thy ===== *)
theory LeafPointers
  imports UniqueColumn
begin

text \<open>
  What the buffers that keep pointers into the leaves of another tree rely on: replaying
  the values-moved reports of an insertion, and deletions that move nothing.
\<close>

text \<open>An exclude is safe when it moves no value: the pointers are not told of a rebalancing.\<close>

definition tree_stays :: "('k, 'v) BTree \<Rightarrow> 'k \<Rightarrow> bool" where
  "tree_stays T k = (case GetPath T k of Inl e \<Rightarrow> False | Inr p \<Rightarrow> \<not> Match p \<or> stays T p)"

text \<open>A callback that writes the new leaf of a row that is there.\<close>

definition repoints :: "'k ScalarType \<Rightarrow> 'k set \<Rightarrow> ('k \<times> 'v \<Rightarrow> ('k, 'v) BTree \<Rightarrow> err + ('k, 'v) BTree) \<Rightarrow> bool" where
  "repoints ty K f \<longleftrightarrow> (\<forall>T w b. btree_inv ty K T \<longrightarrow> w \<in> K \<longrightarrow> tree_lookup ty (contents T) w \<noteq> None \<longrightarrow>
     f (w, b) T = bindE (GetPath T w) (\<lambda>p. set_path_value T p b))"

lemma leaf_tree_located: "located (leaf_tree ty ko es) = map (Pair 0) es"
  by (simp add: located_def leaf_tree_def)

context scalar_order
begin

text \<open>Replaying reports of moved entries: the reported keys get their new values.\<close>

lemma fold_moved:
  fixes f :: "'k \<times> 'v \<Rightarrow> ('k, 'v) BTree \<Rightarrow> err + ('k, 'v) BTree"
  assumes step: "repoints ty K f"
    and "btree_inv ty K T" "\<forall>k. (k, None) \<notin> set (contents T)"
    and "\<forall>(w, b)\<in>set M. \<exists>b0. (w, Some b0) \<in> set (contents T)"
    and "\<forall>w b b'. (w, b) \<in> set M \<longrightarrow> (w, b') \<in> set M \<longrightarrow> b = b'"
  shows "\<exists>T'. foldE f M T = Inr T' \<and> btree_inv ty K T' \<and> keyOnly T' = keyOnly T \<and> length (contents T') = length (contents T) \<and>
    (\<forall>k b. (k, Some b) \<in> set (contents T') \<longleftrightarrow> (k, b) \<in> set M \<or> (k, Some b) \<in> set (contents T) \<and> (\<forall>b'. (k, b') \<notin> set M)) \<and>
    (\<forall>k. (k, None) \<notin> set (contents T'))"
  using assms(2-)
proof (induction M arbitrary: T)
  case (Cons x M)
  obtain w b where x: "x = (w, b)" by (cases x)
  then obtain b0 where b0: "(w, Some b0) \<in> set (contents T)" using Cons.prems(3) by auto
  have w: "w \<in> K" using contents_K [OF Cons.prems(1) b0] by simp
  have lk: "tree_lookup ty (contents T) w = Some (w, Some b0)" using lookup_iff [OF Cons.prems(1) w] b0 cmp_refl [OF w] by simp
  have only: "c = Some b0" if "(w, c) \<in> set (contents T)" for c
    using entry_unique [OF Cons.prems(1) that b0] cmp_refl [OF w] by simp
  obtain p where p: "GetPath T w = Inr p" using GetPath_lookup [OF Cons.prems(1) w] by blast
  obtain T1 where T1: "set_path_value T p b = Inr T1" "btree_inv ty K T1" "keyOnly T1 = keyOnly T"
    "set (contents T1) = insert (w, Some b) (set (contents T) - {(w, Some b0)})" "length (contents T1) = length (contents T)"
    using set_path_value_map [OF Cons.prems(1) w p lk] by blast
  have f: "f x T = Inr T1" using step Cons.prems(1) w lk p T1(1) x by (simp add: repoints_def)
  have keys: "\<exists>c0. (w', Some c0) \<in> set (contents T1)" if "(w', c) \<in> set M" for w' c
  proof -
    obtain c0 where "(w', Some c0) \<in> set (contents T)" using Cons.prems(3) \<open>(w', c) \<in> set M\<close> by auto
    then show ?thesis using T1(4) by (cases "w' = w") auto
  qed
  have n: "\<forall>k. (k, None) \<notin> set (contents T1)" using Cons.prems(2) T1(4) by simp
  have k: "\<forall>(w, b)\<in>set M. \<exists>b0. (w, Some b0) \<in> set (contents T1)" using keys by blast
  have d: "\<forall>w b b'. (w, b) \<in> set M \<longrightarrow> (w, b') \<in> set M \<longrightarrow> b = b'" using Cons.prems(4) by (meson list.set_intros(2))
  obtain T' where T': "foldE f M T1 = Inr T'" "btree_inv ty K T'" "keyOnly T' = keyOnly T1"
    "length (contents T') = length (contents T1)"
    "\<forall>k b. (k, Some b) \<in> set (contents T') \<longleftrightarrow> (k, b) \<in> set M \<or> (k, Some b) \<in> set (contents T1) \<and> (\<forall>b'. (k, b') \<notin> set M)"
    "\<forall>k. (k, None) \<notin> set (contents T')"
    using Cons.IH [OF T1(2) n k d] by (elim exE conjE) (rule that)
  have dup: "c = b" if "(w, c) \<in> set M" for c using Cons.prems(4) x \<open>(w, c) \<in> set M\<close> by (meson list.set_intros)
  have iff: "(k, Some c) \<in> set (contents T') \<longleftrightarrow> (k, c) \<in> set (x # M) \<or> (k, Some c) \<in> set (contents T) \<and> (\<forall>b'. (k, b') \<notin> set (x # M))" for k c
  proof (cases "k = w")
    case True
    have "(w, Some c) \<in> set (contents T1) \<longleftrightarrow> c = b" using T1(4) only by auto
    then show ?thesis using True T'(5) x dup by auto
  next
    case False
    then have "(k, Some c) \<in> set (contents T1) \<longleftrightarrow> (k, Some c) \<in> set (contents T)" using T1(4) by simp
    then show ?thesis using False T'(5) x by simp
  qed
  have "foldE f (x # M) T = Inr T'" "keyOnly T' = keyOnly T" "length (contents T') = length (contents T)"
    using T'(1,3,4) T1(3,5) f by simp_all
  then show ?case using T'(2,6) iff by blast
qed simp

lemma located_unique:
  assumes "btree_inv ty K T" "(b, e) \<in> set (located T)" "(b', e) \<in> set (located T)"
  shows "b = b'"
proof -
  have "distinct (map snd (located T))" using distinct_contents [OF assms(1)] located_contents [OF assms(1)] by simp
  then have "inj_on snd (set (located T))" by (simp add: distinct_map)
  from inj_onD [OF this _ assms(2,3)] show ?thesis by simp
qed

lemma entry_one:
  assumes "btree_inv ty K T" "(k, a) \<in> set (contents T)" "(k, a') \<in> set (contents T)"
  shows "a = a'"
  using entry_unique [OF assms] contents_K [OF assms(1,2)] cmp_refl by simp

end

section \<open>Rows and the leaves of their values\<close>

text \<open>
  The tree of rows against the located entries of the tree of values: a row points to the
  leaf of its value, and it has one value.
\<close>

definition linked :: "('r \<times> addr option) set \<Rightarrow> (addr \<times> 'v \<times> 'r option) set \<Rightarrow> bool" where
  "linked R L \<longleftrightarrow> (\<forall>r a. (r, Some a) \<in> R \<longleftrightarrow> (\<exists>v. (a, v, Some r) \<in> L)) \<and> (\<forall>r. (r, None) \<notin> R) \<and>
     (\<forall>a v. (a, v, None) \<notin> L) \<and> (\<forall>a v a' v' r. (a, v, Some r) \<in> L \<longrightarrow> (a', v', Some r) \<in> L \<longrightarrow> v = v')"

lemma linkedD:
  assumes "linked R L"
  shows "(a, v, Some r) \<in> L \<Longrightarrow> (r, Some a) \<in> R" "(r, Some a) \<in> R \<Longrightarrow> \<exists>v. (a, v, Some r) \<in> L"
    "(r, w) \<in> R \<Longrightarrow> \<exists>a. w = Some a" "(a, v, u) \<in> L \<Longrightarrow> \<exists>r. u = Some r"
    "(a, v, Some r) \<in> L \<Longrightarrow> (a', v', Some r) \<in> L \<Longrightarrow> v = v'"
proof -
  note l = assms [unfolded linked_def]
  show "(a, v, Some r) \<in> L \<Longrightarrow> (r, Some a) \<in> R" "(r, Some a) \<in> R \<Longrightarrow> \<exists>v. (a, v, Some r) \<in> L"
    "(a, v, Some r) \<in> L \<Longrightarrow> (a', v', Some r) \<in> L \<Longrightarrow> v = v'" using l by blast+
  show "(r, w) \<in> R \<Longrightarrow> \<exists>a. w = Some a" using l by (cases w) auto
  show "(a, v, u) \<in> L \<Longrightarrow> \<exists>r. u = Some r" using l by (cases u) auto
qed

lemma linked_insert:
  fixes R :: "('r \<times> addr option) set" and L :: "(addr \<times> 'v \<times> 'r option) set"
  assumes link: "linked R L" and new: "\<forall>b. (r, Some b) \<notin> R"
    and one: "\<forall>k b b'. (k, Some b) \<in> R \<longrightarrow> (k, Some b') \<in> R \<longrightarrow> b = b'"
    and V: "snd ` L' = insert (v, Some r) (snd ` L)" "\<forall>b b' e. (b, e) \<in> L' \<longrightarrow> (b', e) \<in> L' \<longrightarrow> b = b'"
    and old: "\<forall>b e w. (b, e, Some w) \<in> L' \<longrightarrow> (w, b) \<in> M \<or> (b, e, Some w) \<in> L \<or> (e, w) = (v, r) \<and> b = a"
    and told: "\<forall>w b. (w, b) \<in> M \<longrightarrow> (\<exists>e. (b, e, Some w) \<in> L')"
    and R': "\<forall>k b. (k, Some b) \<in> R' \<longleftrightarrow> (k, b) \<in> M \<or> (k, Some b) \<in> insert (r, Some a) R \<and> (\<forall>b'. (k, b') \<notin> M)" "\<forall>k. (k, None) \<notin> R'"
  shows "linked R' L'"
proof -
  note l = link [unfolded linked_def]
  have nr: "(b, e, Some r) \<notin> L" for b e using l new by blast
  have mem: "(e, w) \<in> snd ` L \<or> (e, w) = (v, Some r)" if "(b, e, w) \<in> L'" for b e w
    using V(1) that by (metis image_eqI insert_iff snd_conv)
  have val: "e = e'" if x: "(b, e, Some k) \<in> L'" "(b', e', Some k) \<in> L'" for b e b' e' k
    using mem [OF x(1)] mem [OF x(2)] nr l by fastforce
  have fwd: "\<exists>e. (b, e, Some k) \<in> L'" if "(k, Some b) \<in> R'" for k b
  proof (cases "(k, b) \<in> M")
    case False
    then have b: "(k, Some b) \<in> insert (r, Some a) R" "\<forall>b'. (k, b') \<notin> M" using R' that by auto
    then obtain e where e: "(e, Some k) \<in> snd ` L'" "(k, b) = (r, a) \<or> (b, e, Some k) \<in> L"
      using V(1) l by (metis image_eqI insert_iff prod.inject option.inject snd_conv)
    then obtain b' where b': "(b', e, Some k) \<in> L'" by auto
    with old b(2) have "(b', e, Some k) \<in> L \<or> (e, k) = (v, r) \<and> b' = a" by blast
    with e(2) nr l one b' have "b' = b" by (metis prod.inject)
    with b' show ?thesis by blast
  qed (use told in blast)
  have "(k, Some b) \<in> R'" if x: "(b, e, Some k) \<in> L'" for k b e
  proof (cases "(k, b) \<in> M")
    case False
    have "(k, b') \<notin> M" for b'
      using told val [OF x] V(2) x False by metis
    moreover have "(k, Some b) \<in> insert (r, Some a) R" using old x False l by blast
    ultimately show ?thesis using R' by blast
  qed (use R' in blast)
  moreover have "(b, e, None) \<notin> L'" for b e using mem [of b e None] l by force
  ultimately show ?thesis unfolding linked_def using fwd val R'(2) by blast
qed

lemma linked_delete:
  assumes link: "linked R L" and x: "(a, v, Some r) \<in> L"
    and "L' = {y \<in> L. snd y \<noteq> (v, Some r)}" "R' = R - {(r, Some a)}"
    and one: "\<forall>k b b'. (k, Some b) \<in> R \<longrightarrow> (k, Some b') \<in> R \<longrightarrow> b = b'"
  shows "linked R' L'"
proof -
  note l = link [unfolded linked_def]
  have v: "e = v" if "(b, e, Some r) \<in> L" for b e using l that x by blast
  have ra: "(r, Some a) \<in> R" using l x by blast
  have iff: "(k, Some b) \<in> R' \<longleftrightarrow> (\<exists>e. (b, e, Some k) \<in> L')" for k b
  proof
    assume k: "(k, Some b) \<in> R'"
    then have k': "(k, Some b) \<in> R" "(k, b) \<noteq> (r, a)" using assms(4) by auto
    then obtain e where e: "(b, e, Some k) \<in> L" using l by blast
    have "k \<noteq> r" using one k' ra by blast
    with e show "\<exists>e. (b, e, Some k) \<in> L'" using assms(3) by auto
  next
    assume "\<exists>e. (b, e, Some k) \<in> L'"
    then obtain e where e: "(b, e, Some k) \<in> L" "(e, k) \<noteq> (v, r)" using assms(3) by auto
    then have "k \<noteq> r" using v by blast
    moreover have "(k, Some b) \<in> R" using l e(1) by blast
    ultimately show "(k, Some b) \<in> R'" using assms(4) by simp
  qed
  have sub: "y \<in> L" if "y \<in> L'" for y using that assms(3) by simp
  show ?thesis unfolding linked_def
  proof (intro conjI allI impI)
    show "(k, Some b) \<in> R' \<longleftrightarrow> (\<exists>e. (b, e, Some k) \<in> L')" for k b by (rule iff)
    show "(k, None) \<notin> R'" for k using l assms(4) by simp
    show "(b, e, None) \<notin> L'" for b e using l sub by blast
    show "e = e'" if "(b, e, Some k) \<in> L'" "(b', e', Some k) \<in> L'" for b e b' e' k
      using l sub [OF that(1)] sub [OF that(2)] by blast
  qed
qed

context column_types
begin

lemma linked_row:
  assumes "linked R L" "(v, Some r) \<in> snd ` L"
  shows "\<exists>a. (r, Some a) \<in> R \<and> (a, v, Some r) \<in> L"
  using assms(2) linkedD(1) [OF assms(1)] by force

lemma linked_unique:
  assumes R: "btree_inv rty KR T" and lk: "linked (set (contents T)) L"
  shows "unique_rows rty KR (snd ` L)"
  unfolding unique_rows_def
proof (intro conjI ballI allI impI)
  fix e assume "e \<in> snd ` L"
  then obtain a v w where x: "(a, v, w) \<in> L" "e = (v, w)" by (cases e) force
  then obtain r where r: "w = Some r" using linkedD(4) [OF lk x(1)] by blast
  with x have "(r, Some a) \<in> set (contents T)" using linkedD(1) [OF lk, of a v r] by simp
  then have "r \<in> KR" using row.contents_K [OF R] by force
  with x(2) r show "\<exists>v. \<exists>r\<in>KR. e = (v, Some r)" by blast
next
  fix v r v' r'
  assume m: "(v, Some r) \<in> snd ` L" "(v', Some r') \<in> snd ` L" and c: "Compare rty r r' = 0"
  obtain a where a: "(r, Some a) \<in> set (contents T)" "(a, v, Some r) \<in> L" using linked_row [OF lk m(1)] by blast
  obtain a' where a': "(r', Some a') \<in> set (contents T)" "(a', v', Some r') \<in> L" using linked_row [OF lk m(2)] by blast
  show r: "r = r'" using row.entry_unique [OF R a(1) a'(1)] c by simp
  show "v = v'" using linkedD(5) [OF lk a(2)] a'(2) r by blast
qed

lemma linked_look_None:
  assumes R: "btree_inv rty KR T" and lk: "linked (set (contents T)) L" and es: "set es = snd ` L" and x: "x \<in> KR"
  shows "unique_look rty KR es x = None \<longleftrightarrow> tree_lookup rty (contents T) x = None"
proof -
  have u: "unique_rows rty KR (set es)" using linked_unique [OF R lk] es by simp
  have "tree_lookup rty (contents T) x \<noteq> None" if "unique_look rty KR es x = Some v" for v
  proof -
    obtain r where r: "(v, Some r) \<in> set es" "Compare rty x r = 0"
      using \<open>unique_look rty KR es x = Some v\<close> unique_look_iff [OF u] by blast
    then obtain a where "(r, Some a) \<in> set (contents T)" using linked_row [OF lk, of v r] es by blast
    then show ?thesis using row.lookup_iff [OF R x, of "(r, Some a)"] r(2) by simp
  qed
  moreover have "unique_look rty KR es x \<noteq> None" if "tree_lookup rty (contents T) x = Some e" for e
  proof -
    obtain r w where e: "e = (r, w)" by (cases e)
    have r: "(r, w) \<in> set (contents T)" "Compare rty x r = 0"
      using row.lookup_iff [OF R x, of e] \<open>tree_lookup rty (contents T) x = Some e\<close> e by simp_all
    obtain a where "w = Some a" using linkedD(3) [OF lk r(1)] by blast
    with r(1) obtain v where "(a, v, Some r) \<in> L" using linkedD(2) [OF lk, of r a] by blast
    then have "(v, Some r) \<in> set es" using es by force
    then show ?thesis using unique_look_iff [OF u, of x v] r(2) x by auto
  qed
  ultimately show ?thesis by (meson not_None_eq)
qed

end

end
