(* ===== verification/UniqueBuffer.thy ===== *)
theory UniqueBuffer
  imports LeafPointers
begin

text \<open>
  \<open>FastoreCommon/Buffer/UniqueBuffer.cpp\<close>: a column of unique values of any size. The tree of
  rows holds, for each row, the leaf of the tree of values in which its value is; the
  values-moved callback keeps these pointers up to date when an insertion splits a leaf.
\<close>

record ('r, 'v) UniqueBuffer =
  ub_rowType :: "'r ScalarType"
  ub_valueType :: "'v ScalarType"
  ub_rows :: "('r, addr) BTree"
  ub_values :: "('v, 'r) BTree"
  ub_count :: int

definition new_UniqueBuffer :: "'r ScalarType \<Rightarrow> 'v ScalarType \<Rightarrow> ('r, 'v) UniqueBuffer" where
  "new_UniqueBuffer rty vty =
     \<lparr>ub_rowType = rty, ub_valueType = vty, ub_rows = new_BTree rty False, ub_values = new_BTree vty False, ub_count = 0\<rparr>"

definition ub_GetStatistic :: "('r, 'v) UniqueBuffer \<Rightarrow> Statistic" where
  "ub_GetStatistic b = \<lparr>total = ub_count b, unique = ub_count b\<rparr>"

text \<open>\<open>GetValue(void* rowId)\<close>: the key of the row in the leaf its pointer leads to.\<close>

definition same_row :: "'r ScalarType \<Rightarrow> 'r \<Rightarrow> 'r option \<Rightarrow> err + bool" where
  "same_row rty rowId foundId =
     (case foundId of None \<Rightarrow> Inl NullPointer | Some r \<Rightarrow> Inr (Compare rty rowId r = 0))"

definition ub_GetValuePtr :: "('r, 'v) UniqueBuffer \<Rightarrow> 'r \<Rightarrow> err + 'v option" where
  "ub_GetValuePtr b rowId =
     bindE (iter_findNearest (ub_rows b) rowId) (\<lambda>(it, match).
       if match
       then
         bindE (iter_get (ub_rows b) it) (\<lambda>e.
           case snd e of
             None \<Rightarrow> Inl NullPointer
           | Some leaf \<Rightarrow> bindE (Node_GetKey (heap (ub_values b)) leaf (same_row (ub_rowType b) rowId)) (\<lambda>k. Inr (Some k)))
       else Inr None)"

definition ub_GetValue :: "('r, 'v) UniqueBuffer \<Rightarrow> string \<Rightarrow> err + OptionalValue" where
  "ub_GetValue b rowId =
     bindE (GetPointer (ub_rowType b) rowId) (\<lambda>r.
     bindE (ub_GetValuePtr b r) (\<lambda>value.
       case value of
         None \<Rightarrow> Inr None
       | Some v \<Rightarrow> bindE (CopyOut (ub_valueType b) v) (\<lambda>s. Inr (Some s))))"

definition ub_GetValues :: "('r, 'v) UniqueBuffer \<Rightarrow> string list \<Rightarrow> err + OptionalValue list" where
  "ub_GetValues b rowIds = mapE (ub_GetValue b) rowIds"

text \<open>\<open>ValuesMoved\<close>: a row that has been moved to another leaf gets its pointer changed.\<close>

definition ub_ValuesMoved :: "('r \<times> addr) \<Rightarrow> ('r, addr) BTree \<Rightarrow> err + ('r, addr) BTree" where
  "ub_ValuesMoved = (\<lambda>(value, leaf) rows.
     bindE (GetPath rows value) (\<lambda>result.
       if Match result then set_path_value rows result leaf else Inr rows))"

definition ub_Include :: "('r, 'v) UniqueBuffer \<Rightarrow> 'r \<Rightarrow> 'v \<Rightarrow> err + ('r, 'v) UniqueBuffer \<times> bool" where
  "ub_Include b rowId value =
     bindE (GetPath (ub_rows b) rowId) (\<lambda>rowpath.
       if Match rowpath then Inr (b, False)
       else
         bindE (GetPath (ub_values b) value) (\<lambda>path.
           if Match path then Inr (b, False)
           else
             bindE (Insert (ub_rows b) rowpath rowId (PathLeaf path)) (\<lambda>(rows, _).
             bindE (Insert (ub_values b) path value rowId) (\<lambda>(values, moved).
             bindE (foldE ub_ValuesMoved moved rows) (\<lambda>rows'.
               Inr (b\<lparr>ub_rows := rows', ub_values := values, ub_count := ub_count b + 1\<rparr>, True))))))"

definition ub_ExcludeValue :: "('r, 'v) UniqueBuffer \<Rightarrow> 'r \<Rightarrow> 'v option \<Rightarrow> err + ('r, 'v) UniqueBuffer \<times> bool" where
  "ub_ExcludeValue b rowId value =
     bindE (GetPath (ub_rows b) rowId) (\<lambda>rowpath.
       if \<not> Match rowpath then Inr (b, False)
       else
         bindE (GetPathPtr (ub_values b) value) (\<lambda>path.
           if Match path
           then
             bindE (path_value (ub_values b) path) (\<lambda>existing.
               if Compare (ub_rowType b) rowId existing = 0
               then
                 bindE (Delete (ub_values b) path) (\<lambda>values.
                 bindE (Delete (ub_rows b) rowpath) (\<lambda>rows.
                   Inr (b\<lparr>ub_rows := rows, ub_values := values, ub_count := ub_count b - 1\<rparr>, True)))
               else Inr (b, False))
           else Inr (b, False)))"

definition ub_Exclude :: "('r, 'v) UniqueBuffer \<Rightarrow> 'r \<Rightarrow> err + ('r, 'v) UniqueBuffer \<times> bool" where
  "ub_Exclude b rowId = bindE (ub_GetValuePtr b rowId) (\<lambda>val. ub_ExcludeValue b rowId val)"

definition ub_Apply :: "('r, 'v) UniqueBuffer \<Rightarrow> ColumnWrites \<Rightarrow> err + ('r, 'v) UniqueBuffer" where
  "ub_Apply b writes =
     apply_writes (GetPointer (ub_valueType b)) (GetPointer (ub_rowType b)) ub_Exclude ub_Include writes b"

definition ub_GetRows :: "('r, 'v) UniqueBuffer \<Rightarrow> RangeRequest \<Rightarrow> err + RangeResult" where
  "ub_GetRows b rng =
     bindE (bound_pointer (ub_valueType b) (first rng)) (\<lambda>firstp.
     bindE (bound_pointer (ub_valueType b) (last_bound rng)) (\<lambda>lastp.
     bindE (row_pointer (ub_rowType b) (start_rowID rng)) (\<lambda>startId.
       scan_range (ub_values b) (ascending rng) (map_option (ub_GetValuePtr b) startId) firstp lastp
         (disjoint_constraints (ub_valueType b) (ascending rng) firstp lastp new_RangeResult)
         (visit_unique (ub_valueType b) (ub_rowType b) startId (limit rng)))))"

section \<open>The invariant and the abstract column\<close>

definition ub_inv :: "'r ScalarType \<Rightarrow> 'r set \<Rightarrow> 'v ScalarType \<Rightarrow> 'v set \<Rightarrow> ('r, 'v) UniqueBuffer \<Rightarrow> bool" where
  "ub_inv rty KR vty KV b \<longleftrightarrow> ub_rowType b = rty \<and> ub_valueType b = vty \<and>
     btree_inv rty KR (ub_rows b) \<and> \<not> keyOnly (ub_rows b) \<and>
     btree_inv vty KV (ub_values b) \<and> \<not> keyOnly (ub_values b) \<and>
     linked (set (contents (ub_rows b))) (set (located (ub_values b))) \<and>
     ub_count b = int (length (contents (ub_rows b)))"

abbreviation ub_look :: "'r ScalarType \<Rightarrow> 'r set \<Rightarrow> ('r, 'v) UniqueBuffer \<Rightarrow> 'r \<Rightarrow> 'v option" where
  "ub_look rty KR b \<equiv> unique_look rty KR (contents (ub_values b))"

definition ub_safe :: "('r, 'v) UniqueBuffer \<Rightarrow> 'r \<Rightarrow> bool" where
  "ub_safe b r \<longleftrightarrow> tree_safe (ub_rows b) r \<and>
     (case ub_GetValuePtr b r of Inr (Some v) \<Rightarrow> tree_stays (ub_values b) v | Inr None \<Rightarrow> True | Inl _ \<Rightarrow> False)"

lemma new_UniqueBuffer_inv: "ub_inv rty KR vty KV (new_UniqueBuffer rty vty)"
  by (simp add: ub_inv_def new_UniqueBuffer_def new_BTree_btree_inv linked_def) (simp add: new_BTree_def)

context column_types
begin

lemma ub_one:
  "ub_inv rty KR vty KV b \<Longrightarrow> (k, Some a) \<in> set (contents (ub_rows b)) \<Longrightarrow> (k, Some a') \<in> set (contents (ub_rows b)) \<Longrightarrow> a = a'"
  using row.entry_one [of "ub_rows b" k "Some a" "Some a'"] by (simp add: ub_inv_def)

lemma ub_located: "ub_inv rty KR vty KV b \<Longrightarrow> set (contents (ub_values b)) = snd ` set (located (ub_values b))"
  using located_contents [of vty KV "ub_values b"] by (simp add: ub_inv_def)

lemma ub_unique: "ub_inv rty KR vty KV b \<Longrightarrow> unique_rows rty KR (set (contents (ub_values b)))"
  using linked_unique [of "ub_rows b" "set (located (ub_values b))"] ub_located [of b] by (simp add: ub_inv_def)

lemma GetKey_loop_row:
  assumes "\<forall>e\<in>set es. \<exists>v. \<exists>r\<in>KR. e = (v, Some r)" "(v, Some r) \<in> set es" "Compare rty x r = 0"
    and "\<forall>v' r'. (v', Some r') \<in> set es \<longrightarrow> Compare rty x r' = 0 \<longrightarrow> v' = v"
  shows "GetKey_loop (same_row rty x) es = Inr v"
  using assms
proof (induction es)
  case (Cons e es)
  obtain v' r' where e: "e = (v', Some r')" using Cons.prems(1) by auto
  show ?case
  proof (cases "Compare rty x r' = 0")
    case True
    then have "v' = v" using Cons.prems(4) e by simp
    with True e show ?thesis by (simp add: same_row_def)
  next
    case False
    then have mem: "(v, Some r) \<in> set es" using Cons.prems(2,3) e by auto
    have "\<forall>e\<in>set es. \<exists>v. \<exists>r\<in>KR. e = (v, Some r)" "\<forall>v' r'. (v', Some r') \<in> set es \<longrightarrow> Compare rty x r' = 0 \<longrightarrow> v' = v"
      using Cons.prems(1,4) by (meson list.set_intros(2))+
    from Cons.IH [OF this(1) mem Cons.prems(3) this(2)] False e show ?thesis by (simp add: same_row_def)
  qed
qed simp

text \<open>A row of the column points to the leaf that holds its value.\<close>

lemma ub_row:
  assumes "ub_inv rty KR vty KV b" "(v, Some r) \<in> set (contents (ub_values b))"
  shows "\<exists>a. (r, Some a) \<in> set (contents (ub_rows b)) \<and> (a, v, Some r) \<in> set (located (ub_values b)) \<and> r \<in> KR \<and> v \<in> KV"
proof -
  note inv = assms(1) [unfolded ub_inv_def]
  have lk: "linked (set (contents (ub_rows b))) (set (located (ub_values b)))" using inv by simp
  obtain a where a: "(a, v, Some r) \<in> set (located (ub_values b))" using located_contents [of vty KV "ub_values b"] inv assms(2) by auto
  then have "(r, Some a) \<in> set (contents (ub_rows b))" using linkedD(1) [OF lk] by blast
  with a show ?thesis using row.contents_K [of "ub_rows b" "(r, Some a)"] val.contents_K [of "ub_values b" "(v, Some r)"] inv assms(2) by auto
qed

lemma ub_look_None_iff:
  "ub_inv rty KR vty KV b \<Longrightarrow> x \<in> KR \<Longrightarrow> ub_look rty KR b x = None \<longleftrightarrow> tree_lookup rty (contents (ub_rows b)) x = None"
  using linked_look_None [of "ub_rows b" "set (located (ub_values b))" "contents (ub_values b)" x] ub_located [of b] by (simp add: ub_inv_def)

lemma ub_GetValuePtr_look:
  assumes b: "ub_inv rty KR vty KV b" and x: "x \<in> KR"
  shows "ub_GetValuePtr b x = Inr (ub_look rty KR b x)"
proof (cases "ub_look rty KR b x")
  case None
  then obtain it where "iter_findNearest (ub_rows b) x = Inr (it, False)"
    using row.findNearest_missing [of "ub_rows b" x] ub_look_None_iff [OF b x] b x by (auto simp: ub_inv_def)
  with None show ?thesis by (simp add: ub_GetValuePtr_def)
next
  case (Some v)
  note inv = b [unfolded ub_inv_def]
  note u = ub_unique [OF b]
  obtain r where r: "(v, Some r) \<in> set (contents (ub_values b))" "Compare rty x r = 0" using Some unique_look_iff [OF u] by blast
  obtain a where a: "(r, Some a) \<in> set (contents (ub_rows b))" "(a, v, Some r) \<in> set (located (ub_values b))" "r \<in> KR"
    using ub_row [OF b r(1)] by blast
  obtain es where es: "heap (ub_values b) a = Some (Leaf es)" "(v, Some r) \<in> set es" "Pair a ` set es \<subseteq> set (located (ub_values b))"
    using located_leaf [of vty KV "ub_values b" a] a(2) inv by blast
  have sub: "e \<in> set (contents (ub_values b))" if "e \<in> set es" for e
    using es(3) that located_contents [of vty KV "ub_values b"] inv by force
  have "GetKey_loop (same_row rty x) es = Inr v"
  proof (rule GetKey_loop_row [OF _ es(2) r(2)])
    show "\<forall>e\<in>set es. \<exists>v. \<exists>r\<in>KR. e = (v, Some r)" using unique_rows_Some [OF u] sub by blast
    have "v' = v" if "(v', Some r') \<in> set es" "Compare rty x r' = 0" for v' r'
      using unique_look_iff [OF u, of x v'] sub [OF that(1)] that(2) x Some by auto
    then show "\<forall>v' r'. (v', Some r') \<in> set es \<longrightarrow> Compare rty x r' = 0 \<longrightarrow> v' = v" by blast
  qed
  moreover obtain it where "iter_findNearest (ub_rows b) x = Inr (it, True)" "iter_get (ub_rows b) it = Inr (r, Some a)"
    using row.findNearest_lookup [of "ub_rows b" x "(r, Some a)"] row.lookup_iff [of "ub_rows b" x "(r, Some a)"] inv x a(1) r(2) by auto
  ultimately show ?thesis using Some es(1) inv by (simp add: ub_GetValuePtr_def Node_GetKey_def deref_leaf_def)
qed

lemma ub_ValuesMoved_step: "repoints rty KR ub_ValuesMoved"
  unfolding repoints_def
proof (intro allI impI)
  fix T :: "('r, addr) BTree" and w a
  assume "btree_inv rty KR T" "w \<in> KR" "tree_lookup rty (contents T) w \<noteq> None"
  then show "ub_ValuesMoved (w, a) T = bindE (GetPath T w) (\<lambda>p. set_path_value T p a)"
    using row.GetPath_lookup [of T w] by (auto simp: ub_ValuesMoved_def)
qed

lemma ub_Include_ok:
  assumes b: "ub_inv rty KR vty KV b" and r: "r \<in> KR" and v: "v \<in> KV"
  shows "\<exists>b' c. ub_Include b r v = Inr (b', c) \<and> ub_inv rty KR vty KV b' \<and>
    ub_look rty KR b' = abs_include (same_key rty KR) (free_value vty) (r, v) (ub_look rty KR b) \<and>
    (c \<longleftrightarrow> ub_look rty KR b r = None \<and> free_value vty (ub_look rty KR b) v)"
proof -
  note inv = b [unfolded ub_inv_def]
  have lk: "linked (set (contents (ub_rows b))) (set (located (ub_values b)))" using inv by simp
  note u = ub_unique [OF b]
  obtain rp where rp: "GetPath (ub_rows b) r = Inr rp" "Match rp \<longleftrightarrow> ub_look rty KR b r \<noteq> None"
    using row.GetPath_lookup [of "ub_rows b" r] ub_look_None_iff [OF b r] inv r by auto
  obtain vp where vp: "GetPath (ub_values b) v = Inr vp" "Match vp \<longleftrightarrow> \<not> free_value vty (ub_look rty KR b) v"
    using val.GetPath_lookup [of "ub_values b" v] free_iff [OF u, of v] inv v by auto
  show ?thesis
  proof (cases "Match rp \<or> Match vp")
    case True
    then have "ub_Include b r v = Inr (b, False)" using rp(1) vp(1) by (auto simp: ub_Include_def)
    moreover have "\<not> (ub_look rty KR b r = None \<and> free_value vty (ub_look rty KR b) v)" using True rp(2) vp(2) by blast
    ultimately show ?thesis using b by (auto simp: abs_include_def)
  next
    case False
    then have new: "ub_look rty KR b r = None" "free_value vty (ub_look rty KR b) v" using rp(2) vp(2) by blast+
    let ?a = "PathLeaf vp"
    obtain R m where R: "Insert (ub_rows b) rp r ?a = Inr (R, m)" "btree_inv rty KR R" "\<not> keyOnly R"
      "set (contents R) = insert (r, Some ?a) (set (contents (ub_rows b)))"
      "length (contents R) = Suc (length (contents (ub_rows b)))"
      using row.Insert_map [of "ub_rows b" r rp ?a] inv r rp(1) False by (auto simp: slot_def)
    obtain V M where V: "Insert (ub_values b) vp v r = Inr (V, M)" "btree_inv vty KV V" "\<not> keyOnly V"
      "set (contents V) = insert (v, Some r) (set (contents (ub_values b)))"
      "\<forall>b' e w. (b', e, Some w) \<in> set (located V) \<longrightarrow> (w, b') \<in> set M \<or>
        (b', e, Some w) \<in> set (located (ub_values b)) \<or> (e, w) = (v, r) \<and> b' = ?a"
      "\<forall>w b'. (w, b') \<in> set M \<longrightarrow> (\<exists>e. (b', e, Some w) \<in> set (located V))"
      using val.Insert_located [of "ub_values b" v vp r] inv v vp(1) False by (auto simp: slot_def)
    have conV: "e \<in> set (contents V)" if "(c, e) \<in> set (located V)" for c e
      using located_contents [OF V(2)] that by force
    have uV: "unique_rows rty KR (set (contents V))" using unique_rows_insert [OF u r new(1)] V(4) by simp
    have keys: "\<forall>(w, c)\<in>set M. \<exists>a0. (w, Some a0) \<in> set (contents R)"
    proof (intro ballI, clarify)
      fix w c assume "(w, c) \<in> set M"
      then obtain e where "(c, e, Some w) \<in> set (located V)" using V(6) by blast
      then have "(e, Some w) = (v, Some r) \<or> (e, Some w) \<in> set (contents (ub_values b))" using conV V(4) by blast
      then show "\<exists>a0. (w, Some a0) \<in> set (contents R)" using R(4) ub_row [OF b, of e w] by auto
    qed
    have dup: "\<forall>w c c'. (w, c) \<in> set M \<longrightarrow> (w, c') \<in> set M \<longrightarrow> c = c'"
    proof (intro allI impI)
      fix w c c' assume "(w, c) \<in> set M" "(w, c') \<in> set M"
      then obtain e e' where e: "(c, e, Some w) \<in> set (located V)" "(c', e', Some w) \<in> set (located V)" using V(6) by blast
      have "w \<in> KR" using unique_rowsD(1) [OF uV conV [OF e(1)]] .
      then have "e = e'" using unique_rowsD(2) [OF uV conV [OF e(1)] conV [OF e(2)]] row.cmp_refl by blast
      then show "c = c'" using val.located_unique [OF V(2) e(1)] e(2) by blast
    qed
    have none: "\<forall>k. (k, None) \<notin> set (contents R)" using R(4) linkedD(3) [OF lk] by auto
    obtain R' where R': "foldE ub_ValuesMoved M R = Inr R'" "btree_inv rty KR R'" "keyOnly R' = keyOnly R" "length (contents R') = length (contents R)"
      "\<forall>k c. (k, Some c) \<in> set (contents R') \<longleftrightarrow> (k, c) \<in> set M \<or> (k, Some c) \<in> set (contents R) \<and> (\<forall>c'. (k, c') \<notin> set M)"
      "\<forall>k. (k, None) \<notin> set (contents R')"
      using row.fold_moved [OF ub_ValuesMoved_step R(2) none keys dup] by (elim exE conjE) (rule that)
    have lV: "snd ` set (located V) = insert (v, Some r) (snd ` set (located (ub_values b)))"
      using located_contents [OF V(2)] located_contents [of vty KV "ub_values b"] V(4) inv by simp
    have rnew: "\<forall>a. (r, Some a) \<notin> set (contents (ub_rows b))"
      using ub_look_None_iff [OF b r] new(1) row.cmp_refl [OF r] unfolding row.lookup_None_iff by fastforce
    have "linked (set (contents R')) (set (located V))"
      by (rule linked_insert [OF lk rnew _ lV _ V(5,6) R'(5) [unfolded R(4)] R'(6)]) (use ub_one [OF b] val.located_unique [OF V(2)] in blast)+
    then have "ub_inv rty KR vty KV (b\<lparr>ub_rows := R', ub_values := V, ub_count := ub_count b + 1\<rparr>)"
      using inv R R' V by (simp add: ub_inv_def)
    moreover have "ub_Include b r v = Inr (b\<lparr>ub_rows := R', ub_values := V, ub_count := ub_count b + 1\<rparr>, True)"
      using False rp(1) vp(1) R(1) V(1) R'(1) by (simp add: ub_Include_def)
    moreover have "unique_look rty KR (contents V) = abs_include (same_key rty KR) (free_value vty) (r, v) (ub_look rty KR b)"
      by (rule unique_look_insert [OF u r V(4) new])
    ultimately show ?thesis using new by auto
  qed
qed

lemma ub_Exclude_ok:
  assumes b: "ub_inv rty KR vty KV b" and r: "r \<in> KR" and safe: "ub_safe b r"
  shows "\<exists>b' c. ub_Exclude b r = Inr (b', c) \<and> ub_inv rty KR vty KV b' \<and>
    ub_look rty KR b' = abs_exclude (same_key rty KR) r (ub_look rty KR b) \<and> (c \<longleftrightarrow> ub_look rty KR b r \<noteq> None)"
proof -
  note inv = b [unfolded ub_inv_def]
  have lk: "linked (set (contents (ub_rows b))) (set (located (ub_values b)))" using inv by simp
  note u = ub_unique [OF b] and get = ub_GetValuePtr_look [OF b r]
  obtain rp where rp: "GetPath (ub_rows b) r = Inr rp" "Match rp \<longleftrightarrow> ub_look rty KR b r \<noteq> None"
    using row.GetPath_lookup [of "ub_rows b" r] ub_look_None_iff [OF b r] inv r by auto
  show ?thesis
  proof (cases "ub_look rty KR b r")
    case None
    have "abs_exclude (same_key rty KR) r (ub_look rty KR b) = ub_look rty KR b"
      by (rule unique_look_absent [OF u r None])
    moreover have "ub_Exclude b r = Inr (b, False)" using rp get None by (simp add: ub_Exclude_def ub_ExcludeValue_def)
    ultimately show ?thesis using b None by auto
  next
    case (Some v)
    then obtain r0 where vr: "(v, Some r0) \<in> set (contents (ub_values b))" and c: "Compare rty r r0 = 0"
      using unique_look_iff [OF u] by blast
    obtain a where a: "(r0, Some a) \<in> set (contents (ub_rows b))" "(a, v, Some r0) \<in> set (located (ub_values b))" "r0 \<in> KR" "v \<in> KV"
      using ub_row [OF b vr] by blast
    have lr: "tree_lookup rty (contents (ub_rows b)) r = Some (r0, Some a)" using row.lookup_iff [of "ub_rows b" r] inv r a c by simp
    have lv: "tree_lookup vty (contents (ub_values b)) v = Some (v, Some r0)"
      using val.lookup_iff [of "ub_values b" v] inv a(4) vr val.cmp_refl by simp
    obtain vp where vp: "GetPath (ub_values b) v = Inr vp" "Match vp" "path_value (ub_values b) vp = Inr r0"
      using val.GetPath_lookup [of "ub_values b" v] inv a(4) lv by auto
    obtain R where R: "Delete (ub_rows b) rp = Inr R" "btree_inv rty KR R" "\<not> keyOnly R"
      "set (contents R) = set (contents (ub_rows b)) - {(r0, Some a)}" "length (contents (ub_rows b)) = Suc (length (contents R))"
      using row.Delete_map [of "ub_rows b" r rp] inv r rp lr Some safe by (auto simp: ub_safe_def tree_safe_def)
    obtain V where V: "Delete (ub_values b) vp = Inr V" "btree_inv vty KV V" "\<not> keyOnly V"
      "set (contents V) = set (contents (ub_values b)) - {(v, Some r0)}"
      "set (located V) = {x \<in> set (located (ub_values b)). snd x \<noteq> (v, Some r0)}"
      using val.Delete_located [of "ub_values b" v vp] inv a(4) vp lv safe get Some by (auto simp: ub_safe_def tree_stays_def)
    have "linked (set (contents R)) (set (located V))"
      by (rule linked_delete [OF lk a(2) V(5) R(4)]) (use ub_one [OF b] in blast)
    then have "ub_inv rty KR vty KV (b\<lparr>ub_rows := R, ub_values := V, ub_count := ub_count b - 1\<rparr>)"
      using inv R V by (simp add: ub_inv_def)
    moreover have "ub_Exclude b r = Inr (b\<lparr>ub_rows := R, ub_values := V, ub_count := ub_count b - 1\<rparr>, True)"
      using get Some rp vp R(1) V(1) c inv by (simp add: ub_Exclude_def ub_ExcludeValue_def)
    moreover have "unique_look rty KR (contents V) = abs_exclude (same_key rty KR) r (ub_look rty KR b)"
      by (rule unique_look_delete [OF u r vr c V(4)])
    ultimately show ?thesis using Some by auto
  qed
qed

end

sublocale column_types \<subseteq> unique_ptr: column_buffer "ub_inv rty KR vty KV" "ub_look rty KR" "same_key rty KR"
  "free_value vty" KR "\<lambda>r v. v \<in> KV" ub_safe ub_Exclude ub_Include "\<lambda>v. v"
  by unfold_locales (fact ub_Include_ok, fact ub_Exclude_ok)

context column_types
begin

lemmas ub_apply_refines = unique_ptr.apply_refines

end

section \<open>Properties\<close>

text \<open>
  C18. Writes to a column of unique values held by pointers: if the excludes are safe one after
  the other (the deletion from the tree of rows is \<open>delete_safe\<close>, and the deletion
  from the tree of values rebalances no leaf, since the pointers are not told of a rebalancing),
  then \<open>Apply\<close> succeeds, keeps every row pointing to the leaf of its value and acts
  as excludes and includes on a partial map, where an include is ignored when the row has a value
  or another row has an equal one. The cells parse, and their rows and values lie in the range on
  which the types are ordered.
\<close>

theorem ub_Apply_refines:
  assumes "column_types rty KR vty KV" "ub_inv rty KR vty KV b"
    and "list_all2 (\<lambda>x r. GetPointer rty (cell_rowID x) = Inr r) (cw_excludes w) rs" "set rs \<subseteq> KR"
    and "all_safe ub_safe ub_Exclude b rs"
    and "list_all2 (\<lambda>x p. GetPointer rty (cell_rowID x) = Inr (fst p) \<and> GetPointer vty (cell_value x) = Inr (snd p)) (cw_includes w) ps"
    and "\<forall>(r, v)\<in>set ps. r \<in> KR \<and> v \<in> KV"
  shows "\<exists>b'. ub_Apply b w = Inr b' \<and> ub_inv rty KR vty KV b' \<and> ub_look rty KR b' =
    fold (abs_include (same_key rty KR) (free_value vty)) ps (fold (abs_exclude (same_key rty KR)) rs (ub_look rty KR b))"
proof -
  have "ub_rowType b = rty" "ub_valueType b = vty" using assms(2) by (simp_all add: ub_inv_def)
  then show ?thesis unfolding ub_Apply_def using column_types.ub_apply_refines [OF assms] by simp
qed

definition sample_pointers :: "(64 word, 64 word) UniqueBuffer" where
  "sample_pointers = \<lparr>ub_rowType = LongType, ub_valueType = LongType,
     ub_rows = leaf_tree LongType False [(3, Some 0), (4, Some 0)],
     ub_values = leaf_tree LongType False [(5, Some 4), (8, Some 3)], ub_count = 2\<rparr>"

lemma sample_pointers_inv: "ub_inv LongType half_range LongType half_range sample_pointers"
  unfolding ub_inv_def sample_pointers_def
  by (auto simp: leaf_tree_inv LongType_def LongCompare_def half_range_def linked_def leaf_tree_located)

theorem ub_Apply_refines_witness:
  "\<exists>b'. ub_Apply sample_pointers \<lparr>cw_includes = [\<lparr>cell_rowID = long 5, cell_value = long 8\<rparr>, \<lparr>cell_rowID = long 3, cell_value = long 5\<rparr>],
       cw_excludes = [\<lparr>cell_rowID = long 4, cell_value = []\<rparr>]\<rparr> = Inr b' \<and>
     ub_inv LongType half_range LongType half_range b' \<and> ub_look LongType half_range b' 3 = Some 8 \<and>
     ub_look LongType half_range b' 4 = None \<and> ub_look LongType half_range b' 5 = None"
proof -
  let ?w = "\<lparr>cw_includes = [\<lparr>cell_rowID = long 5, cell_value = long 8\<rparr>, \<lparr>cell_rowID = long 3, cell_value = long 5\<rparr>],
    cw_excludes = [\<lparr>cell_rowID = long 4, cell_value = []\<rparr>]\<rparr>"
  have safe: "all_safe ub_safe ub_Exclude sample_pointers [4]" by code_simp
  have look: "ub_look LongType half_range sample_pointers 3 = Some 8" "ub_look LongType half_range sample_pointers 5 = None"
    "same_key LongType half_range 4 4" "\<not> same_key LongType half_range 3 4" "\<not> same_key LongType half_range 5 4" "Compare LongType 8 8 = 0"
    by (simp_all add: unique_look_def row_lookup_def sample_pointers_def same_key_def LongType_def LongCompare_def half_range_def)
  let ?m = "abs_exclude (same_key LongType half_range) 4 (ub_look LongType half_range sample_pointers)"
  have m: "?m 3 = Some 8" "?m 4 = None" "?m 5 = None" using look by (simp_all add: abs_exclude_def)
  have "\<not> free_value LongType ?m 8" unfolding free_value_def using m(1) look(6) by blast
  with m have "fold (abs_include (same_key LongType half_range) (free_value LongType)) [(5, 8), (3, 5)] ?m = ?m"
    by (simp add: abs_include_def)
  then show ?thesis
    using ub_Apply_refines [OF long_long.column_types_axioms sample_pointers_inv, of ?w "[4]" "[(5, 8), (3, 5)]"] safe sample_keys m
    by (auto simp: half_range_def)
qed

text \<open>
  C19. Following a pointer: \<open>GetValue\<close> of a row finds the leaf its pointer leads to and reads the
  value of the row there; a row that is not in the column has no value.
\<close>

theorem ub_GetValue_correct:
  assumes "column_types rty KR vty KV" "ub_inv rty KR vty KV b" "GetPointer rty rowId = Inr r" "r \<in> KR"
  shows "\<exists>s. ub_GetValue b rowId = Inr s \<and>
    (case ub_look rty KR b r of None \<Rightarrow> s = None | Some v \<Rightarrow> CopyOut vty v = Inr (the s) \<and> s \<noteq> None)"
proof -
  have ty: "ub_rowType b = rty" "ub_valueType b = vty" using assms(2) by (simp_all add: ub_inv_def)
  have get: "ub_GetValuePtr b r = Inr (ub_look rty KR b r)" by (rule column_types.ub_GetValuePtr_look [OF assms(1,2,4)])
  show ?thesis
  proof (cases "ub_look rty KR b r")
    case None
    with get assms(3) ty show ?thesis by (simp add: ub_GetValue_def)
  next
    case (Some v)
    then obtain r' where r': "(v, Some r') \<in> set (contents (ub_values b))"
      using column_types.unique_look_iff [OF assms(1) column_types.ub_unique [OF assms(1,2)], of r v] by auto
    have v: "v \<in> KV" using column_types.ub_row [OF assms(1,2) r'] by blast
    have "wire_type vty KV" using assms(1) by (simp add: column_types_def)
    from wire_type.CopyOut_total [OF this v] obtain s where "CopyOut vty v = Inr s" by blast
    with Some get assms(3) ty show ?thesis by (simp add: ub_GetValue_def)
  qed
qed

theorem ub_GetValue_correct_witness: "\<exists>s. ub_GetValue sample_pointers (long 4) = Inr s \<and> s \<noteq> None"
proof -
  have "ub_look LongType half_range sample_pointers 4 = Some 5" "(4 :: 64 word) \<in> half_range"
    by (simp_all add: unique_look_def row_lookup_def sample_pointers_def LongType_def LongCompare_def half_range_def)
  then show ?thesis
    using ub_GetValue_correct [OF long_long.column_types_axioms sample_pointers_inv long_pointer, of 4] by auto
qed

text \<open>
  C20. Range queries on a column of unique values held by pointers: on a shallow tree of values
  (at most one level of branches), for a start row, if one is given, that is in the column, and
  for a begin (the value of the start row, if one is given) and an end that meet,
  \<open>GetRows\<close> returns the rows whose values lie between the bounds, without the start
  row and up to the limit, and sets limited exactly when the limit was reached and eof exactly
  when it was not and every entry lies within the end bound. Bounds and start row parse and lie in
  the ranges on which the types are ordered.
\<close>

theorem ub_GetRows_correct:
  assumes "column_types rty KR vty KV" "ub_inv rty KR vty KV b" "shallow (ub_values b)"
    and "bound_pointer vty (first rng) = Inr f" "bound_in KV f"
    and "bound_pointer vty (last_bound rng) = Inr l" "bound_in KV l"
    and "row_pointer rty (start_rowID rng) = Inr sid" "set_option sid \<subseteq> KR"
    and sk: "sk = Option.bind sid (ub_look rty KR b)" "sk = None \<longleftrightarrow> sid = None"
    and "bounds_meet vty (ascending rng) (begin_bound sk f) l"
    and sel: "sel = filter (\<lambda>e. \<not> start_row rty sid (the (snd e)))
      (selected vty (ascending rng) (begin_bound sk f) l (contents (ub_values b)))"
  shows "\<exists>res. ub_GetRows b rng = Inr res \<and>
    valueRowsList res = map (\<lambda>e. row_of vty rty (fst e, the (snd e))) (take_limit (row_limit (limit rng)) sel) \<and>
    (limited res \<longleftrightarrow> row_limit (limit rng) \<noteq> 0 \<and> row_limit (limit rng) \<le> length sel) \<and>
    (res_eof res \<longleftrightarrow> \<not> limited res \<and> (\<forall>e\<in>set (contents (ub_values b)). in_bound vty (\<not> ascending rng) l (fst e)))"
proof -
  have ty: "ub_rowType b = rty" "ub_valueType b = vty" and tv: "btree_inv vty KV (ub_values b)"
    using assms(2) by (simp_all add: ub_inv_def)
  have get: "\<forall>s\<in>set_option sid. ub_GetValuePtr b s = Inr (ub_look rty KR b s)"
    using column_types.ub_GetValuePtr_look [OF assms(1,2)] assms(9) by auto
  show ?thesis unfolding ub_GetRows_def ty assms(4,6,8) bindE_simps
    by (rule column_types.unique_scan [OF assms(1) tv assms(3) column_types.ub_unique [OF assms(1,2)] assms(5,7,9) sk get assms(12) sel])
qed

theorem ub_GetRows_correct_witness:
  "\<exists>res. ub_GetRows sample_pointers \<lparr>ascending = True, limit = 5, first = None,
      last_bound = Some \<lparr>boundValue = long 8, inclusive = True\<rparr>, start_rowID = Some (long 4)\<rparr> = Inr res \<and>
     valueRowsList res = [\<lparr>vrValue = long 8, vrRowIDs = [long 3]\<rparr>] \<and> \<not> limited res \<and> res_eof res"
proof -
  let ?r = "\<lparr>ascending = True, limit = 5, first = None,
    last_bound = Some \<lparr>boundValue = long 8, inclusive = True\<rparr>, start_rowID = Some (long 4)\<rparr>"
  have p: "shallow (ub_values sample_pointers)" "bound_pointer LongType (first ?r) = Inr None"
    "bound_pointer LongType (last_bound ?r) = Inr (Some (8, True))" "row_pointer LongType (start_rowID ?r) = Inr (Some 4)"
    by (simp_all add: sample_pointers_def bound_pointer_def row_pointer_def)
  have k: "bound_in half_range (None :: (64 word \<times> bool) option)" "bound_in half_range (Some (8 :: 64 word, True))"
    "set_option (Some (4 :: 64 word)) \<subseteq> half_range"
    by (simp_all add: half_range_def)
  have sk: "Some 5 = Option.bind (Some 4) (ub_look LongType half_range sample_pointers)" "Some (5 :: 64 word) = None \<longleftrightarrow> Some (4 :: 64 word) = None"
    by (simp_all add: unique_look_def row_lookup_def sample_pointers_def LongType_def LongCompare_def half_range_def)
  have m: "bounds_meet LongType (ascending ?r) (begin_bound (Some 5) None) (Some (8, True))" by code_simp
  have sel: "[(8, Some 3)] = filter (\<lambda>e. \<not> start_row LongType (Some 4) (the (snd e)))
      (selected LongType (ascending ?r) (begin_bound (Some 5) None) (Some (8, True)) (contents (ub_values sample_pointers)))"
    by code_simp
  have "row_limit 5 = 5" "row_of LongType LongType (8, 3) = \<lparr>vrValue = long 8, vrRowIDs = [long 3]\<rparr>"
    "\<forall>e\<in>set (contents (ub_values sample_pointers)). in_bound LongType False (Some (8, True)) (fst e)" by code_simp+
  with ub_GetRows_correct [OF long_long.column_types_axioms sample_pointers_inv p(1,2) k(1) p(3) k(2) p(4) k(3) sk m sel]
  show ?thesis by (auto simp: take_limit_def)
qed

end
