(* ===== verification/RowTrees.thy ===== *)
theory RowTrees
  imports LeafPointers
begin

text \<open>
  What the buffers for values with many rows share (\<open>TreeBuffer.cpp\<close>,
  \<open>TreeInlineBuffer.cpp\<close>): the tree of values whose entries point to trees of rows, the parts
  of \<open>Include\<close> and \<open>Exclude\<close> that work on them, and \<open>GetRows\<close>, which is the same code in both.
\<close>

section \<open>Trees of rows behind the values\<close>

text \<open>
  \<open>_values\<close> with the trees of rows its entries own. A tree of rows is created by \<open>new\<close> and
  freed when its entry is deleted (\<open>DeallocateBTree\<close>); \<open>rt_next\<close> is the next fresh address.
\<close>

record ('r, 'v) RowTrees =
  rt_values :: "('v, addr) BTree"
  rt_trees :: "addr \<Rightarrow> ('r, 'r) BTree option"
  rt_next :: addr

definition new_RowTrees :: "'v ScalarType \<Rightarrow> ('r, 'v) RowTrees" where
  "new_RowTrees vty = \<lparr>rt_values = new_BTree vty False, rt_trees = Map.empty, rt_next = 0\<rparr>"

definition row_tree :: "('r, 'v) RowTrees \<Rightarrow> addr \<Rightarrow> err + ('r, 'r) BTree" where
  "row_tree F p = (case rt_trees F p of None \<Rightarrow> Inl BadPointer | Some T \<Rightarrow> Inr T)"

text \<open>Adding a row to the tree of a value that is there.\<close>

definition add_to_value :: "('r, 'v) RowTrees \<Rightarrow> Path \<Rightarrow> 'r \<Rightarrow> err + ('r, 'v) RowTrees" where
  "add_to_value F path rowId =
     bindE (path_value (rt_values F) path) (\<lambda>p.
     bindE (row_tree F p) (\<lambda>existing.
     bindE (GetPath existing rowId) (\<lambda>keypath.
     bindE (Insert existing keypath rowId rowId) (\<lambda>(T, _).
       Inr (F\<lparr>rt_trees := (rt_trees F)(p \<mapsto> T)\<rparr>)))))"

text \<open>\<open>new BTree(_rowType)\<close> with one row, and its insertion under a new value.\<close>

definition new_row_tree :: "'r ScalarType \<Rightarrow> ('r, 'v) RowTrees \<Rightarrow> 'r \<Rightarrow> err + addr \<times> ('r, 'v) RowTrees" where
  "new_row_tree rty F rowId =
     (let newRows = new_BTree rty True
      in bindE (GetPath newRows rowId) (\<lambda>keypath.
         bindE (Insert newRows keypath rowId rowId) (\<lambda>(T, _).
           Inr (rt_next F, F\<lparr>rt_trees := (rt_trees F)(rt_next F \<mapsto> T), rt_next := rt_next F + 1\<rparr>))))"

definition insert_value :: "('r, 'v) RowTrees \<Rightarrow> Path \<Rightarrow> 'v \<Rightarrow> addr \<Rightarrow> err + ('r, 'v) RowTrees \<times> (addr \<times> addr) list" where
  "insert_value F path value p =
     bindE (Insert (rt_values F) path value p) (\<lambda>(V, moved). Inr (F\<lparr>rt_values := V\<rparr>, moved))"

text \<open>
  Removing a row from the tree of its value; the value goes with its last row. The result
  tells whether it did.
\<close>

definition remove_from_value :: "('r, 'v) RowTrees \<Rightarrow> Path \<Rightarrow> 'r \<Rightarrow> err + ('r, 'v) RowTrees \<times> bool" where
  "remove_from_value F path rowId =
     bindE (path_value (rt_values F) path) (\<lambda>p.
     bindE (row_tree F p) (\<lambda>existing.
     bindE (GetPath existing rowId) (\<lambda>keypath.
     bindE (Delete existing keypath) (\<lambda>T.
       if treeCount T = 0
       then bindE (Delete (rt_values F) path) (\<lambda>V. Inr (F\<lparr>rt_values := V, rt_trees := (rt_trees F)(p := None)\<rparr>, True))
       else Inr (F\<lparr>rt_trees := (rt_trees F)(p \<mapsto> T)\<rparr>, False)))))"

section \<open>Range queries\<close>

text \<open>
  The inner loop over the rows of a value. \<open>num == range.limit\<close> compares two signed numbers,
  so a limit of zero or below is never reached.
\<close>

definition visit_id :: "'r ScalarType \<Rightarrow> 32 word \<Rightarrow> 'r \<times> 'r option \<Rightarrow> string list \<times> scan \<Rightarrow> err + string list \<times> scan" where
  "visit_id rty lim e = (\<lambda>(rowIds, st).
     bindE (CopyOut rty (fst e)) (\<lambda>rowId.
       (let n = num st + 1
        in Inr (rowIds @ [rowId], st\<lparr>num := n, result := (result st)\<lparr>limited := (int n = sint lim)\<rparr>\<rparr>))))"

text \<open>
  Where the inner loop begins: behind the start row as long as it has not been found, at the
  marker afterwards.
\<close>

definition id_start :: "('r, 'r) BTree \<Rightarrow> bool \<Rightarrow> 'r option \<Rightarrow> scan \<Rightarrow> err + iter \<times> scan" where
  "id_start rowIdTree asc startId st =
     (if startFound st
      then bindE (if asc then iter_begin rowIdTree else iter_end rowIdTree) (\<lambda>it. Inr (it, st))
      else
        (case startId of
           None \<Rightarrow> Inl NullPointer
         | Some s \<Rightarrow>
             bindE (iter_find rowIdTree s) (\<lambda>it.
             bindE (iter_end rowIdTree) (\<lambda>tend.
               if \<not> iter_eq it tend
               then bindE (if asc then MoveNext rowIdTree it else Inr it) (\<lambda>it'.
                      Inr (it', st\<lparr>startFound := True, result := (result st)\<lparr>res_bof := False\<rparr>\<rparr>))
               else Inl (Throw ''Start id not found in given value'')))))"

definition visit_value ::
  "'v ScalarType \<Rightarrow> 'r ScalarType \<Rightarrow> ('r, 'v) RowTrees \<Rightarrow> bool \<Rightarrow> 'r option \<Rightarrow> 32 word \<Rightarrow> 'v \<times> addr option \<Rightarrow> scan \<Rightarrow> err + scan"
where
  "visit_value vty rty F asc startId lim e st =
     bindE (case snd e of None \<Rightarrow> Inl NullPointer | Some p \<Rightarrow> row_tree F p) (\<lambda>rowIdTree.
     bindE (id_start rowIdTree asc startId st) (\<lambda>(idStart, st1).
     bindE (if asc then iter_end rowIdTree else iter_begin rowIdTree) (\<lambda>idEnd.
     bindE (range_loop (MoveNext rowIdTree) (MovePrior rowIdTree) (iter_get rowIdTree) iter_eq asc (visit_id rty lim)
              (\<lambda>s. limited (result (snd s))) (nat (treeCount rowIdTree) + 2) idStart idEnd ([], st1)) (\<lambda>(rowIds, st2).
       if rowIds = [] then Inr st2
       else bindE (CopyOut vty (fst e)) (\<lambda>value.
              Inr (st2\<lparr>vrl := vrl st2 @ [\<lparr>vrValue = value, vrRowIDs = rowIds\<rparr>]\<rparr>))))))"

definition rt_GetRows ::
  "'v ScalarType \<Rightarrow> 'r ScalarType \<Rightarrow> ('r, 'v) RowTrees \<Rightarrow> ('r \<Rightarrow> err + 'v option) \<Rightarrow> RangeRequest \<Rightarrow> err + RangeResult"
where
  "rt_GetRows vty rty F GetValue rng =
     bindE (bound_pointer vty (first rng)) (\<lambda>firstp.
     bindE (bound_pointer vty (last_bound rng)) (\<lambda>lastp.
     bindE (row_pointer rty (start_rowID rng)) (\<lambda>startId.
       scan_range (rt_values F) (ascending rng) (map_option GetValue startId) firstp lastp
         (disjoint_constraints vty (ascending rng) firstp lastp new_RangeResult)
         (visit_value vty rty F (ascending rng) startId (limit rng)))))"

section \<open>The invariant\<close>

text \<open>The rows of a tree, and the pairs of values and rows.\<close>

definition tree_rows :: "(addr \<Rightarrow> ('r, 'r) BTree option) \<Rightarrow> addr \<Rightarrow> 'r list" where
  "tree_rows trees p = (case trees p of None \<Rightarrow> [] | Some T \<Rightarrow> map fst (contents T))"

definition rt_flat :: "('r, 'v) RowTrees \<Rightarrow> ('v \<times> 'r option) list" where
  "rt_flat F = concat (map (\<lambda>(v, w). case w of None \<Rightarrow> [] | Some p \<Rightarrow> map (\<lambda>r. (v, Some r)) (tree_rows (rt_trees F) p))
     (contents (rt_values F)))"

text \<open>Every value points to a tree of its own with at least one row.\<close>

definition owned :: "'r ScalarType \<Rightarrow> 'r set \<Rightarrow> (addr \<Rightarrow> ('r, 'r) BTree option) \<Rightarrow> addr \<Rightarrow> bool" where
  "owned rty KR trees p \<longleftrightarrow> (\<exists>T. trees p = Some T \<and> btree_inv rty KR T \<and> keyOnly T \<and> contents T \<noteq> [])"

definition rt_inv :: "'r ScalarType \<Rightarrow> 'r set \<Rightarrow> 'v ScalarType \<Rightarrow> 'v set \<Rightarrow> ('r, 'v) RowTrees \<Rightarrow> bool" where
  "rt_inv rty KR vty KV F \<longleftrightarrow> btree_inv vty KV (rt_values F) \<and> \<not> keyOnly (rt_values F) \<and>
     (\<forall>(v, w)\<in>set (contents (rt_values F)). \<exists>p. w = Some p \<and> owned rty KR (rt_trees F) p) \<and>
     (\<forall>v v' p. (v, Some p) \<in> set (contents (rt_values F)) \<longrightarrow> (v', Some p) \<in> set (contents (rt_values F)) \<longrightarrow> v = v') \<and>
     (\<forall>p. rt_trees F p \<noteq> None \<longrightarrow> p < rt_next F)"

lemma rt_invD:
  assumes "rt_inv rty KR vty KV F"
  shows "btree_inv vty KV (rt_values F)" "\<not> keyOnly (rt_values F)"
    "(v, Some p) \<in> set (contents (rt_values F)) \<Longrightarrow> owned rty KR (rt_trees F) p"
    "(v, w) \<in> set (contents (rt_values F)) \<Longrightarrow> \<exists>p. w = Some p"
    "(v, Some p) \<in> set (contents (rt_values F)) \<Longrightarrow> (v', Some p) \<in> set (contents (rt_values F)) \<Longrightarrow> v = v'"
    "rt_trees F p \<noteq> None \<Longrightarrow> p < rt_next F"
  using assms unfolding rt_inv_def by fastforce+

lemma rt_invI:
  assumes "btree_inv vty KV (rt_values F)" "\<not> keyOnly (rt_values F)"
    and "\<And>v w. (v, w) \<in> set (contents (rt_values F)) \<Longrightarrow> \<exists>p. w = Some p \<and> owned rty KR (rt_trees F) p"
    and "\<And>v v' p. (v, Some p) \<in> set (contents (rt_values F)) \<Longrightarrow> (v', Some p) \<in> set (contents (rt_values F)) \<Longrightarrow> v = v'"
    and "\<And>p. rt_trees F p \<noteq> None \<Longrightarrow> p < rt_next F"
  shows "rt_inv rty KR vty KV F"
  unfolding rt_inv_def
proof (intro conjI ballI allI impI)
  show "case x of (v, w) \<Rightarrow> \<exists>p. w = Some p \<and> owned rty KR (rt_trees F) p" if "x \<in> set (contents (rt_values F))" for x
  proof (cases x)
    case (Pair v w)
    with that assms(3) [of v w] show ?thesis by simp
  qed
qed (fact assms(1,2,4,5))+

lemma new_RowTrees_inv: "rt_inv rty KR vty KV (new_RowTrees vty)"
  by (simp add: rt_inv_def new_RowTrees_def new_BTree_btree_inv) (simp add: new_BTree_def)

lemma rt_flat_iff:
  "(v, w) \<in> set (rt_flat F) \<longleftrightarrow>
   (\<exists>p r. w = Some r \<and> (v, Some p) \<in> set (contents (rt_values F)) \<and> r \<in> set (tree_rows (rt_trees F) p))"
proof -
  have "(v, w) \<in> set (rt_flat F) \<longleftrightarrow> (\<exists>(v', w')\<in>set (contents (rt_values F)).
      (v, w) \<in> set (case w' of None \<Rightarrow> [] | Some p \<Rightarrow> map (\<lambda>r. (v', Some r)) (tree_rows (rt_trees F) p)))"
    by (auto simp: rt_flat_def)
  then show ?thesis by (fastforce split: option.splits)
qed

lemma tree_rows_owned:
  "owned rty KR trees p \<Longrightarrow> \<exists>T. trees p = Some T \<and> btree_inv rty KR T \<and> keyOnly T \<and> tree_rows trees p = map fst (contents T) \<and> contents T \<noteq> []"
  by (auto simp: owned_def tree_rows_def)

text \<open>What the trees of rows hold after a change of one of them.\<close>

definition rows_become :: "(addr \<Rightarrow> ('r, 'r) BTree option) \<Rightarrow> (addr \<Rightarrow> ('r, 'r) BTree option) \<Rightarrow> addr \<Rightarrow> 'r set \<Rightarrow> bool" where
  "rows_become trees trees' p R \<longleftrightarrow>
     (\<forall>q. set (tree_rows trees' q) = (if q = p then R else set (tree_rows trees q)))"

lemma rows_become_flat:
  assumes "rows_become (rt_trees F) (rt_trees F') p R"
  shows "(v, Some r) \<in> set (rt_flat F') \<longleftrightarrow> (\<exists>q. (v, Some q) \<in> set (contents (rt_values F')) \<and>
    (q = p \<and> r \<in> R \<or> q \<noteq> p \<and> r \<in> set (tree_rows (rt_trees F) q)))"
proof -
  have "r \<in> set (tree_rows (rt_trees F') q) \<longleftrightarrow> q = p \<and> r \<in> R \<or> q \<noteq> p \<and> r \<in> set (tree_rows (rt_trees F) q)" for q
    using assms by (simp add: rows_become_def)
  then show ?thesis unfolding rt_flat_iff by simp
qed

lemma rt_flat_eqI:
  assumes "\<And>w y. (w, Some y) \<in> set (rt_flat F) \<longleftrightarrow> (w, Some y) \<in> S" "\<And>w. (w, None) \<notin> S"
  shows "set (rt_flat F) = S"
proof (rule set_eqI, clarify)
  show "(w, x) \<in> set (rt_flat F) \<longleftrightarrow> (w, x) \<in> S" for w x
    using assms by (cases x) (simp_all add: rt_flat_iff)
qed

lemma rt_flat_None [simp]: "(w, None) \<notin> set (rt_flat F)"
  by (simp add: rt_flat_iff)

lemma tree_rows_upd: "rows_become trees (trees(p \<mapsto> T)) p (fst ` set (contents T))"
  by (simp add: rows_become_def tree_rows_def)

lemma tree_rows_del: "rows_become trees (trees(p := None)) p {}"
  by (simp add: rows_become_def tree_rows_def)

lemma owned_upd: "q \<noteq> p \<Longrightarrow> owned rty KR (trees(p := x)) q \<longleftrightarrow> owned rty KR trees q"
  by (simp add: owned_def)

context scalar_order
begin

lemma GetPath_located:
  assumes "btree_inv ty K T" "k \<in> K" "GetPath T k = Inr path" "tree_lookup ty (contents T) k = Some e"
  shows "(PathLeaf path, e) \<in> set (located T)"
proof -
  obtain D t where inv: "tree_inv ty K T D t" using assms(1) by (auto simp: btree_inv_def)
  obtain fs a l r m where pos: "position ty K k t fs a l r m" and
    path: "path = \<lparr>Branches = rev (path_of fs), PathLeaf = a, LeafIndex = length l, Match = m\<rparr>"
    using GetPath_position [OF inv assms(2)] assms(3) by auto
  have "m" using position_match [OF pos assms(2)] contents_inorder [OF inv] lookup_iff [OF assms(1,2), of e] assms(4) by auto
  then obtain e' r' where r: "r = e' # r'" "Compare ty k (fst e') = 0" using pos by (auto simp: position_def)
  have t: "t = plug fs (GLeaf a (l @ e' # r'))" "frames_ok fs" using pos r by (auto simp: position_def)
  have old: "located T = locs (lefts fs) @ map (Pair a) (l @ e' # r') @ locs (rights fs)"
    using located_inorder [OF inv] t by (simp add: inorder_plug)
  then have "e' \<in> set (contents T)" using located_contents [OF assms(1)] by simp
  then have "e' = e" using assms(4) r(2) lookup_iff [OF assms(1,2), of e'] by simp
  with old path show ?thesis by simp
qed

lemma insert_new:
  assumes "btree_inv ty K T" "keyOnly T" "k \<in> K" "\<forall>e\<in>set (contents T). Compare ty k (fst e) \<noteq> 0"
  shows "\<exists>path T' m. GetPath T k = Inr path \<and> Insert T path k k = Inr (T', m) \<and> btree_inv ty K T' \<and> keyOnly T' \<and>
    contents T' \<noteq> [] \<and> fst ` set (contents T') = insert k (fst ` set (contents T))"
proof -
  have "tree_lookup ty (contents T) k = None" using assms(4) by (simp add: lookup_None_iff)
  then obtain path where path: "GetPath T k = Inr path" "\<not> Match path" using GetPath_lookup [OF assms(1,3)] by auto
  obtain T' m where T': "Insert T path k k = Inr (T', m)" "btree_inv ty K T'" "keyOnly T' = keyOnly T"
    "set (contents T') = insert (slot T k k) (set (contents T))" using Insert_map [OF assms(1,3) path, of k] by blast
  then show ?thesis using path(1) assms(2) by (auto simp: slot_def)
qed

lemma delete_one:
  assumes "btree_inv ty K T" "keyOnly T" "k \<in> K" "tree_safe T k" "r0 \<in> fst ` set (contents T)" "Compare ty k r0 = 0"
  shows "\<exists>path T'. GetPath T k = Inr path \<and> Delete T path = Inr T' \<and> btree_inv ty K T' \<and> keyOnly T' \<and>
    fst ` set (contents T') = fst ` set (contents T) - {r0} \<and> (treeCount T' = 0 \<longleftrightarrow> contents T' = []) \<and>
    length (contents T) = Suc (length (contents T'))"
proof -
  obtain e0 where e0: "e0 \<in> set (contents T)" "fst e0 = r0" using assms(5) by blast
  then have lk: "tree_lookup ty (contents T) k = Some e0" using lookup_iff [OF assms(1,3)] assms(6) by blast
  then obtain path where path: "GetPath T k = Inr path" "Match path" using GetPath_lookup [OF assms(1,3)] by auto
  have "delete_safe T path" using assms(4) path by (simp add: tree_safe_def)
  from Delete_map [OF assms(1,3) path this] obtain T' e where "Delete T path = Inr T'" "btree_inv ty K T'" "keyOnly T' = keyOnly T"
    "tree_lookup ty (contents T) k = Some e" "set (contents T') = set (contents T) - {e}"
    "length (contents T) = Suc (length (contents T'))" by blast
  then have T': "Delete T path = Inr T'" "btree_inv ty K T'" "keyOnly T'" "set (contents T') = set (contents T) - {e0}"
    "length (contents T) = Suc (length (contents T'))"
    using lk assms(2) by simp_all
  have one: "e = e0" if "e \<in> set (contents T)" "fst e = r0" for e
    using entry_unique [OF assms(1) that(1) e0(1)] that(2) e0(2) cmp_refl [OF contents_K [OF assms(1) e0(1)]] by simp
  have "fst ` (set (contents T) - {e0}) = fst ` set (contents T) - {r0}"
  proof (intro equalityI subsetI)
    fix y assume "y \<in> fst ` (set (contents T) - {e0})"
    then show "y \<in> fst ` set (contents T) - {r0}" using one by blast
  next
    fix y assume "y \<in> fst ` set (contents T) - {r0}"
    then show "y \<in> fst ` (set (contents T) - {e0})" using e0(2) by blast
  qed
  then have "fst ` set (contents T') = fst ` set (contents T) - {r0}" using T'(4) by simp
  moreover have "treeCount T' = 0 \<longleftrightarrow> contents T' = []" using treeCount_contents [OF T'(2)] by simp
  ultimately show ?thesis using path(1) T' by blast
qed

end

context column_types
begin

lemma rt_rows_K:
  assumes "rt_inv rty KR vty KV F" "(v, Some r) \<in> set (rt_flat F)"
  shows "r \<in> KR" "v \<in> KV"
proof -
  obtain p where p: "(v, Some p) \<in> set (contents (rt_values F))" "r \<in> set (tree_rows (rt_trees F) p)"
    using assms(2) by (auto simp: rt_flat_iff)
  obtain T where "rt_trees F p = Some T" and T: "btree_inv rty KR T" "tree_rows (rt_trees F) p = map fst (contents T)"
    using tree_rows_owned [OF rt_invD(3) [OF assms(1) p(1)]] by blast
  show "r \<in> KR" using p(2) T row.contents_K [OF T(1)] by auto
  show "v \<in> KV" using val.contents_K [OF rt_invD(1) [OF assms(1)] p(1)] by simp
qed

lemma rt_upd:
  assumes F: "rt_inv rty KR vty KV F" and p: "rt_trees F p \<noteq> None" and T: "btree_inv rty KR T" "keyOnly T" "contents T \<noteq> []"
  shows "rt_inv rty KR vty KV (F\<lparr>rt_trees := (rt_trees F)(p \<mapsto> T)\<rparr>)" (is "rt_inv _ _ _ _ ?F")
proof (rule rt_invI)
  note f = rt_invD [OF F]
  have own: "owned rty KR (rt_trees ?F) q" if "(w, Some q) \<in> set (contents (rt_values F))" for w q
    using f(3) [OF that] T owned_upd [of q p] by (cases "q = p") (simp_all add: owned_def)
  show "\<exists>q. x = Some q \<and> owned rty KR (rt_trees ?F) q" if x: "(w, x) \<in> set (contents (rt_values ?F))" for w x
    using f(4) [of w x] own [of w] x by auto
  show "w = w'" if "(w, Some q) \<in> set (contents (rt_values ?F))" "(w', Some q) \<in> set (contents (rt_values ?F))" for w w' q
    using f(5) that by simp
  show "q < rt_next ?F" if "rt_trees ?F q \<noteq> None" for q using that f(6) p by (cases "q = p") auto
  show "btree_inv vty KV (rt_values ?F)" "\<not> keyOnly (rt_values ?F)" using f(1,2) by simp_all
qed

lemma rt_add:
  assumes F: "rt_inv rty KR vty KV F" and r: "r \<in> KR" and v: "v \<in> KV"
    and path: "GetPath (rt_values F) v = Inr path" and lk: "tree_lookup vty (contents (rt_values F)) v = Some (v0, Some p)"
    and new: "\<forall>r'\<in>set (tree_rows (rt_trees F) p). Compare rty r r' \<noteq> 0"
  shows "\<exists>F'. add_to_value F path r = Inr F' \<and> rt_inv rty KR vty KV F' \<and> rt_values F' = rt_values F \<and>
    rows_become (rt_trees F) (rt_trees F') p (insert r (set (tree_rows (rt_trees F) p))) \<and>
    set (rt_flat F') = insert (v0, Some r) (set (rt_flat F))"
proof -
  note f = rt_invD [OF F]
  have in_v: "(v0, Some p) \<in> set (contents (rt_values F))" using val.lookup_iff [OF f(1) v] lk by blast
  have pv: "path_value (rt_values F) path = Inr p" using val.GetPath_lookup [OF f(1) v] path lk by auto
  obtain T where T: "rt_trees F p = Some T" "btree_inv rty KR T" "keyOnly T" "tree_rows (rt_trees F) p = map fst (contents T)"
    using tree_rows_owned [OF f(3) [OF in_v]] by blast
  have "\<forall>e\<in>set (contents T). Compare rty r (fst e) \<noteq> 0" using new T(4) by auto
  from row.insert_new [OF T(2,3) r this] obtain kp T' m where T': "GetPath T r = Inr kp" "Insert T kp r r = Inr (T', m)"
    "btree_inv rty KR T'" "keyOnly T'" "contents T' \<noteq> []" "fst ` set (contents T') = insert r (fst ` set (contents T))" by blast
  let ?F = "F\<lparr>rt_trees := (rt_trees F)(p \<mapsto> T')\<rparr>"
  have rb: "rows_become (rt_trees F) (rt_trees ?F) p (insert r (set (tree_rows (rt_trees F) p)))"
    using tree_rows_upd [of "rt_trees F" p T'] T'(6) T(4) by simp
  have "rt_inv rty KR vty KV ?F" by (rule rt_upd [OF F _ T'(3-5)]) (use T(1) in simp)
  moreover have "set (rt_flat ?F) = insert (v0, Some r) (set (rt_flat F))"
  proof (rule rt_flat_eqI)
    fix w y
    have "(w, Some p) \<in> set (contents (rt_values F)) \<longleftrightarrow> w = v0" using in_v f(5) by blast
    then show "(w, Some y) \<in> set (rt_flat ?F) \<longleftrightarrow> (w, Some y) \<in> insert (v0, Some r) (set (rt_flat F))"
      using rows_become_flat [OF rb, of w y] rt_flat_iff [of w "Some y" F] by simp blast
  qed simp
  moreover have "add_to_value F path r = Inr ?F" using pv T(1) T'(1,2) by (simp add: add_to_value_def row_tree_def)
  ultimately show ?thesis using rb by (intro exI [of _ ?F]) simp
qed

lemma rt_fresh: "rt_inv rty KR vty KV F \<Longrightarrow> (w, Some (rt_next F)) \<notin> set (contents (rt_values F))"
  using rt_invD(3) [of rty KR vty KV F w "rt_next F"] rt_invD(6) [of rty KR vty KV F "rt_next F"] by (auto simp: owned_def)

lemma rt_new:
  assumes F: "rt_inv rty KR vty KV F" and r: "r \<in> KR" and v: "v \<in> KV"
    and path: "GetPath (rt_values F) v = Inr path" "\<not> Match path"
  shows "\<exists>F1 F' moved. new_row_tree rty F r = Inr (rt_next F, F1) \<and> rt_values F1 = rt_values F \<and>
    insert_value F1 path v (rt_next F) = Inr (F', moved) \<and> rt_inv rty KR vty KV F' \<and>
    length (contents (rt_values F')) = Suc (length (contents (rt_values F))) \<and>
    rows_become (rt_trees F) (rt_trees F') (rt_next F) {r} \<and> set (rt_flat F') = insert (v, Some r) (set (rt_flat F)) \<and>
    (\<forall>b e w. (b, e, Some w) \<in> set (located (rt_values F')) \<longrightarrow> (w, b) \<in> set moved \<or>
      (b, e, Some w) \<in> set (located (rt_values F)) \<or> (e, w) = (v, rt_next F) \<and> b = PathLeaf path) \<and>
    (\<forall>w b. (w, b) \<in> set moved \<longrightarrow> (\<exists>e. (b, e, Some w) \<in> set (located (rt_values F'))))"
proof -
  note f = rt_invD [OF F]
  let ?p = "rt_next F" and ?N = "new_BTree rty True :: ('r, 'r) BTree"
  have N: "btree_inv rty KR ?N" "keyOnly ?N" using new_BTree_btree_inv by (auto simp: new_BTree_def)
  from row.insert_new [OF this r] obtain kp T m where T: "GetPath ?N r = Inr kp" "Insert ?N kp r r = Inr (T, m)"
    "btree_inv rty KR T" "keyOnly T" "contents T \<noteq> []" "fst ` set (contents T) = {r}" by auto
  let ?F1 = "F\<lparr>rt_trees := (rt_trees F)(?p \<mapsto> T), rt_next := ?p + 1\<rparr>"
  obtain V moved where V: "Insert (rt_values F) path v ?p = Inr (V, moved)" "btree_inv vty KV V" "keyOnly V = keyOnly (rt_values F)"
    "set (contents V) = insert (slot (rt_values F) v ?p) (set (contents (rt_values F)))"
    "length (contents V) = Suc (length (contents (rt_values F)))"
    "\<forall>b e w. (b, e, Some w) \<in> set (located V) \<longrightarrow> (w, b) \<in> set moved \<or>
      (b, e, Some w) \<in> set (located (rt_values F)) \<or> (e, Some w) = slot (rt_values F) v ?p \<and> b = PathLeaf path"
    "\<forall>w b. (w, b) \<in> set moved \<longrightarrow> (\<exists>e. (b, e, Some w) \<in> set (located V))"
    using val.Insert_located [OF f(1) v path, of ?p] by (elim exE conjE) (rule that)
  have slot: "slot (rt_values F) v ?p = (v, Some ?p)" using f(2) by (simp add: slot_def)
  let ?F = "?F1\<lparr>rt_values := V\<rparr>"
  have rb: "rows_become (rt_trees F) (rt_trees ?F) ?p {r}" using tree_rows_upd [of "rt_trees F" ?p T] T(6) by simp
  have con: "(w, Some q) \<in> set (contents V) \<longleftrightarrow> (w, q) = (v, ?p) \<or> q \<noteq> ?p \<and> (w, Some q) \<in> set (contents (rt_values F))" for w q
    using V(4) slot rt_fresh [OF F] by auto
  have "rt_inv rty KR vty KV ?F"
  proof (rule rt_invI)
    show "\<exists>q. x = Some q \<and> owned rty KR (rt_trees ?F) q" if x: "(w, x) \<in> set (contents (rt_values ?F))" for w x
    proof -
      obtain q where q: "x = Some q" using x V(4) slot f(4) [of w x] by auto
      have "owned rty KR (rt_trees ?F) q"
        using con [of w q] x q f(3) [of w q] T(3-5) owned_upd [of q ?p] by (cases "q = ?p") (simp_all add: owned_def)
      with q show ?thesis by blast
    qed
    show "w = w'" if "(w, Some q) \<in> set (contents (rt_values ?F))" "(w', Some q) \<in> set (contents (rt_values ?F))" for w w' q
      using f(5) [of w q w'] con that by auto
    show "q < rt_next ?F" if "rt_trees ?F q \<noteq> None" for q using that f(6) [of q] by (cases "q = ?p") simp_all
  qed (use V f(2) in simp_all)
  moreover have "set (rt_flat ?F) = insert (v, Some r) (set (rt_flat F))"
  proof (rule rt_flat_eqI)
    fix w y
    show "(w, Some y) \<in> set (rt_flat ?F) \<longleftrightarrow> (w, Some y) \<in> insert (v, Some r) (set (rt_flat F))"
      using rows_become_flat [OF rb, of w y] rt_flat_iff [of w "Some y" F] con [of w] rt_fresh [OF F, of w] by simp blast
  qed simp
  moreover have "new_row_tree rty F r = Inr (?p, ?F1)" using T(1,2) by (simp add: new_row_tree_def Let_def)
  moreover have "insert_value ?F1 path v ?p = Inr (?F, moved)" using V(1) by (simp add: insert_value_def)
  ultimately show ?thesis using rb V(5,6,7) slot by (intro exI [of _ ?F1] exI [of _ ?F] exI [of _ moved]) simp
qed

text \<open>Removing the last row of a value, then any row.\<close>

lemma rt_drop:
  assumes F: "rt_inv rty KR vty KV F" and v: "v \<in> KV" and path: "GetPath (rt_values F) v = Inr path"
    and lk: "tree_lookup vty (contents (rt_values F)) v = Some (v0, Some p)"
    and one: "set (tree_rows (rt_trees F) p) = {r0}" and stay: "stays (rt_values F) path"
  shows "\<exists>V. Delete (rt_values F) path = Inr V \<and> length (contents (rt_values F)) = Suc (length (contents V)) \<and>
    set (located V) = {x \<in> set (located (rt_values F)). snd x \<noteq> (v0, Some p)} \<and>
    rt_inv rty KR vty KV (F\<lparr>rt_values := V, rt_trees := (rt_trees F)(p := None)\<rparr>) \<and>
    set (rt_flat (F\<lparr>rt_values := V, rt_trees := (rt_trees F)(p := None)\<rparr>)) = set (rt_flat F) - {(v0, Some r0)}"
proof -
  note f = rt_invD [OF F]
  have in_v: "(v0, Some p) \<in> set (contents (rt_values F))" using val.lookup_iff [OF f(1) v] lk by blast
  have "Match path" using val.GetPath_lookup [OF f(1) v] path lk by auto
  from val.Delete_located [OF f(1) v path this stay] obtain V e where V: "Delete (rt_values F) path = Inr V"
    "btree_inv vty KV V" "keyOnly V = keyOnly (rt_values F)" "tree_lookup vty (contents (rt_values F)) v = Some e"
    "set (contents V) = set (contents (rt_values F)) - {e}" "length (contents (rt_values F)) = Suc (length (contents V))"
    "set (located V) = {x \<in> set (located (rt_values F)). snd x \<noteq> e}" by blast
  have e: "e = (v0, Some p)" using V(4) lk by simp
  let ?F = "F\<lparr>rt_values := V, rt_trees := (rt_trees F)(p := None)\<rparr>"
  have rb: "rows_become (rt_trees F) (rt_trees ?F) p {}" using tree_rows_del [of "rt_trees F" p] by simp
  have same: "q = p" if "(v0, Some q) \<in> set (contents (rt_values F))" for q
    using val.entry_one [OF f(1) that in_v] by simp
  have only: "(w, Some p) \<in> set (contents (rt_values F)) \<longleftrightarrow> w = v0" for w using in_v f(5) by blast
  have con: "(w, Some q) \<in> set (contents V) \<longleftrightarrow> q \<noteq> p \<and> (w, Some q) \<in> set (contents (rt_values F))" for w q
    using V(5) e only [of w] by auto
  have "rt_inv rty KR vty KV ?F"
  proof (rule rt_invI)
    show "\<exists>q. x = Some q \<and> owned rty KR (rt_trees ?F) q" if x: "(w, x) \<in> set (contents (rt_values ?F))" for w x
    proof -
      obtain q where q: "x = Some q" using x V(5) f(4) [of w x] by auto
      with con [of w q] x f(3) [of w q] show ?thesis by (simp add: owned_upd)
    qed
    show "w = w'" if "(w, Some q) \<in> set (contents (rt_values ?F))" "(w', Some q) \<in> set (contents (rt_values ?F))" for w w' q
      using f(5) [of w q w'] con that by simp
    show "q < rt_next ?F" if "rt_trees ?F q \<noteq> None" for q using that f(6) [of q] by (cases "q = p") simp_all
  qed (use V f(2) in simp_all)
  moreover have "set (rt_flat ?F) = set (rt_flat F) - {(v0, Some r0)}"
  proof (rule rt_flat_eqI)
    fix w y
    show "(w, Some y) \<in> set (rt_flat ?F) \<longleftrightarrow> (w, Some y) \<in> set (rt_flat F) - {(v0, Some r0)}"
      using rows_become_flat [OF rb, of w y] rt_flat_iff [of w "Some y" F] only [of w] same con [of w] one by simp blast
  qed simp
  ultimately show ?thesis using V(1,6,7) e by simp
qed

lemma rt_remove:
  assumes F: "rt_inv rty KR vty KV F" and r: "r \<in> KR" and v: "v \<in> KV"
    and path: "GetPath (rt_values F) v = Inr path" and lk: "tree_lookup vty (contents (rt_values F)) v = Some (v0, Some p)"
    and r0: "r0 \<in> set (tree_rows (rt_trees F) p)" "Compare rty r r0 = 0"
    and safe: "\<forall>T. rt_trees F p = Some T \<longrightarrow> tree_safe T r \<and> (length (contents T) = 1 \<longrightarrow> stays (rt_values F) path)"
  shows "\<exists>F' gone. remove_from_value F path r = Inr (F', gone) \<and> rt_inv rty KR vty KV F' \<and>
    set (rt_flat F') = set (rt_flat F) - {(v0, Some r0)} \<and>
    rows_become (rt_trees F) (rt_trees F') p (set (tree_rows (rt_trees F) p) - {r0}) \<and>
    (if gone
     then set (tree_rows (rt_trees F) p) = {r0} \<and> length (contents (rt_values F)) = Suc (length (contents (rt_values F'))) \<and>
       set (located (rt_values F')) = {x \<in> set (located (rt_values F)). snd x \<noteq> (v0, Some p)}
     else rt_values F' = rt_values F)"
proof -
  note f = rt_invD [OF F]
  have in_v: "(v0, Some p) \<in> set (contents (rt_values F))" using val.lookup_iff [OF f(1) v] lk by blast
  have pv: "path_value (rt_values F) path = Inr p" using val.GetPath_lookup [OF f(1) v] path lk by auto
  obtain T where T: "rt_trees F p = Some T" "btree_inv rty KR T" "keyOnly T" "tree_rows (rt_trees F) p = map fst (contents T)"
    using tree_rows_owned [OF f(3) [OF in_v]] by blast
  have r0T: "r0 \<in> fst ` set (contents T)" using r0(1) T(4) by simp
  have s: "tree_safe T r" "length (contents T) = 1 \<Longrightarrow> stays (rt_values F) path" using safe T(1) by simp_all
  from row.delete_one [OF T(2,3) r s(1) r0T r0(2)] obtain kp T' where T': "GetPath T r = Inr kp" "Delete T kp = Inr T'"
    "btree_inv rty KR T'" "keyOnly T'" "fst ` set (contents T') = fst ` set (contents T) - {r0}" "treeCount T' = 0 \<longleftrightarrow> contents T' = []"
    "length (contents T) = Suc (length (contents T'))" by blast
  have same: "q = p" if "(v0, Some q) \<in> set (contents (rt_values F))" for q
    using val.entry_one [OF f(1) that in_v] by simp
  have only: "(w, Some p) \<in> set (contents (rt_values F)) \<longleftrightarrow> w = v0" for w using in_v f(5) by blast
  show ?thesis
  proof (cases "contents T' = []")
    case False
    let ?F = "F\<lparr>rt_trees := (rt_trees F)(p \<mapsto> T')\<rparr>"
    have rb: "rows_become (rt_trees F) (rt_trees ?F) p (set (tree_rows (rt_trees F) p) - {r0})"
      using tree_rows_upd [of "rt_trees F" p T'] T'(5) T(4) by simp
    have "set (rt_flat ?F) = set (rt_flat F) - {(v0, Some r0)}"
    proof (rule rt_flat_eqI)
      fix w y
      show "(w, Some y) \<in> set (rt_flat ?F) \<longleftrightarrow> (w, Some y) \<in> set (rt_flat F) - {(v0, Some r0)}"
        using rows_become_flat [OF rb, of w y] rt_flat_iff [of w "Some y" F] only [of w] same by simp blast
    qed simp
    moreover have "rt_inv rty KR vty KV ?F" by (rule rt_upd [OF F _ T'(3,4) False]) (use T(1) in simp)
    moreover have "remove_from_value F path r = Inr (?F, False)"
      using pv T(1) T'(1,2,6) False by (simp add: remove_from_value_def row_tree_def)
    ultimately show ?thesis using rb by (intro exI [of _ ?F] exI [of _ False]) simp
  next
    case True
    then have one: "length (contents T) = 1" "set (tree_rows (rt_trees F) p) = {r0}" using T'(5,7) T(4) r0T by auto
    let ?F = "\<lambda>V. F\<lparr>rt_values := V, rt_trees := (rt_trees F)(p := None)\<rparr>"
    from rt_drop [OF F v path lk one(2) s(2) [OF one(1)]] obtain V where V: "Delete (rt_values F) path = Inr V"
      "length (contents (rt_values F)) = Suc (length (contents V))"
      "set (located V) = {x \<in> set (located (rt_values F)). snd x \<noteq> (v0, Some p)}" "rt_inv rty KR vty KV (?F V)"
      "set (rt_flat (?F V)) = set (rt_flat F) - {(v0, Some r0)}" by blast
    moreover have "remove_from_value F path r = Inr (?F V, True)"
      using pv T(1) T'(1,2,6) True V(1) by (simp add: remove_from_value_def row_tree_def)
    ultimately show ?thesis using tree_rows_del [of "rt_trees F" p] one(2) by (intro exI [of _ "?F V"] exI [of _ True]) simp
  qed
qed

end

section \<open>What a range query returns\<close>

text \<open>
  Groups of rows under their values, cut when the number of rows reaches the limit; a limit
  of zero is none. A group that has no rows is left out.
\<close>

definition id_limit :: "32 word \<Rightarrow> nat" where
  "id_limit lim = nat (sint lim)"

fun take_groups :: "nat \<Rightarrow> ('v \<times> 'r list) list \<Rightarrow> ('v \<times> 'r list) list" where
  "take_groups n [] = []"
| "take_groups n ((v, rs) # gs) =
     (if rs = [] then take_groups n gs
      else if n \<le> length rs then [(v, take n rs)]
      else (v, rs) # take_groups (n - length rs) gs)"

definition limit_groups :: "nat \<Rightarrow> ('v \<times> 'r list) list \<Rightarrow> ('v \<times> 'r list) list" where
  "limit_groups n gs = (if n = 0 then filter (\<lambda>g. snd g \<noteq> []) gs else take_groups n gs)"

definition group_size :: "('v \<times> 'r list) list \<Rightarrow> nat" where
  "group_size gs = sum_list (map (length \<circ> snd) gs)"

definition wire_group :: "'v ScalarType \<Rightarrow> 'r ScalarType \<Rightarrow> 'v \<times> 'r list \<Rightarrow> ValueRows" where
  "wire_group vty rty g = \<lparr>vrValue = wire vty (fst g), vrRowIDs = map (wire rty) (snd g)\<rparr>"

text \<open>The rows of a value in the order of the scan, behind the start row for its own value.\<close>

definition behind :: "'r ScalarType \<Rightarrow> bool \<Rightarrow> 'r \<Rightarrow> 'r \<Rightarrow> bool" where
  "behind rty asc s r = (if asc then 0 < Compare rty r s else Compare rty r s < 0)"

definition group_of ::
  "'v ScalarType \<Rightarrow> 'r ScalarType \<Rightarrow> (addr \<Rightarrow> ('r, 'r) BTree option) \<Rightarrow> bool \<Rightarrow> 'r option \<Rightarrow> 'v option \<Rightarrow> 'v \<times> addr option \<Rightarrow> 'v \<times> 'r list"
where
  "group_of vty rty trees asc sid sk e =
     (let rs = (case snd e of None \<Rightarrow> [] | Some p \<Rightarrow> (if asc then id else rev) (tree_rows trees p))
      in (fst e, case (sid, sk) of
                   (Some s, Some k) \<Rightarrow> if Compare vty (fst e) k = 0 then filter (behind rty asc s) rs else rs
                 | _ \<Rightarrow> rs))"

lemma limited_False [simp]: "\<not> limited r \<Longrightarrow> r\<lparr>limited := False\<rparr> = r"
  by (cases r) simp

lemma scan_result_same [simp]: "st\<lparr>result := result st\<rparr> = st" "st\<lparr>num := num st\<rparr> = st"
  by (cases st; simp)+

lemma run_ids:
  assumes "\<forall>e\<in>set es. \<exists>s. CopyOut rty (fst e) = Inr s" "\<not> limited (result st)" "L = id_limit lim" "L = 0 \<or> num st < L"
  shows "run_until (visit_id rty lim) (\<lambda>s. limited (result (snd s))) es (ids, st) =
    Inr (ids @ map (wire rty \<circ> fst) (if L = 0 then es else take (L - num st) es),
      st\<lparr>num := num st + (if L = 0 then length es else min (L - num st) (length es)),
         result := (result st)\<lparr>limited := (L \<noteq> 0 \<and> L - num st \<le> length es)\<rparr>\<rparr>)"
  using assms(1,2,4)
proof (induction es arbitrary: ids st)
  case (Cons e es)
  have w: "CopyOut rty (fst e) = Inr (wire rty (fst e))" using Cons.prems(1) wire_CopyOut by (metis list.set_intros(1))
  let ?st = "st\<lparr>num := num st + 1, result := (result st)\<lparr>limited := (int (num st + 1) = sint lim)\<rparr>\<rparr>"
  have v: "visit_id rty lim e (ids, st) = Inr (ids @ [wire rty (fst e)], ?st)" using w by (simp add: visit_id_def Let_def)
  have hit: "int (num st + 1) = sint lim \<longleftrightarrow> L = num st + 1" using assms(3) by (auto simp: id_limit_def)
  show ?case
  proof (cases "L = num st + 1")
    case True
    with v hit Cons.prems(2) show ?thesis by simp
  next
    case False
    then have "L = 0 \<or> num ?st < L" "\<not> limited (result ?st)" using Cons.prems(3) hit by auto
    from Cons.IH [OF _ this(2,1), of "ids @ [wire rty (fst e)]"] Cons.prems(1)
    have "run_until (visit_id rty lim) (\<lambda>s. limited (result (snd s))) es (ids @ [wire rty (fst e)], ?st) =
      Inr (ids @ map (wire rty \<circ> fst) (e # (if L = 0 then es else take (L - num ?st) es)),
        ?st\<lparr>num := num ?st + (if L = 0 then length es else min (L - num ?st) (length es)),
          result := (result ?st)\<lparr>limited := (L \<noteq> 0 \<and> L - num ?st \<le> length es)\<rparr>\<rparr>)" by simp
    moreover have "L - num st = Suc (L - num ?st)" if "L \<noteq> 0" using that False Cons.prems(3) by simp
    ultimately show ?thesis using v Cons.prems(2) by (cases "L = 0") simp_all
  qed
qed auto

context scalar_order
begin

lemma split_at:
  assumes es: "sorted_wrt (\<lambda>a b. Compare ty (fst a) (fst b) < 0) es" "fst ` set es \<subseteq> K" and n: "n < length es"
    and s: "s \<in> K" "Compare ty s (fst (es ! n)) = 0"
  shows "filter (\<lambda>e. 0 < Compare ty (fst e) s) es = drop (Suc n) es"
    and "filter (\<lambda>e. Compare ty (fst e) s < 0) es = take n es"
proof -
  let ?x = "es ! n"
  have split: "es = take n es @ ?x # drop (Suc n) es" using n by (rule id_take_nth_drop)
  have K: "fst e \<in> K" if "e \<in> set es" for e using es(2) that by blast
  have x: "fst ?x \<in> K" using K n by simp
  have x: "fst ?x \<in> K" "Compare ty (fst ?x) s = 0" using x cmp_eq_sym [OF s(1) x] s(2) by simp_all
  have lo: "Compare ty (fst e) s < 0" if "e \<in> set (take n es)" for e
  proof -
    have "Compare ty (fst e) (fst ?x) < 0" using es(1) split that by (metis list.set_intros(1) sorted_wrt_append)
    then show ?thesis using cmp_lt_le_trans [OF K [OF in_set_takeD [OF that]] x(1) s(1)] x(2) by simp
  qed
  have hi: "0 < Compare ty (fst e) s" if "e \<in> set (drop (Suc n) es)" for e
  proof -
    have e: "fst e \<in> K" by (rule K [OF in_set_dropD [OF that]])
    have "Compare ty (fst ?x) (fst e) < 0" using es(1) split that by (metis sorted_wrt_append sorted_wrt.simps(2))
    then have "Compare ty s (fst e) < 0" using cmp_le_lt_trans [OF s(1) x(1) e] s(2) by simp
    then show ?thesis using cmp_sym [OF s(1) e] by simp
  qed
  have lo': "\<not> 0 < Compare ty (fst e) s" if "e \<in> set (take n es)" for e using lo [OF that] by simp
  have hi': "\<not> Compare ty (fst e) s < 0" if "e \<in> set (drop (Suc n) es)" for e using hi [OF that] by simp
  have "filter (\<lambda>e. 0 < Compare ty (fst e) s) (take n es @ ?x # drop (Suc n) es) = drop (Suc n) es"
    using x(2) filter_False [of "take n es" "\<lambda>e. 0 < Compare ty (fst e) s"] filter_True [of "drop (Suc n) es" "\<lambda>e. 0 < Compare ty (fst e) s"] lo' hi by simp
  then show "filter (\<lambda>e. 0 < Compare ty (fst e) s) es = drop (Suc n) es" using split by simp
  have "filter (\<lambda>e. Compare ty (fst e) s < 0) (take n es @ ?x # drop (Suc n) es) = take n es"
    using x(2) filter_True [of "take n es" "\<lambda>e. Compare ty (fst e) s < 0"] filter_False [of "drop (Suc n) es" "\<lambda>e. Compare ty (fst e) s < 0"] lo hi' by simp
  then show "filter (\<lambda>e. Compare ty (fst e) s < 0) es = take n es" using split by simp
qed

text \<open>The loop over the rows of a tree, from a marker or from behind the start row.\<close>

lemma id_loop:
  fixes T :: "('k, 'k) BTree"
  assumes T: "btree_inv ty K T"
    and sid: "\<not> startFound st \<Longrightarrow> \<exists>s\<in>K. sid = Some s \<and> (\<exists>e\<in>set (contents T). Compare ty s (fst e) = 0)"
    and xs: "xs = (if asc then id else rev) (if startFound st then contents T else filter (\<lambda>e. behind ty asc (the sid) (fst e)) (contents T))"
    and st1: "st1 = (if startFound st then st else st\<lparr>startFound := True, result := (result st)\<lparr>res_bof := False\<rparr>\<rparr>)"
  shows "\<exists>b e. id_start T asc sid st = Inr (b, st1) \<and> (if asc then iter_end T else iter_begin T) = Inr e \<and>
    range_loop (MoveNext T) (MovePrior T) (iter_get T) iter_eq asc visit lim (nat (treeCount T) + 2) b e z = run_until visit lim xs z"
proof -
  note srt = contents_sorted [OF T]
  have fuel: "length (contents T) < nat (treeCount T) + 2" using treeCount_contents [OF T] by simp
  obtain b0 where b0: "iter_begin T = Inr b0" "iter_pos ty K T 0 b0" using tree_cursor.at_start [OF T] by blast
  obtain e0 where e0: "iter_end T = Inr e0" "iter_pos ty K T (length (contents T)) e0" using tree_cursor.at_finish [OF T] by blast
  show ?thesis
  proof (cases "startFound st")
    case True
    from tree_traversal [OF T fuel, of visit lim z] b0(1) e0(1) True xs st1 show ?thesis by (auto simp: id_start_def)
  next
    case False
    then obtain s e where s: "s \<in> K" "sid = Some s" "e \<in> set (contents T)" "Compare ty s (fst e) = 0" using sid by blast
    obtain it n where it: "iter_find T s = Inr it" "iter_pos ty K T n it" "n < length (contents T)" "Compare ty s (fst (contents T ! n)) = 0"
      using find_pos [OF T s(1,3,4)] by blast
    have ne: "\<not> iter_eq it e0" using tree_cursor.same_at [OF T it(2) e0(2)] it(3) by simp
    note f = split_at [OF srt it(3) s(1) it(4)]
    show ?thesis
    proof (cases asc)
      case True
      obtain it' where it': "MoveNext T it = Inr it'" "iter_pos ty K T (Suc n) it'" using tree_cursor.forth_at [OF T it(2,3)] by blast
      have "range_loop (MoveNext T) (MovePrior T) (iter_get T) iter_eq True visit lim (nat (treeCount T) + 2) it' e0 z =
          run_until visit lim (drop (Suc n) (take (length (contents T)) (contents T))) z"
        using it(3) fuel by (intro tree_cursor.loop_ascending [OF T it'(2) e0(2)]) simp_all
      with True False it(1) it'(1) e0(1) ne s(2) xs st1 f(1) show ?thesis by (simp add: id_start_def behind_def)
    next
      case desc: False
      have "range_loop (MoveNext T) (MovePrior T) (iter_get T) iter_eq False visit lim (nat (treeCount T) + 2) it b0 z =
          run_until visit lim (rev (drop 0 (take n (contents T)))) z"
        using it(3) fuel by (intro tree_cursor.loop_descending [OF T it(2) b0(2)]) simp_all
      with desc False it(1) e0(1) b0(1) ne s(2) xs st1 f(2) show ?thesis by (simp add: id_start_def behind_def)
    qed
  qed
qed

end

text \<open>What a scan over groups of rows adds to its state.\<close>

definition scanned :: "'v ScalarType \<Rightarrow> 'r ScalarType \<Rightarrow> nat \<Rightarrow> ('v \<times> 'r list) list \<Rightarrow> scan \<Rightarrow> scan \<Rightarrow> bool" where
  "scanned vty rty L gs st st' \<longleftrightarrow>
     vrl st' = vrl st @ map (wire_group vty rty) (if L = 0 then filter (\<lambda>g. snd g \<noteq> []) gs else take_groups (L - num st) gs) \<and>
     (limited (result st') \<longleftrightarrow> L \<noteq> 0 \<and> L - num st \<le> group_size gs) \<and> res_eof (result st') = res_eof (result st)"

lemma group_size_simps [simp]: "group_size [] = 0" "group_size (g # gs) = length (snd g) + group_size gs"
  by (simp_all add: group_size_def)

context column_types
begin

abbreviation ordered_rows :: "('r, 'v) RowTrees \<Rightarrow> bool \<Rightarrow> 'v \<times> addr option \<Rightarrow> 'r list" where
  "ordered_rows F asc e \<equiv> (case snd e of None \<Rightarrow> [] | Some p \<Rightarrow> (if asc then id else rev) (tree_rows (rt_trees F) p))"

text \<open>The visit of a value adds the group of its rows.\<close>

lemma visit_value_ok:
  assumes F: "rt_inv rty KR vty KV F" and e: "e \<in> set (contents (rt_values F))"
    and st: "\<not> limited (result st)" "L = id_limit lim" "L = 0 \<or> num st < L"
    and sid: "\<not> startFound st \<Longrightarrow> \<exists>s\<in>KR. sid = Some s \<and> (\<exists>r\<in>set (ordered_rows F asc e). Compare rty s r = 0)"
    and rs: "rs = (if startFound st then ordered_rows F asc e else filter (behind rty asc (the sid)) (ordered_rows F asc e))"
    and k: "k = (if L = 0 then rs else take (L - num st) rs)"
  shows "\<exists>st'. visit_value vty rty F asc sid lim e st = Inr st' \<and> startFound st' \<and> num st' = num st + length k \<and>
    vrl st' = vrl st @ (if k = [] then [] else [wire_group vty rty (fst e, k)]) \<and>
    (limited (result st') \<longleftrightarrow> L \<noteq> 0 \<and> L - num st \<le> length rs) \<and> res_eof (result st') = res_eof (result st)"
proof -
  note f = rt_invD [OF F]
  obtain p where "snd e = Some p" using e f(4) [of "fst e" "snd e"] by auto
  then obtain v where vp: "e = (v, Some p)" by (metis prod.collapse)
  have v: "v \<in> KV" using val.contents_K [OF f(1) e] vp by simp
  obtain T where T: "rt_trees F p = Some T" "btree_inv rty KR T" "tree_rows (rt_trees F) p = map fst (contents T)"
    using tree_rows_owned [OF f(3), of v p] e vp by blast
  have rows: "ordered_rows F asc e = map fst ((if asc then id else rev) (contents T))" using vp T(3) by (simp add: rev_map)
  define st1 where "st1 = (if startFound st then st else st\<lparr>startFound := True, result := (result st)\<lparr>res_bof := False\<rparr>\<rparr>)"
  define xs where "xs = (if asc then id else rev) (if startFound st then contents T else filter (\<lambda>e. behind rty asc (the sid) (fst e)) (contents T))"
  have rs': "rs = map fst xs" using rs rows by (cases asc; cases "startFound st") (simp_all add: xs_def filter_map comp_def rev_filter rev_map)
  have st1: "\<not> limited (result st1)" "num st1 = num st" "vrl st1 = vrl st" "res_eof (result st1) = res_eof (result st)" "startFound st1"
    using st(1) by (simp_all add: st1_def)
  have "\<exists>s\<in>KR. sid = Some s \<and> (\<exists>e\<in>set (contents T). Compare rty s (fst e) = 0)" if "\<not> startFound st"
    using sid [OF that] rows by (cases asc) auto
  from row.id_loop [OF T(2) this xs_def st1_def, where z = "([], st1)"
      and visit = "visit_id rty lim" and lim = "\<lambda>s. limited (result (snd s))"]
  obtain b c where loop: "id_start T asc sid st = Inr (b, st1)" "(if asc then iter_end T else iter_begin T) = Inr c"
    "range_loop (MoveNext T) (MovePrior T) (iter_get T) iter_eq asc (visit_id rty lim) (\<lambda>s. limited (result (snd s)))
      (nat (treeCount T) + 2) b c ([], st1) = run_until (visit_id rty lim) (\<lambda>s. limited (result (snd s))) xs ([], st1)" by blast
  have "set xs \<subseteq> set (contents T)" by (auto simp: xs_def)
  then have "\<forall>x\<in>set xs. \<exists>s. CopyOut rty (fst x) = Inr s" using row.contents_K [OF T(2)] row.CopyOut_total by blast
  from run_ids [OF this st1(1) st(2)] st(3) st1(2)
  have run: "run_until (visit_id rty lim) (\<lambda>s. limited (result (snd s))) xs ([], st1) =
    Inr (map (wire rty) k, st1\<lparr>num := num st + length k, result := (result st1)\<lparr>limited := (L \<noteq> 0 \<and> L - num st \<le> length rs)\<rparr>\<rparr>)"
    unfolding k rs' by (simp add: take_map)
  obtain w where "CopyOut vty v = Inr w" using val.CopyOut_total [OF v] by blast
  then have "CopyOut vty v = Inr (wire vty v)" by (rule wire_CopyOut)
  then show ?thesis using loop run vp T(1) st1 by (simp add: visit_value_def row_tree_def wire_group_def)
qed

lemma scanned_step:
  assumes visit: "visit e st = Inr st1" "num st1 = num st + length k"
      "vrl st1 = vrl st @ (if k = [] then [] else [wire_group vty rty (v, k)])"
      "limited (result st1) \<longleftrightarrow> L \<noteq> 0 \<and> L - num st \<le> length rs" "res_eof (result st1) = res_eof (result st)"
    and k: "k = (if L = 0 then rs else take (L - num st) rs)" and st: "\<not> limited (result st)" "L = 0 \<or> num st < L"
    and rest: "\<not> limited (result st1) \<Longrightarrow> L = 0 \<or> num st1 < L \<Longrightarrow>
      \<exists>st'. run_until visit (\<lambda>s. limited (result s)) es st1 = Inr st' \<and> scanned vty rty L gs st1 st'"
  shows "\<exists>st'. run_until visit (\<lambda>s. limited (result s)) (e # es) st = Inr st' \<and> scanned vty rty L ((v, rs) # gs) st st'"
proof (cases "limited (result st1)")
  case True
  with visit(1) st(1) have run: "run_until visit (\<lambda>s. limited (result s)) (e # es) st = Inr st1" by simp
  have "L \<noteq> 0" "L - num st \<le> length rs" "0 < L - num st" using True visit(4) st(2) by auto
  then have "scanned vty rty L ((v, rs) # gs) st st1"
    using visit(3,4,5) k by (auto simp: scanned_def)
  with run show ?thesis by blast
next
  case False
  then have less: "L = 0 \<or> length rs < L - num st" using visit(4) by auto
  then have kr: "k = rs" using k by auto
  then have "L = 0 \<or> num st1 < L" using less visit(2) by auto
  from rest [OF False this] obtain st' where st': "run_until visit (\<lambda>s. limited (result s)) es st1 = Inr st'" "scanned vty rty L gs st1 st'" by blast
  have "L - num st1 = L - num st - length rs" using visit(2) kr by simp
  with less st'(2) visit(3,5) kr have "scanned vty rty L ((v, rs) # gs) st st'" by (auto simp: scanned_def)
  with visit(1) st'(1) st(1) show ?thesis by simp
qed

lemma run_values:
  assumes F: "rt_inv rty KR vty KV F" and "set es \<subseteq> set (contents (rt_values F))"
    and "\<not> limited (result st)" and L: "L = id_limit lim" and "L = 0 \<or> num st < L" "startFound st"
  shows "\<exists>st'. run_until (visit_value vty rty F asc sid lim) (\<lambda>s. limited (result s)) es st = Inr st' \<and>
    scanned vty rty L (map (\<lambda>e. (fst e, ordered_rows F asc e)) es) st st'"
  using assms(2,3,5,6)
proof (induction es arbitrary: st)
  case Nil
  then show ?case by (auto simp: scanned_def)
next
  case (Cons e es)
  have e: "e \<in> set (contents (rt_values F))" using Cons.prems(1) by simp
  define k where "k = (if L = 0 then ordered_rows F asc e else take (L - num st) (ordered_rows F asc e))"
  have rs: "ordered_rows F asc e = (if startFound st then ordered_rows F asc e else filter (behind rty asc (the sid)) (ordered_rows F asc e))"
    using Cons.prems(4) by simp
  obtain st1 where st1: "visit_value vty rty F asc sid lim e st = Inr st1" "startFound st1" "num st1 = num st + length k"
    "vrl st1 = vrl st @ (if k = [] then [] else [wire_group vty rty (fst e, k)])"
    "limited (result st1) \<longleftrightarrow> L \<noteq> 0 \<and> L - num st \<le> length (ordered_rows F asc e)" "res_eof (result st1) = res_eof (result st)"
    using visit_value_ok [OF F e Cons.prems(2) L Cons.prems(3) _ rs k_def] Cons.prems(4) by blast
  show ?case unfolding list.map
    by (rule scanned_step [where visit = "visit_value vty rty F asc sid lim", OF st1(1,3-6) k_def Cons.prems(2,3)], rule Cons.IH) (use Cons.prems(1) st1(2) in simp_all)
qed

lemma group_of_found:
  "sid = None \<or> Compare vty (fst e) (the sk) \<noteq> 0 \<Longrightarrow> group_of vty rty (rt_trees F) asc sid sk e = (fst e, ordered_rows F asc e)"
  by (auto simp: group_of_def Let_def split: option.split)

lemma group_of_start:
  "Compare vty (fst e) k = 0 \<Longrightarrow>
   group_of vty rty (rt_trees F) asc (Some s) (Some k) e = (fst e, filter (behind rty asc s) (ordered_rows F asc e))"
  by (simp add: group_of_def Let_def)

text \<open>The scan of the values of a range, with a start row in the first of them.\<close>

lemma run_values_start:
  assumes F: "rt_inv rty KR vty KV F" and es: "set es \<subseteq> set (contents (rt_values F))"
    and st: "\<not> limited (result st)" "L = id_limit lim" "L = 0 \<or> num st < L" "startFound st \<longleftrightarrow> sid = None"
    and sid: "\<And>s. sid = Some s \<Longrightarrow> s \<in> KR \<and> sk \<noteq> None"
    and hd: "\<And>s e es'. sid = Some s \<Longrightarrow> es = e # es' \<Longrightarrow> Compare vty (fst e) (the sk) = 0 \<and>
      (\<exists>r\<in>set (ordered_rows F asc e). Compare rty s r = 0) \<and> (\<forall>e'\<in>set es'. Compare vty (fst e') (the sk) \<noteq> 0)"
  shows "\<exists>st'. run_until (visit_value vty rty F asc sid lim) (\<lambda>s. limited (result s)) es st = Inr st' \<and>
    scanned vty rty L (map (group_of vty rty (rt_trees F) asc sid sk) es) st st'"
proof (cases "sid = None \<or> es = []")
  case True
  show ?thesis
  proof (cases "es = []")
    case False
    with True have none: "sid = None" by simp
    then have eq: "map (group_of vty rty (rt_trees F) asc sid sk) es = map (\<lambda>e. (fst e, ordered_rows F asc e)) es"
      by (simp add: group_of_found)
    show ?thesis unfolding eq by (rule run_values [OF F es st(1,2,3)]) (use st(4) none in simp)
  qed (use st(1,3) in \<open>auto simp: scanned_def\<close>)
next
  case False
  then obtain s e es' where s: "sid = Some s" "es = e # es'" by (cases es) auto
  then obtain k where k: "sk = Some k" using sid by auto
  let ?rs = "filter (behind rty asc s) (ordered_rows F asc e)"
  have e: "e \<in> set (contents (rt_values F))" and es': "set es' \<subseteq> set (contents (rt_values F))" using es s(2) by simp_all
  note h = hd [OF s]
  have rs: "?rs = (if startFound st then ordered_rows F asc e else filter (behind rty asc (the sid)) (ordered_rows F asc e))"
    using st(4) s(1) by simp
  define k' where "k' = (if L = 0 then ?rs else take (L - num st) ?rs)"
  have "\<exists>s\<in>KR. sid = Some s \<and> (\<exists>r\<in>set (ordered_rows F asc e). Compare rty s r = 0)" if "\<not> startFound st" using h sid [OF s(1)] s(1) by blast
  from visit_value_ok [OF F e st(1-3) this rs k'_def] obtain st1 where st1: "visit_value vty rty F asc sid lim e st = Inr st1" "startFound st1"
    "num st1 = num st + length k'" "vrl st1 = vrl st @ (if k' = [] then [] else [wire_group vty rty (fst e, k')])"
    "limited (result st1) \<longleftrightarrow> L \<noteq> 0 \<and> L - num st \<le> length ?rs" "res_eof (result st1) = res_eof (result st)" by blast
  have "map (group_of vty rty (rt_trees F) asc sid sk) es = (fst e, ?rs) # map (\<lambda>e. (fst e, ordered_rows F asc e)) es'"
    using h s k by (simp add: group_of_start group_of_found)
  then show ?thesis unfolding s(2)
    by (simp only: list.map, intro scanned_step [where visit = "visit_value vty rty F asc sid lim", OF st1(1,3-6) k'_def st(1,3)],
      intro run_values [OF F es' _ st(2) _ st1(2)])
qed

end

context scalar_order
begin

text \<open>A scan that begins at a key that is there, included, finds it first.\<close>

lemma selected_first:
  assumes T: "btree_inv ty K T" and l: "bound_in K l" and k: "(k, w) \<in> set (contents T)"
    and sel: "selected ty asc (Some (k, True)) l (contents T) = e # es"
  shows "e = (k, w)" "\<forall>e'\<in>set es. Compare ty (fst e') k \<noteq> 0"
proof -
  let ?s = "selected ty asc (Some (k, True)) l (contents T)" and ?R = "\<lambda>a b. Compare ty (fst a) (fst b) < 0"
  note srt = contents_sorted [OF T]
  have kK: "k \<in> K" using srt(2) k by force
  have sub: "x \<in> set (contents T)" "in_bound ty asc (Some (k, True)) (fst x)" "in_bound ty (\<not> asc) l (fst x)" if "x \<in> set ?s" for x
    using that by (auto simp: selected_def split: if_splits)
  have e: "e \<in> set ?s" "fst e \<in> K" using sel sub(1) [of e] srt(2) by auto
  have le: "if asc then Compare ty k (fst e) \<le> 0 else Compare ty (fst e) k \<le> 0"
    using sub(2) [OF e(1)] cmp_le_iff [OF kK e(2)] by (auto simp: in_bound_def)
  have "in_bound ty (\<not> asc) l k"
  proof (cases l)
    case (Some x)
    obtain y j where x: "x = (y, j)" by (cases x)
    have y: "y \<in> K" using l Some x by simp
    show ?thesis using sub(3) [OF e(1)] le Some x cmp_trans [OF kK e(2) y] cmp_le_lt_trans [OF kK e(2) y]
        cmp_trans [OF y e(2) kK] cmp_lt_le_trans [OF y e(2) kK] cmp_le_iff [OF y kK] cmp_le_iff [OF y e(2)] cmp_sym [OF y kK] cmp_sym [OF y e(2)]
      by (cases asc; cases j) (simp_all add: in_bound_def not_less)
  qed (simp add: in_bound_def)
  moreover have "in_bound ty asc (Some (k, True)) k" using cmp_refl [OF kK] by (simp add: in_bound_def)
  ultimately have ks: "(k, w) \<in> set ?s" using k by (cases asc) (simp_all add: selected_def)
  have order: "sorted_wrt (if asc then ?R else (\<lambda>a b. ?R b a)) ?s"
    using srt(1) by (auto simp: selected_def sorted_wrt_rev sorted_wrt_filter)
  show "e = (k, w)"
  proof (rule ccontr)
    assume "e \<noteq> (k, w)"
    then have "(k, w) \<in> set es" using ks sel by simp
    then have "if asc then Compare ty (fst e) k < 0 else Compare ty k (fst e) < 0" using order sel by (cases asc) auto
    with le show False using cmp_sym [OF e(2) kK] cmp_sym [OF kK e(2)] by (auto split: if_splits)
  qed
  have "distinct ?s" using distinct_contents [OF T] by (auto simp: selected_def)
  then have "e \<notin> set es" using sel by simp
  moreover have "e' = (k, w)" if "e' \<in> set es" "Compare ty (fst e') k = 0" for e'
    using entry_unique [OF T sub(1) k, of e'] that sel by simp
  ultimately show "\<forall>e'\<in>set es. Compare ty (fst e') k \<noteq> 0" using \<open>e = (k, w)\<close> by blast
qed

end

context column_types
begin

lemma rt_scan:
  assumes F: "rt_inv rty KR vty KV F" and sh: "shallow (rt_values F)" and u: "unique_rows rty KR (set (rt_flat F))"
    and f: "bound_in KV f" and l: "bound_in KV l" and sid: "set_option sid \<subseteq> KR"
    and sk: "sk = Option.bind sid (unique_look rty KR (rt_flat F))" "sk = None \<longleftrightarrow> sid = None"
    and get: "\<forall>s\<in>set_option sid. get s = Inr (unique_look rty KR (rt_flat F) s)"
    and inc: "sid = None \<or> (case f of None \<Rightarrow> True | Some (_, i) \<Rightarrow> i)"
    and meet: "bounds_meet vty asc (begin_bound sk f) l"
    and gs: "gs = map (group_of vty rty (rt_trees F) asc sid sk) (selected vty asc (begin_bound sk f) l (contents (rt_values F)))"
  shows "\<exists>res. scan_range (rt_values F) asc (map_option get sid) f l (disjoint_constraints vty asc f l new_RangeResult)
      (visit_value vty rty F asc sid lim) = Inr res \<and>
    valueRowsList res = map (wire_group vty rty) (limit_groups (id_limit lim) gs) \<and>
    (limited res \<longleftrightarrow> id_limit lim \<noteq> 0 \<and> id_limit lim \<le> group_size gs) \<and>
    (res_eof res \<longleftrightarrow> \<not> limited res \<and> (\<forall>e\<in>set (contents (rt_values F)). in_bound vty (\<not> asc) l (fst e)))"
proof -
  note fi = rt_invD [OF F]
  let ?es = "selected vty asc (begin_bound sk f) l (contents (rt_values F))" and ?L = "id_limit lim"
  have key: "\<exists>k p r. sk = Some k \<and> (k, Some p) \<in> set (contents (rt_values F)) \<and> r \<in> set (tree_rows (rt_trees F) p) \<and> Compare rty s r = 0"
    if s: "sid = Some s" for s
  proof -
    obtain k where k: "sk = Some k" using sk(2) s by auto
    with sk(1) s obtain r where "(k, Some r) \<in> set (rt_flat F)" "Compare rty s r = 0" using unique_look_iff [OF u, of s k] by auto
    with k show ?thesis by (auto simp: rt_flat_iff)
  qed
  have skK: "set_option sk \<subseteq> KV"
  proof (cases sid)
    case (Some s)
    with key obtain k p where "sk = Some k" "(k, Some p) \<in> set (contents (rt_values F))" by blast
    then show ?thesis using val.contents_K [OF fi(1), of "(k, Some p)"] by simp
  qed (use sk in simp)
  have start: "map_option get sid = map_option (\<lambda>k. Inr (Some k)) sk" using sk get by (cases sid) auto
  obtain bof where scan: "scan_range (rt_values F) asc (map_option get sid) f l (disjoint_constraints vty asc f l new_RangeResult) (visit_value vty rty F asc sid lim) =
    bindE (run_until (visit_value vty rty F asc sid lim) (\<lambda>s. limited (result s)) ?es
        \<lparr>result = (disjoint_constraints vty asc f l new_RangeResult)\<lparr>res_bof := bof, res_eof := (\<forall>x\<in>set (contents (rt_values F)). in_bound vty (\<not> asc) l (fst x))\<rparr>,
         startFound = (sk = None), vrl = [], num = 0\<rparr>) (\<lambda>s. Inr (finish_scan s))" (is "_ = bindE (run_until _ _ _ ?st) _")
    using val.scan_range_selected [OF fi(1) sh skK f l meet, folded start] by blast
  have sub: "set ?es \<subseteq> set (contents (rt_values F))" by (auto simp: selected_def)
  have hd: "Compare vty (fst e) (the sk) = 0 \<and> (\<exists>r\<in>set (ordered_rows F asc e). Compare rty s r = 0) \<and>
      (\<forall>e'\<in>set es'. Compare vty (fst e') (the sk) \<noteq> 0)" if s: "sid = Some s" "?es = e # es'" for s e es'
  proof -
    obtain k p r where k: "sk = Some k" "(k, Some p) \<in> set (contents (rt_values F))" "r \<in> set (tree_rows (rt_trees F) p)" "Compare rty s r = 0"
      using key [OF s(1)] by blast
    have "begin_bound sk f = Some (k, True)" using k(1) inc s(1) by (auto simp: begin_bound_def)
    note first = val.selected_first [OF fi(1) l k(2) s(2) [unfolded this]]
    have "k \<in> KV" using skK k(1) by simp
    then show ?thesis using first k val.cmp_refl by auto
  qed
  have "\<exists>st'. run_until (visit_value vty rty F asc sid lim) (\<lambda>s. limited (result s)) ?es ?st = Inr st' \<and> scanned vty rty ?L gs ?st st'"
    unfolding gs by (rule run_values_start [OF F sub _ refl _ _ _ hd]) (use sk(2) sid in auto)
  then obtain st' where st': "run_until (visit_value vty rty F asc sid lim) (\<lambda>s. limited (result s)) ?es ?st = Inr st'" "scanned vty rty ?L gs ?st st'" by blast
  then show ?thesis unfolding scan by (auto simp: scanned_def finish_scan_def limit_groups_def Let_def)
qed

end

end
