(* ===== verification/TreeBuffer.thy ===== *)
theory TreeBuffer
  imports RowTrees
begin

text \<open>
  \<open>FastoreCommon/Buffer/TreeBuffer.cpp\<close>: a column in which rows share values. The tree of
  values holds a tree of rows for each value; the tree of rows holds, for each row, the leaf of
  the tree of values in which its value is. The values-moved callback keeps these pointers up
  to date.
\<close>

section \<open>Operations\<close>

record ('r, 'v) TreeBuffer =
  tb_rowType :: "'r ScalarType"
  tb_valueType :: "'v ScalarType"
  tb_rows :: "('r, addr) BTree"
  tb_forest :: "('r, 'v) RowTrees"
  tb_unique :: int
  tb_total :: int

definition new_TreeBuffer :: "'r ScalarType \<Rightarrow> 'v ScalarType \<Rightarrow> ('r, 'v) TreeBuffer" where
  "new_TreeBuffer rty vty =
     \<lparr>tb_rowType = rty, tb_valueType = vty, tb_rows = new_BTree rty False, tb_forest = new_RowTrees vty, tb_unique = 0, tb_total = 0\<rparr>"

definition tb_GetStatistic :: "('r, 'v) TreeBuffer \<Rightarrow> Statistic" where
  "tb_GetStatistic b = \<lparr>total = tb_total b, unique = tb_unique b\<rparr>"

text \<open>The test \<open>GetValue\<close> gives to \<open>GetKey\<close>: whether the tree of a value has the row.\<close>

definition holds_row :: "('r, 'v) RowTrees \<Rightarrow> 'r \<Rightarrow> addr option \<Rightarrow> err + bool" where
  "holds_row F rowId kt =
     (case kt of
        None \<Rightarrow> Inl NullPointer
      | Some p \<Rightarrow> bindE (row_tree F p) (\<lambda>T. bindE (GetPath T rowId) (\<lambda>path. Inr (Match path))))"

definition tb_GetValuePtr :: "('r, 'v) TreeBuffer \<Rightarrow> 'r \<Rightarrow> err + 'v option" where
  "tb_GetValuePtr b rowId =
     bindE (iter_findNearest (tb_rows b) rowId) (\<lambda>(it, match).
       if match
       then
         bindE (iter_get (tb_rows b) it) (\<lambda>e.
           case snd e of
             None \<Rightarrow> Inl NullPointer
           | Some leaf \<Rightarrow>
               bindE (Node_GetKey (heap (rt_values (tb_forest b))) leaf (holds_row (tb_forest b) rowId)) (\<lambda>k. Inr (Some k)))
       else Inr None)"

definition tb_GetValue :: "('r, 'v) TreeBuffer \<Rightarrow> string \<Rightarrow> err + OptionalValue" where
  "tb_GetValue b rowId =
     bindE (GetPointer (tb_rowType b) rowId) (\<lambda>r.
     bindE (tb_GetValuePtr b r) (\<lambda>value.
       case value of
         None \<Rightarrow> Inr None
       | Some v \<Rightarrow> bindE (CopyOut (tb_valueType b) v) (\<lambda>s. Inr (Some s))))"

definition tb_GetValues :: "('r, 'v) TreeBuffer \<Rightarrow> string list \<Rightarrow> err + OptionalValue list" where
  "tb_GetValues b rowIds = mapE (tb_GetValue b) rowIds"

text \<open>\<open>ValuesMoved\<close>: all rows of a value that has been moved get its new leaf.\<close>

definition repoint_row :: "'r \<times> addr \<Rightarrow> ('r, addr) BTree \<Rightarrow> err + ('r, addr) BTree" where
  "repoint_row = (\<lambda>(rowId, leaf) rows.
     bindE (GetPath rows rowId) (\<lambda>result.
       if Match result then set_path_value rows result leaf
       else Inl (Throw ''Attempted to update reverse index and found a value in the forward index that didn't exist in the reverse'')))"

definition tb_ValuesMoved :: "('r, 'v) RowTrees \<Rightarrow> addr \<times> addr \<Rightarrow> ('r, addr) BTree \<Rightarrow> err + ('r, addr) BTree" where
  "tb_ValuesMoved F = (\<lambda>(value, leaf) rows.
     bindE (row_tree F value) (\<lambda>existingValues.
     bindE (iter_begin existingValues) (\<lambda>start.
     bindE (iter_end existingValues) (\<lambda>finish.
       range_loop (MoveNext existingValues) (MovePrior existingValues) (iter_get existingValues) iter_eq True
         (\<lambda>e. repoint_row (fst e, leaf)) (\<lambda>s. False) (nat (treeCount existingValues) + 2) start finish rows))))"

definition tb_Include :: "('r, 'v) TreeBuffer \<Rightarrow> 'r \<Rightarrow> 'v \<Rightarrow> err + ('r, 'v) TreeBuffer \<times> bool" where
  "tb_Include b rowId value =
     bindE (GetPath (tb_rows b) rowId) (\<lambda>rowpath.
       if Match rowpath then Inr (b, False)
       else
         bindE (GetPath (rt_values (tb_forest b)) value) (\<lambda>path.
           if Match path
           then
             bindE (add_to_value (tb_forest b) path rowId) (\<lambda>F.
             bindE (Insert (tb_rows b) rowpath rowId (PathLeaf path)) (\<lambda>(rows, _).
               Inr (b\<lparr>tb_forest := F, tb_rows := rows, tb_total := tb_total b + 1\<rparr>, True)))
           else
             bindE (new_row_tree (tb_rowType b) (tb_forest b) rowId) (\<lambda>(newRows, F1).
             bindE (Insert (tb_rows b) rowpath rowId (PathLeaf path)) (\<lambda>(rows, _).
             bindE (insert_value F1 path value newRows) (\<lambda>(F, moved).
             bindE (foldE (tb_ValuesMoved F) moved rows) (\<lambda>rows'.
               Inr (b\<lparr>tb_forest := F, tb_rows := rows', tb_unique := tb_unique b + 1, tb_total := tb_total b + 1\<rparr>, True)))))))"

definition tb_ExcludeValue :: "('r, 'v) TreeBuffer \<Rightarrow> 'v option \<Rightarrow> 'r \<Rightarrow> err + ('r, 'v) TreeBuffer \<times> bool" where
  "tb_ExcludeValue b value rowId =
     bindE (GetPath (tb_rows b) rowId) (\<lambda>rowpath.
       if \<not> Match rowpath then Inr (b, False)
       else
         bindE (GetPathPtr (rt_values (tb_forest b)) value) (\<lambda>path.
           if Match path
           then
             bindE (remove_from_value (tb_forest b) path rowId) (\<lambda>(F, gone).
             bindE (Delete (tb_rows b) rowpath) (\<lambda>rows.
               Inr (b\<lparr>tb_forest := F, tb_rows := rows, tb_unique := (if gone then tb_unique b - 1 else tb_unique b),
                      tb_total := tb_total b - 1\<rparr>, True)))
           else Inr (b, False)))"

definition tb_Exclude :: "('r, 'v) TreeBuffer \<Rightarrow> 'r \<Rightarrow> err + ('r, 'v) TreeBuffer \<times> bool" where
  "tb_Exclude b rowId = bindE (tb_GetValuePtr b rowId) (\<lambda>val. tb_ExcludeValue b val rowId)"

definition tb_Apply :: "('r, 'v) TreeBuffer \<Rightarrow> ColumnWrites \<Rightarrow> err + ('r, 'v) TreeBuffer" where
  "tb_Apply b writes =
     apply_writes (GetPointer (tb_valueType b)) (GetPointer (tb_rowType b)) tb_Exclude tb_Include writes b"

definition tb_GetRows :: "('r, 'v) TreeBuffer \<Rightarrow> RangeRequest \<Rightarrow> err + RangeResult" where
  "tb_GetRows b rng = rt_GetRows (tb_valueType b) (tb_rowType b) (tb_forest b) (tb_GetValuePtr b) rng"

section \<open>The invariant and the abstract column\<close>

text \<open>The located values with the rows of their trees.\<close>

definition spread :: "(addr \<Rightarrow> ('r, 'r) BTree option) \<Rightarrow> (addr \<times> 'v \<times> addr option) set \<Rightarrow> (addr \<times> 'v \<times> 'r option) set" where
  "spread trees L = {(a, v, Some r) | a v r. \<exists>p. (a, v, Some p) \<in> L \<and> r \<in> set (tree_rows trees p)}"

abbreviation tb_links :: "('r, 'v) RowTrees \<Rightarrow> (addr \<times> 'v \<times> 'r option) set" where
  "tb_links F \<equiv> spread (rt_trees F) (set (located (rt_values F)))"

definition tb_inv :: "'r ScalarType \<Rightarrow> 'r set \<Rightarrow> 'v ScalarType \<Rightarrow> 'v set \<Rightarrow> ('r, 'v) TreeBuffer \<Rightarrow> bool" where
  "tb_inv rty KR vty KV b \<longleftrightarrow> tb_rowType b = rty \<and> tb_valueType b = vty \<and>
     btree_inv rty KR (tb_rows b) \<and> \<not> keyOnly (tb_rows b) \<and> rt_inv rty KR vty KV (tb_forest b) \<and>
     linked (set (contents (tb_rows b))) (tb_links (tb_forest b)) \<and>
     tb_total b = int (length (contents (tb_rows b))) \<and> tb_unique b = int (length (contents (rt_values (tb_forest b))))"

abbreviation tb_look :: "'r ScalarType \<Rightarrow> 'r set \<Rightarrow> ('r, 'v) TreeBuffer \<Rightarrow> 'r \<Rightarrow> 'v option" where
  "tb_look rty KR b \<equiv> unique_look rty KR (rt_flat (tb_forest b))"

text \<open>
  Values that compare equal are stored once; the column holds of a value what distinguishes it
  from others.
\<close>

definition value_class :: "'v ScalarType \<Rightarrow> 'v set \<Rightarrow> 'v \<Rightarrow> 'v set" where
  "value_class vty KV v = {v' \<in> KV. Compare vty v v' = 0}"

definition tb_class :: "'r ScalarType \<Rightarrow> 'r set \<Rightarrow> 'v ScalarType \<Rightarrow> 'v set \<Rightarrow> ('r, 'v) TreeBuffer \<Rightarrow> 'r \<Rightarrow> 'v set option" where
  "tb_class rty KR vty KV b x = map_option (value_class vty KV) (tb_look rty KR b x)"

text \<open>
  A safe exclude: the deletion from the tree of rows is safe; so is the deletion from the
  key-only tree of rows that hangs from the value, of which no leaf below the root may underflow;
  and when that was the last row of the value, removing the value rebalances no leaf of values.
\<close>

definition tb_safe :: "('r, 'v) TreeBuffer \<Rightarrow> 'r \<Rightarrow> bool" where
  "tb_safe b r \<longleftrightarrow> tree_safe (tb_rows b) r \<and>
     (case tb_GetValuePtr b r of
        Inl _ \<Rightarrow> False
      | Inr None \<Rightarrow> True
      | Inr (Some v) \<Rightarrow>
          (case bindE (GetPath (rt_values (tb_forest b)) v) (path_value (rt_values (tb_forest b))) of
             Inl _ \<Rightarrow> False
           | Inr p \<Rightarrow> (case rt_trees (tb_forest b) p of
               None \<Rightarrow> False
             | Some T \<Rightarrow> tree_safe T r \<and> (length (contents T) = 1 \<longrightarrow> tree_stays (rt_values (tb_forest b)) v))))"

lemma new_links [simp]: "tb_links (new_RowTrees vty) = {}" "contents (rt_values (new_RowTrees vty)) = []"
  by (simp_all add: spread_def new_RowTrees_def)

lemma new_TreeBuffer_inv: "tb_inv rty KR vty KV (new_TreeBuffer rty vty)"
  by (simp add: tb_inv_def new_TreeBuffer_def new_RowTrees_inv new_BTree_btree_inv linked_def) (simp add: new_BTree_def)

lemma spread_iff: "(a, v, w) \<in> spread trees L \<longleftrightarrow> (\<exists>r p. w = Some r \<and> (a, v, Some p) \<in> L \<and> r \<in> set (tree_rows trees p))"
  by (auto simp: spread_def)

lemma links_flat:
  assumes "rt_inv rty KR vty KV F"
  shows "set (rt_flat F) = snd ` tb_links F"
proof -
  have con: "(v, Some p) \<in> set (contents (rt_values F)) \<longleftrightarrow> (\<exists>a. (a, v, Some p) \<in> set (located (rt_values F)))" for v p
    using located_contents [OF rt_invD(1) [OF assms]] by force
  show ?thesis
  proof (rule rt_flat_eqI)
    show "(w, None) \<notin> snd ` tb_links F" for w by (auto simp: spread_iff)
    have "(w, Some y) \<in> snd ` tb_links F \<longleftrightarrow> (\<exists>a. (a, w, Some y) \<in> tb_links F)" for w y by force
    then show "(w, Some y) \<in> set (rt_flat F) \<longleftrightarrow> (w, Some y) \<in> snd ` tb_links F" for w y
      unfolding rt_flat_iff con by (simp add: spread_iff) blast
  qed
qed

lemma spread_become:
  assumes "rows_become trees trees' p R"
  shows "(a, v, Some r) \<in> spread trees' L \<longleftrightarrow>
    (\<exists>q. (a, v, Some q) \<in> L \<and> (q = p \<and> r \<in> R \<or> q \<noteq> p \<and> r \<in> set (tree_rows trees q)))"
proof -
  have "r \<in> set (tree_rows trees' q) \<longleftrightarrow> q = p \<and> r \<in> R \<or> q \<noteq> p \<and> r \<in> set (tree_rows trees q)" for q
    using assms by (simp add: rows_become_def)
  then show ?thesis by (simp add: spread_iff)
qed

lemma GetKey_loop_find:
  assumes "\<forall>e\<in>set es. f (snd e) = Inr (Q e)" "e \<in> set es" "Q e" "\<forall>e'\<in>set es. Q e' \<longrightarrow> fst e' = fst e"
  shows "GetKey_loop f es = Inr (fst e)"
  using assms
proof (induction es)
  case (Cons x es)
  obtain k v where x: "x = (k, v)" by (cases x)
  have f: "f v = Inr (Q x)" using Cons.prems(1) x by simp
  show ?case
  proof (cases "Q x")
    case True
    then have "fst x = fst e" using Cons.prems(4) by simp
    with True f x show ?thesis by simp
  next
    case False
    then have "e \<in> set es" using Cons.prems(2,3) by auto
    moreover have "\<forall>e\<in>set es. f (snd e) = Inr (Q e)" "\<forall>e'\<in>set es. Q e' \<longrightarrow> fst e' = fst e"
      using Cons.prems(1,4) by simp_all
    ultimately have "GetKey_loop f es = Inr (fst e)" using Cons.IH Cons.prems(3) by blast
    with False f x show ?thesis by simp
  qed
qed simp

lemma run_until_foldE: "run_until f (\<lambda>s. False) xs s = foldE f xs s"
proof (induction xs arbitrary: s)
  case (Cons x xs)
  then have "run_until f (\<lambda>s. False) xs = foldE f xs" by (intro ext)
  then show ?case by simp
qed simp

lemma foldE_map: "foldE f (map g xs) s = foldE (\<lambda>x. f (g x)) xs s"
proof (induction xs arbitrary: s)
  case (Cons x xs)
  then have "foldE f (map g xs) = foldE (\<lambda>x. f (g x)) xs" by (intro ext)
  then show ?case by simp
qed simp

lemma foldE_append: "foldE f (xs @ ys) s = bindE (foldE f xs s) (foldE f ys)"
proof (induction xs arbitrary: s)
  case (Cons x xs)
  then have "foldE f (xs @ ys) = (\<lambda>s. bindE (foldE f xs s) (foldE f ys))" by (intro ext)
  then show ?case by (simp add: bindE_assoc)
qed simp

definition moved_rows :: "(addr \<Rightarrow> ('r, 'r) BTree option) \<Rightarrow> (addr \<times> addr) list \<Rightarrow> ('r \<times> addr) list" where
  "moved_rows trees moved = concat (map (\<lambda>(w, b). map (\<lambda>r. (r, b)) (tree_rows trees w)) moved)"

context column_types
begin

lemma tb_unique_rows: "tb_inv rty KR vty KV b \<Longrightarrow> unique_rows rty KR (set (rt_flat (tb_forest b)))"
  using linked_unique [of "tb_rows b" "tb_links (tb_forest b)"] links_flat [of rty KR vty KV "tb_forest b"] by (simp add: tb_inv_def)

lemma tb_look_None_iff:
  "tb_inv rty KR vty KV b \<Longrightarrow> x \<in> KR \<Longrightarrow> tb_look rty KR b x = None \<longleftrightarrow> tree_lookup rty (contents (tb_rows b)) x = None"
  using linked_look_None [of "tb_rows b" "tb_links (tb_forest b)" "rt_flat (tb_forest b)" x] links_flat [of rty KR vty KV "tb_forest b"]
  by (simp add: tb_inv_def)

lemma holds_row_ok:
  assumes F: "rt_inv rty KR vty KV F" and x: "x \<in> KR" and e: "(v, w) \<in> set (contents (rt_values F))"
  shows "holds_row F x w = Inr (\<exists>p r. w = Some p \<and> r \<in> set (tree_rows (rt_trees F) p) \<and> Compare rty x r = 0)"
proof -
  obtain p where w: "w = Some p" using rt_invD(4) [OF F e] by blast
  obtain T where T: "rt_trees F p = Some T" "btree_inv rty KR T" "tree_rows (rt_trees F) p = map fst (contents T)"
    using tree_rows_owned [OF rt_invD(3) [OF F, of v p]] e w by blast
  obtain path where "GetPath T x = Inr path" "Match path \<longleftrightarrow> tree_lookup rty (contents T) x \<noteq> None"
    using row.GetPath_lookup [OF T(2) x] by blast
  then show ?thesis using w T(1,3) by (auto simp: holds_row_def row_tree_def row.lookup_None_iff)
qed

text \<open>A row points to the leaf of its value, and \<open>GetValue\<close> finds it there.\<close>

lemma tb_row:
  assumes "tb_inv rty KR vty KV b" "(v, Some r) \<in> set (rt_flat (tb_forest b))"
  shows "\<exists>a p. (r, Some a) \<in> set (contents (tb_rows b)) \<and> (a, v, Some p) \<in> set (located (rt_values (tb_forest b))) \<and>
    r \<in> set (tree_rows (rt_trees (tb_forest b)) p)"
proof -
  note inv = assms(1) [unfolded tb_inv_def]
  have "(v, Some r) \<in> snd ` tb_links (tb_forest b)" using links_flat [of rty KR vty KV "tb_forest b"] inv assms(2) by simp
  then obtain a where "(r, Some a) \<in> set (contents (tb_rows b))" "(a, v, Some r) \<in> tb_links (tb_forest b)"
    using linked_row [of "set (contents (tb_rows b))" "tb_links (tb_forest b)" v r] inv by blast
  then show ?thesis by (auto simp: spread_iff)
qed

lemma tb_GetValuePtr_look:
  assumes b: "tb_inv rty KR vty KV b" and x: "x \<in> KR"
  shows "tb_GetValuePtr b x = Inr (tb_look rty KR b x)"
proof (cases "tb_look rty KR b x")
  case None
  then obtain it where "iter_findNearest (tb_rows b) x = Inr (it, False)"
    using row.findNearest_missing [of "tb_rows b" x] tb_look_None_iff [OF b x] b x by (auto simp: tb_inv_def)
  with None show ?thesis by (simp add: tb_GetValuePtr_def)
next
  case (Some v)
  note inv = b [unfolded tb_inv_def] and u = tb_unique_rows [OF b]
  let ?F = "tb_forest b"
  let ?Q = "\<lambda>e. \<exists>p r. snd e = Some p \<and> r \<in> set (tree_rows (rt_trees ?F) p) \<and> Compare rty x r = 0"
  have F: "rt_inv rty KR vty KV ?F" and R: "btree_inv rty KR (tb_rows b)" using inv by simp_all
  obtain r where r: "(v, Some r) \<in> set (rt_flat ?F)" "Compare rty x r = 0" using Some unique_look_iff [OF u] by blast
  obtain a p where a: "(r, Some a) \<in> set (contents (tb_rows b))" "(a, v, Some p) \<in> set (located (rt_values ?F))"
    "r \<in> set (tree_rows (rt_trees ?F) p)" using tb_row [OF b r(1)] by blast
  obtain es where es: "heap (rt_values ?F) a = Some (Leaf es)" "(v, Some p) \<in> set es" "Pair a ` set es \<subseteq> set (located (rt_values ?F))"
    using located_leaf [OF rt_invD(1) [OF F] a(2)] by blast
  have sub: "e \<in> set (contents (rt_values ?F))" if "e \<in> set es" for e
    using es(3) that located_contents [OF rt_invD(1) [OF F]] by force
  have holds: "holds_row ?F x (snd e) = Inr (?Q e)" if "e \<in> set es" for e
    using holds_row_ok [OF F x, of "fst e" "snd e"] sub [OF that] by simp
  have only: "fst e = v" if e: "e \<in> set es" "?Q e" for e
  proof -
    obtain p' r' where p': "snd e = Some p'" "r' \<in> set (tree_rows (rt_trees ?F) p')" "Compare rty x r' = 0" using e(2) by blast
    have "(fst e, Some r') \<in> set (rt_flat ?F)" using sub [OF e(1)] p' rt_flat_iff [of "fst e" "Some r'" ?F] by (metis prod.collapse)
    then show ?thesis using unique_look_iff [OF u, of x "fst e"] x p'(3) Some by auto
  qed
  have "GetKey_loop (holds_row ?F x) es = Inr (fst (v, Some p))"
  proof (rule GetKey_loop_find [where Q = ?Q, OF _ es(2)])
    show "\<forall>e\<in>set es. holds_row ?F x (snd e) = Inr (?Q e)" using holds by blast
    show "?Q (v, Some p)" using a(3) r(2) by auto
    show "\<forall>e'\<in>set es. ?Q e' \<longrightarrow> fst e' = fst (v, Some p)" using only by simp
  qed
  moreover obtain it where "iter_findNearest (tb_rows b) x = Inr (it, True)" "iter_get (tb_rows b) it = Inr (r, Some a)"
    using row.findNearest_lookup [OF R x, of "(r, Some a)"] row.lookup_iff [OF R x, of "(r, Some a)"] a(1) r(2) by auto
  ultimately show ?thesis using Some es(1) by (simp add: tb_GetValuePtr_def Node_GetKey_def deref_leaf_def)
qed

lemma links_one:
  assumes F: "rt_inv rty KR vty KV F" and "(b, e, Some r) \<in> tb_links F" "(b', e, Some r) \<in> tb_links F"
  shows "b = b'"
proof -
  note f = rt_invD [OF F]
  obtain p p' where p: "(b, e, Some p) \<in> set (located (rt_values F))" "(b', e, Some p') \<in> set (located (rt_values F))"
    using assms(2,3) by (auto simp: spread_iff)
  then have "(e, Some p) \<in> set (contents (rt_values F))" "(e, Some p') \<in> set (contents (rt_values F))"
    using located_contents [OF f(1)] by force+
  then have "p = p'" using val.entry_one [OF f(1), of e "Some p" "Some p'"] by simp
  with p show ?thesis using val.located_unique [OF f(1)] by blast
qed

text \<open>The callback over a moved value is the callback over its rows.\<close>

lemma tb_ValuesMoved_rows:
  assumes "owned rty KR (rt_trees F) w"
  shows "tb_ValuesMoved F (w, b) rows = foldE repoint_row (map (\<lambda>r. (r, b)) (tree_rows (rt_trees F) w)) rows"
proof -
  obtain T where T: "rt_trees F w = Some T" "btree_inv rty KR T" "tree_rows (rt_trees F) w = map fst (contents T)"
    using tree_rows_owned [OF assms] by blast
  have "length (contents T) < nat (treeCount T) + 2" using treeCount_contents [OF T(2)] by simp
  from row.tree_traversal [OF T(2) this, of "\<lambda>e. repoint_row (fst e, b)" "\<lambda>s. False" rows] T(1,3)
  show ?thesis by (auto simp: tb_ValuesMoved_def row_tree_def run_until_foldE foldE_map)
qed

lemma fold_ValuesMoved:
  assumes "\<forall>(w, b)\<in>set moved. owned rty KR (rt_trees F) w"
  shows "foldE (tb_ValuesMoved F) moved rows = foldE repoint_row (moved_rows (rt_trees F) moved) rows"
  using assms
proof (induction moved arbitrary: rows)
  case (Cons x moved)
  obtain w b where x: "x = (w, b)" by (cases x)
  have "foldE (tb_ValuesMoved F) moved = foldE repoint_row (moved_rows (rt_trees F) moved)"
    using Cons by (intro ext) simp
  then show ?case using tb_ValuesMoved_rows [of F w b rows] Cons.prems x by (simp add: moved_rows_def foldE_append)
qed (simp add: moved_rows_def)

lemma repoint_row_step: "repoints rty KR repoint_row"
  unfolding repoints_def
proof (intro allI impI)
  fix T :: "('r, addr) BTree" and w a
  assume "btree_inv rty KR T" "w \<in> KR" "tree_lookup rty (contents T) w \<noteq> None"
  then show "repoint_row (w, a) T = bindE (GetPath T w) (\<lambda>p. set_path_value T p a)"
    using row.GetPath_lookup [of T w] by (auto simp: repoint_row_def)
qed

lemma value_class_eq:
  assumes "v \<in> KV" "v0 \<in> KV" "Compare vty v v0 = 0"
  shows "value_class vty KV v0 = value_class vty KV v"
proof -
  have "Compare vty v0 w = 0 \<longleftrightarrow> Compare vty v w = 0" if "w \<in> KV" for w
    using val.cmp_eq_trans [OF assms(1,2) that] val.cmp_eq_trans [OF assms(2,1) that] val.cmp_eq_sym [OF assms(1,2)] assms(3) by blast
  then show ?thesis by (auto simp: value_class_def)
qed

lemma links_pairs: "rt_inv rty KR vty KV F \<Longrightarrow> \<forall>b b' e. (b, e) \<in> tb_links F \<longrightarrow> (b', e) \<in> tb_links F \<longrightarrow> b = b'"
  using links_one [of F] by (fastforce simp: spread_def)

lemma tb_K:
  assumes "tb_inv rty KR vty KV b"
  shows "rt_inv rty KR vty KV (tb_forest b)" "btree_inv rty KR (tb_rows b)" "\<not> keyOnly (tb_rows b)"
    "linked (set (contents (tb_rows b))) (tb_links (tb_forest b))" "tb_rowType b = rty" "tb_valueType b = vty"
  using assms by (simp_all add: tb_inv_def)

text \<open>Linking a new row to the leaf of a value that is there.\<close>

lemma tb_link_old:
  assumes b: "tb_inv rty KR vty KV b" and F: "rt_inv rty KR vty KV F" "rt_values F = rt_values (tb_forest b)"
    and loc: "(a, v0, Some p) \<in> set (located (rt_values F))" and new: "\<forall>c. (r, Some c) \<notin> set (contents (tb_rows b))"
    and rb: "rows_become (rt_trees (tb_forest b)) (rt_trees F) p (insert r (set (tree_rows (rt_trees (tb_forest b)) p)))"
  shows "linked (insert (r, Some a) (set (contents (tb_rows b)))) (tb_links F)"
proof -
  note k = tb_K [OF b]
  have only: "(c, w) = (a, v0)" if "(c, w, Some p) \<in> set (located (rt_values F))" for c w
  proof -
    have "(w, Some p) \<in> set (contents (rt_values F))" "(v0, Some p) \<in> set (contents (rt_values F))"
      using that loc located_contents [OF rt_invD(1) [OF F(1)]] by force+
    then have "w = v0" using rt_invD(5) [OF F(1)] by blast
    with that loc show ?thesis using val.located_unique [OF rt_invD(1) [OF F(1)]] by blast
  qed
  have L: "tb_links F = insert (a, v0, Some r) (tb_links (tb_forest b))"
  proof (rule set_eqI)
    fix x :: "addr \<times> 'v \<times> 'r option"
    obtain c w y where x: "x = (c, w, y)" by (cases x)
    show "x \<in> tb_links F \<longleftrightarrow> x \<in> insert (a, v0, Some r) (tb_links (tb_forest b))"
    proof (cases y)
      case None
      then show ?thesis using x by (simp add: spread_iff)
    next
      case (Some r')
      have "(c, w, Some r') \<in> tb_links F \<longleftrightarrow> (\<exists>q. (c, w, Some q) \<in> set (located (rt_values F)) \<and>
          (q = p \<and> (r' = r \<or> r' \<in> set (tree_rows (rt_trees (tb_forest b)) p)) \<or>
           q \<noteq> p \<and> r' \<in> set (tree_rows (rt_trees (tb_forest b)) q)))"
        using spread_become [OF rb, of c w r'] by simp
      also have "\<dots> \<longleftrightarrow> (c, w, Some p) \<in> set (located (rt_values F)) \<and> r' = r \<or>
          (\<exists>q. (c, w, Some q) \<in> set (located (rt_values F)) \<and> r' \<in> set (tree_rows (rt_trees (tb_forest b)) q))" by blast
      also have "\<dots> \<longleftrightarrow> (c, w, r') = (a, v0, r) \<or> (c, w, Some r') \<in> tb_links (tb_forest b)"
        using only [of c w] loc F(2) by (simp add: spread_iff) blast
      finally show ?thesis using x Some by simp
    qed
  qed
  have one: "\<forall>k c c'. (k, Some c) \<in> set (contents (tb_rows b)) \<longrightarrow> (k, Some c') \<in> set (contents (tb_rows b)) \<longrightarrow> c = c'"
    using row.entry_one [OF k(2)] by blast
  have V: "snd ` tb_links F = insert (v0, Some r) (snd ` tb_links (tb_forest b))" using L by simp
  show ?thesis
    by (rule linked_insert [where M = "{}" and a = a, OF k(4) new one V links_pairs [OF F(1)]])
      (use L linkedD(3) [OF k(4)] in auto)
qed

text \<open>Linking a new row to a new value, with the rows of the moved values behind it.\<close>

lemma moved_rows_iff: "(r, b) \<in> set (moved_rows trees moved) \<longleftrightarrow> (\<exists>w. (w, b) \<in> set moved \<and> r \<in> set (tree_rows trees w))"
  by (auto simp: moved_rows_def)

lemma tb_link_new:
  assumes b: "tb_inv rty KR vty KV b" and F: "rt_inv rty KR vty KV F" and r: "r \<in> KR"
    and new: "\<forall>c. (r, Some c) \<notin> set (contents (tb_rows b))"
    and rb: "rows_become (rt_trees (tb_forest b)) (rt_trees F) p {r}"
    and fresh: "\<And>c w. (c, w, Some p) \<notin> set (located (rt_values (tb_forest b)))"
    and flat: "set (rt_flat F) = insert (v, Some r) (set (rt_flat (tb_forest b)))"
    and old: "\<forall>c e w. (c, e, Some w) \<in> set (located (rt_values F)) \<longrightarrow> (w, c) \<in> set moved \<or>
      (c, e, Some w) \<in> set (located (rt_values (tb_forest b))) \<or> (e, w) = (v, p) \<and> c = a"
    and told: "\<forall>w c. (w, c) \<in> set moved \<longrightarrow> (\<exists>e. (c, e, Some w) \<in> set (located (rt_values F)))"
    and R: "btree_inv rty KR R" "set (contents R) = insert (r, Some a) (set (contents (tb_rows b)))"
    and u: "unique_rows rty KR (set (rt_flat F))"
  shows "\<exists>R'. foldE (tb_ValuesMoved F) moved R = Inr R' \<and> btree_inv rty KR R' \<and> keyOnly R' = keyOnly R \<and>
    length (contents R') = length (contents R) \<and> linked (set (contents R')) (tb_links F)"
proof -
  note k = tb_K [OF b]
  let ?M = "moved_rows (rt_trees F) moved"
  have own: "owned rty KR (rt_trees F) w" if "(w, c) \<in> set moved" for w c
  proof -
    obtain e where "(c, e, Some w) \<in> set (located (rt_values F))" using told \<open>(w, c) \<in> set moved\<close> by blast
    then have "(e, Some w) \<in> set (contents (rt_values F))" unfolding located_contents [OF rt_invD(1) [OF F]] by force
    then show ?thesis by (rule rt_invD(3) [OF F])
  qed
  have fold: "foldE (tb_ValuesMoved F) moved R = foldE repoint_row ?M R" using own by (intro fold_ValuesMoved) blast
  have told': "\<exists>e. (c, e, Some y) \<in> tb_links F" if m: "(y, c) \<in> set ?M" for y c
  proof -
    obtain w where w: "(w, c) \<in> set moved" "y \<in> set (tree_rows (rt_trees F) w)" using m unfolding moved_rows_iff by blast
    then obtain e where "(c, e, Some w) \<in> set (located (rt_values F))" using told by blast
    then have "(c, e, Some y) \<in> tb_links F" using w(2) unfolding spread_iff by blast
    then show ?thesis by blast
  qed
  have in_flat: "(e, Some y) \<in> set (rt_flat F)" if "(c, e, Some y) \<in> tb_links F" for c e y
    unfolding links_flat [OF F] by (rule image_eqI [OF _ that]) simp
  have keys: "\<forall>(y, c)\<in>set ?M. \<exists>c0. (y, Some c0) \<in> set (contents R)"
  proof (intro ballI, clarify)
    fix y c assume "(y, c) \<in> set ?M"
    then obtain e where "(e, Some y) \<in> set (rt_flat F)" using told' in_flat by blast
    then consider "y = r" | "(e, Some y) \<in> set (rt_flat (tb_forest b))" using flat by auto
    then show "\<exists>c0. (y, Some c0) \<in> set (contents R)"
    proof cases
      case 1
      then show ?thesis using R(2) by blast
    next
      case 2
      then show ?thesis using R(2) tb_row [OF b 2] by blast
    qed
  qed
  have dup: "\<forall>y c c'. (y, c) \<in> set ?M \<longrightarrow> (y, c') \<in> set ?M \<longrightarrow> c = c'"
  proof (intro allI impI)
    fix y c c' assume "(y, c) \<in> set ?M" "(y, c') \<in> set ?M"
    then obtain e e' where e: "(c, e, Some y) \<in> tb_links F" "(c', e', Some y) \<in> tb_links F" using told' by blast
    have "y \<in> KR" using unique_rowsD(1) [OF u in_flat [OF e(1)]] .
    then have "e = e'" using unique_rowsD(2) [OF u in_flat [OF e(1)] in_flat [OF e(2)]] row.cmp_refl by blast
    then show "c = c'" using links_one [OF F e(1)] e(2) by blast
  qed
  have none: "\<forall>k. (k, None) \<notin> set (contents R)" using R(2) linkedD(3) [OF k(4)] by auto
  obtain R' where R': "foldE repoint_row ?M R = Inr R'" "btree_inv rty KR R'" "keyOnly R' = keyOnly R" "length (contents R') = length (contents R)"
    "\<forall>k c. (k, Some c) \<in> set (contents R') \<longleftrightarrow> (k, c) \<in> set ?M \<or> (k, Some c) \<in> set (contents R) \<and> (\<forall>c'. (k, c') \<notin> set ?M)"
    "\<forall>k. (k, None) \<notin> set (contents R')"
    using row.fold_moved [OF repoint_row_step R(1) none keys dup] by (elim exE conjE) (rule that)
  have one: "\<forall>k c c'. (k, Some c) \<in> set (contents (tb_rows b)) \<longrightarrow> (k, Some c') \<in> set (contents (tb_rows b)) \<longrightarrow> c = c'"
    using row.entry_one [OF k(2)] by blast
  have V: "snd ` tb_links F = insert (v, Some r) (snd ` tb_links (tb_forest b))"
    using links_flat [OF F] links_flat [OF k(1)] flat by simp
  have old': "\<forall>c e y. (c, e, Some y) \<in> tb_links F \<longrightarrow> (y, c) \<in> set ?M \<or> (c, e, Some y) \<in> tb_links (tb_forest b) \<or> (e, y) = (v, r) \<and> c = a"
  proof (intro allI impI)
    fix c e y assume "(c, e, Some y) \<in> tb_links F"
    then obtain q where q: "(c, e, Some q) \<in> set (located (rt_values F))" "y \<in> set (tree_rows (rt_trees F) q)" by (auto simp: spread_iff)
    have y: "q = p \<and> y = r \<or> q \<noteq> p \<and> y \<in> set (tree_rows (rt_trees (tb_forest b)) q)" using rb [unfolded rows_become_def, rule_format, of q] q(2) by (cases "q = p") simp_all
    from old q(1) consider "(q, c) \<in> set moved" | "(c, e, Some q) \<in> set (located (rt_values (tb_forest b)))" | "(e, q) = (v, p) \<and> c = a" by blast
    then show "(y, c) \<in> set ?M \<or> (c, e, Some y) \<in> tb_links (tb_forest b) \<or> (e, y) = (v, r) \<and> c = a"
    proof cases
      case 1
      then show ?thesis using q(2) unfolding moved_rows_iff by blast
    next
      case 2
      then have "q \<noteq> p" using fresh by blast
      then show ?thesis using 2 y spread_iff [of c e "Some y" "rt_trees (tb_forest b)"] by simp blast
    next
      case 3
      then show ?thesis using y by auto
    qed
  qed
  have told'': "\<forall>y c. (y, c) \<in> set ?M \<longrightarrow> (\<exists>e. (c, e, Some y) \<in> tb_links F)" using told' by blast
  have "linked (set (contents R')) (tb_links F)"
    by (rule linked_insert [OF k(4) new one V links_pairs [OF F] old' told'' R'(5) [unfolded R(2)] R'(6)])
  with fold R'(1-4) show ?thesis by (intro exI [of _ R']) simp
qed

lemma tb_rows_absent:
  assumes b: "tb_inv rty KR vty KV b" and r: "r \<in> KR" and none: "tb_look rty KR b r = None"
  shows "\<forall>c. (r, Some c) \<notin> set (contents (tb_rows b))" "\<forall>r'\<in>set (tree_rows (rt_trees (tb_forest b)) p). (v0, Some p) \<in> set (contents (rt_values (tb_forest b))) \<longrightarrow> Compare rty r r' \<noteq> 0"
proof -
  have "tree_lookup rty (contents (tb_rows b)) r = None" using tb_look_None_iff [OF b r] none by simp
  then show "\<forall>c. (r, Some c) \<notin> set (contents (tb_rows b))" using row.cmp_refl [OF r] unfolding row.lookup_None_iff by fastforce
  show "\<forall>r'\<in>set (tree_rows (rt_trees (tb_forest b)) p). (v0, Some p) \<in> set (contents (rt_values (tb_forest b))) \<longrightarrow> Compare rty r r' \<noteq> 0"
  proof (intro ballI impI notI)
    fix r' assume "r' \<in> set (tree_rows (rt_trees (tb_forest b)) p)" "(v0, Some p) \<in> set (contents (rt_values (tb_forest b)))" "Compare rty r r' = 0"
    then have "tb_look rty KR b r = Some v0" unfolding unique_look_iff [OF tb_unique_rows [OF b]] rt_flat_iff using r by blast
    with none show False by simp
  qed
qed

lemma tb_class_add:
  assumes b: "tb_inv rty KR vty KV b" and r: "r \<in> KR" and v: "v \<in> KV" "v0 \<in> KV" "Compare vty v v0 = 0"
    and none: "tb_look rty KR b r = None" and flat: "set (rt_flat (tb_forest b')) = insert (v0, Some r) (set (rt_flat (tb_forest b)))"
  shows "tb_class rty KR vty KV b' = abs_include (same_key rty KR) (\<lambda>m v. True) (r, value_class vty KV v) (tb_class rty KR vty KV b)"
proof
  fix x
  have "tb_look rty KR b' x = (if same_key rty KR x r then Some v0 else tb_look rty KR b x)"
    by (rule unique_look_add [OF tb_unique_rows [OF b] r flat none])
  then show "tb_class rty KR vty KV b' x = abs_include (same_key rty KR) (\<lambda>m v. True) (r, value_class vty KV v) (tb_class rty KR vty KV b) x"
    using none value_class_eq [OF v] by (simp add: tb_class_def abs_include_def)
qed

lemma tb_Include_old:
  assumes b: "tb_inv rty KR vty KV b" and r: "r \<in> KR" and v: "v \<in> KV" and none: "tb_look rty KR b r = None"
    and rp: "GetPath (tb_rows b) r = Inr rp" "\<not> Match rp" and vp: "GetPath (rt_values (tb_forest b)) v = Inr vp" "Match vp"
  shows "\<exists>b'. tb_Include b r v = Inr (b', True) \<and> tb_inv rty KR vty KV b' \<and>
    tb_class rty KR vty KV b' = abs_include (same_key rty KR) (\<lambda>m v. True) (r, value_class vty KV v) (tb_class rty KR vty KV b)"
proof -
  note k = tb_K [OF b]
  let ?F = "tb_forest b"
  note f = rt_invD [OF k(1)]
  obtain v0 w where lk: "tree_lookup vty (contents (rt_values ?F)) v = Some (v0, w)"
    using val.GetPath_lookup [OF f(1) v] vp by (cases "tree_lookup vty (contents (rt_values ?F)) v") auto
  have e: "(v0, w) \<in> set (contents (rt_values ?F))" "Compare vty v v0 = 0" using val.lookup_iff [OF f(1) v, of "(v0, w)"] lk by simp_all
  obtain p where w: "w = Some p" using f(4) [OF e(1)] by blast
  have v0: "v0 \<in> KV" using val.contents_K [OF f(1) e(1)] by simp
  have loc: "(PathLeaf vp, v0, Some p) \<in> set (located (rt_values ?F))" using val.GetPath_located [OF f(1) v vp(1) lk] w by simp
  note abs = tb_rows_absent [OF b r none]
  have new: "\<forall>r'\<in>set (tree_rows (rt_trees ?F) p). Compare rty r r' \<noteq> 0" using abs(2) [of p v0] e(1) w by blast
  obtain F where F: "add_to_value ?F vp r = Inr F" "rt_inv rty KR vty KV F" "rt_values F = rt_values ?F"
    "rows_become (rt_trees ?F) (rt_trees F) p (insert r (set (tree_rows (rt_trees ?F) p)))"
    "set (rt_flat F) = insert (v0, Some r) (set (rt_flat ?F))"
    using rt_add [OF k(1) r v vp(1) lk [unfolded w] new] by blast
  obtain R m where R: "Insert (tb_rows b) rp r (PathLeaf vp) = Inr (R, m)" "btree_inv rty KR R" "keyOnly R = keyOnly (tb_rows b)"
    "set (contents R) = insert (slot (tb_rows b) r (PathLeaf vp)) (set (contents (tb_rows b)))"
    "length (contents R) = Suc (length (contents (tb_rows b)))"
    using row.Insert_map [OF k(2) r rp] by blast
  have slot: "slot (tb_rows b) r (PathLeaf vp) = (r, Some (PathLeaf vp))" using k(3) by (simp add: slot_def)
  let ?b = "b\<lparr>tb_forest := F, tb_rows := R, tb_total := tb_total b + 1\<rparr>"
  have "linked (set (contents R)) (tb_links F)"
    unfolding R(4) slot by (rule tb_link_old [OF b F(2,3) loc [folded F(3)] abs(1) F(4)])
  then have "tb_inv rty KR vty KV ?b" using b F(2,3) R(2,3,5) by (simp add: tb_inv_def)
  moreover have "tb_Include b r v = Inr (?b, True)" using rp vp F(1) R(1) by (simp add: tb_Include_def)
  moreover have "tb_class rty KR vty KV ?b = abs_include (same_key rty KR) (\<lambda>m v. True) (r, value_class vty KV v) (tb_class rty KR vty KV b)"
    by (rule tb_class_add [OF b r v v0 e(2) none]) (simp add: F(5))
  ultimately show ?thesis by blast
qed

lemma tb_Include_new:
  assumes b: "tb_inv rty KR vty KV b" and r: "r \<in> KR" and v: "v \<in> KV" and none: "tb_look rty KR b r = None"
    and rp: "GetPath (tb_rows b) r = Inr rp" "\<not> Match rp" and vp: "GetPath (rt_values (tb_forest b)) v = Inr vp" "\<not> Match vp"
  shows "\<exists>b'. tb_Include b r v = Inr (b', True) \<and> tb_inv rty KR vty KV b' \<and>
    tb_class rty KR vty KV b' = abs_include (same_key rty KR) (\<lambda>m v. True) (r, value_class vty KV v) (tb_class rty KR vty KV b)"
proof -
  note k = tb_K [OF b]
  let ?F = "tb_forest b" and ?p = "rt_next (tb_forest b)"
  obtain F1 F moved where F: "new_row_tree rty ?F r = Inr (?p, F1)" "insert_value F1 vp v ?p = Inr (F, moved)" "rt_inv rty KR vty KV F"
    "length (contents (rt_values F)) = Suc (length (contents (rt_values ?F)))"
    "rows_become (rt_trees ?F) (rt_trees F) ?p {r}" "set (rt_flat F) = insert (v, Some r) (set (rt_flat ?F))"
    "\<forall>b e w. (b, e, Some w) \<in> set (located (rt_values F)) \<longrightarrow> (w, b) \<in> set moved \<or>
      (b, e, Some w) \<in> set (located (rt_values ?F)) \<or> (e, w) = (v, ?p) \<and> b = PathLeaf vp"
    "\<forall>w b. (w, b) \<in> set moved \<longrightarrow> (\<exists>e. (b, e, Some w) \<in> set (located (rt_values F)))"
    using rt_new [OF k(1) r v vp] by (elim exE conjE) (rule that)
  obtain R m where R: "Insert (tb_rows b) rp r (PathLeaf vp) = Inr (R, m)" "btree_inv rty KR R" "keyOnly R = keyOnly (tb_rows b)"
    "set (contents R) = insert (slot (tb_rows b) r (PathLeaf vp)) (set (contents (tb_rows b)))"
    "length (contents R) = Suc (length (contents (tb_rows b)))"
    using row.Insert_map [OF k(2) r rp] by blast
  have slot: "slot (tb_rows b) r (PathLeaf vp) = (r, Some (PathLeaf vp))" using k(3) by (simp add: slot_def)
  have fresh: "(c, w, Some ?p) \<notin> set (located (rt_values ?F))" for c w
    using rt_fresh [OF k(1), of w] unfolding located_contents [OF rt_invD(1) [OF k(1)]] by force
  have u: "unique_rows rty KR (set (rt_flat F))" using unique_rows_insert [OF tb_unique_rows [OF b] r none] F(6) by simp
  obtain R' where R': "foldE (tb_ValuesMoved F) moved R = Inr R'" "btree_inv rty KR R'" "keyOnly R' = keyOnly R"
    "length (contents R') = length (contents R)" "linked (set (contents R')) (tb_links F)"
    using tb_link_new [OF b F(3) r tb_rows_absent(1) [OF b r none] F(5) fresh F(6,7,8) R(2) R(4) [unfolded slot] u] by blast
  let ?b = "b\<lparr>tb_forest := F, tb_rows := R', tb_unique := tb_unique b + 1, tb_total := tb_total b + 1\<rparr>"
  have "tb_inv rty KR vty KV ?b" using b F(3,4) R(3,5) R'(2-5) by (simp add: tb_inv_def)
  moreover have "tb_Include b r v = Inr (?b, True)" using rp vp F(1,2) R(1) R'(1) k(5) by (simp add: tb_Include_def)
  moreover have "tb_class rty KR vty KV ?b = abs_include (same_key rty KR) (\<lambda>m v. True) (r, value_class vty KV v) (tb_class rty KR vty KV b)"
    by (rule tb_class_add [OF b r v v val.cmp_refl [OF v] none]) (simp add: F(6))
  ultimately show ?thesis by blast
qed

lemma tb_Include_ok:
  assumes b: "tb_inv rty KR vty KV b" and r: "r \<in> KR" and v: "v \<in> KV"
  shows "\<exists>b' c. tb_Include b r v = Inr (b', c) \<and> tb_inv rty KR vty KV b' \<and>
    tb_class rty KR vty KV b' = abs_include (same_key rty KR) (\<lambda>m v. True) (r, value_class vty KV v) (tb_class rty KR vty KV b) \<and>
    (c \<longleftrightarrow> tb_class rty KR vty KV b r = None \<and> True)"
proof -
  note k = tb_K [OF b]
  obtain rp where rp: "GetPath (tb_rows b) r = Inr rp" "Match rp \<longleftrightarrow> tb_look rty KR b r \<noteq> None"
    using row.GetPath_lookup [OF k(2) r] tb_look_None_iff [OF b r] by auto
  obtain vp where vp: "GetPath (rt_values (tb_forest b)) v = Inr vp" using val.GetPath_lookup [OF rt_invD(1) [OF k(1)] v] by blast
  show ?thesis
  proof (cases "Match rp")
    case True
    then have "tb_Include b r v = Inr (b, False)" using rp(1) by (simp add: tb_Include_def)
    moreover have "tb_class rty KR vty KV b r \<noteq> None" using True rp(2) by (simp add: tb_class_def)
    ultimately show ?thesis using b by (auto simp: abs_include_def)
  next
    case False
    then have none: "tb_look rty KR b r = None" using rp(2) by simp
    then have "tb_class rty KR vty KV b r = None" by (simp add: tb_class_def)
    with tb_Include_old [OF b r v none rp(1) False vp] tb_Include_new [OF b r v none rp(1) False vp]
    show ?thesis by (cases "Match vp") auto
  qed
qed

text \<open>What the links are without one row.\<close>

lemma links_remove:
  assumes F: "rt_inv rty KR vty KV F" and in_v: "(v, Some p) \<in> set (contents (rt_values F))"
    and rb: "rows_become (rt_trees F) (rt_trees F') p (set (tree_rows (rt_trees F) p) - {r0})"
    and V: "if gone then set (tree_rows (rt_trees F) p) = {r0} \<and>
        set (located (rt_values F')) = {x \<in> set (located (rt_values F)). snd x \<noteq> (v, Some p)}
      else rt_values F' = rt_values F"
  shows "tb_links F' = {y \<in> tb_links F. snd y \<noteq> (v, Some r0)}"
proof (rule set_eqI)
  fix x :: "addr \<times> 'v \<times> 'r option"
  note f = rt_invD [OF F]
  obtain c w y where x: "x = (c, w, y)" by (cases x)
  have con: "(w, Some q) \<in> set (contents (rt_values F))" if "(c, w, Some q) \<in> set (located (rt_values F))" for q
    using that unfolding located_contents [OF f(1)] by force
  have p: "w = v \<longleftrightarrow> q = p" if "(c, w, Some q) \<in> set (located (rt_values F))" for q
    using con [OF that] in_v f(5) [of w p v] val.entry_one [OF f(1), of v "Some q" "Some p"] by blast
  show "x \<in> tb_links F' \<longleftrightarrow> x \<in> {y \<in> tb_links F. snd y \<noteq> (v, Some r0)}"
  proof (cases y)
    case None
    then show ?thesis using x by (simp add: spread_iff)
  next
    case (Some r')
    have L: "(c, w, Some q) \<in> set (located (rt_values F')) \<longleftrightarrow> (c, w, Some q) \<in> set (located (rt_values F)) \<and> (gone \<longrightarrow> q \<noteq> p)" for q
      using V p [of q] by (cases gone) auto
    have one: "gone \<longrightarrow> set (tree_rows (rt_trees F) p) = {r0}" using V by auto
    have "(c, w, Some r') \<in> tb_links F' \<longleftrightarrow> (\<exists>q. (c, w, Some q) \<in> set (located (rt_values F)) \<and> (gone \<longrightarrow> q \<noteq> p) \<and>
        (q = p \<and> r' \<in> set (tree_rows (rt_trees F) p) \<and> r' \<noteq> r0 \<or> q \<noteq> p \<and> r' \<in> set (tree_rows (rt_trees F) q)))"
      using spread_become [OF rb, of c w r' "set (located (rt_values F'))"] L by simp
    also have "\<dots> \<longleftrightarrow> (\<exists>q. (c, w, Some q) \<in> set (located (rt_values F)) \<and> r' \<in> set (tree_rows (rt_trees F) q) \<and> (q = p \<longrightarrow> r' \<noteq> r0))"
      using one by blast
    also have "\<dots> \<longleftrightarrow> (\<exists>q. (c, w, Some q) \<in> set (located (rt_values F)) \<and> r' \<in> set (tree_rows (rt_trees F) q)) \<and> (w = v \<longrightarrow> r' \<noteq> r0)"
      using p by blast
    finally show ?thesis unfolding x Some by (auto simp: spread_iff)
  qed
qed

lemma tb_class_remove:
  assumes b: "tb_inv rty KR vty KV b" and r: "r \<in> KR" and flat: "(v, Some r0) \<in> set (rt_flat (tb_forest b))" "Compare rty r r0 = 0"
    "set (rt_flat (tb_forest b')) = set (rt_flat (tb_forest b)) - {(v, Some r0)}"
  shows "tb_class rty KR vty KV b' = abs_exclude (same_key rty KR) r (tb_class rty KR vty KV b)"
proof
  fix x
  have "tb_look rty KR b' = abs_exclude (same_key rty KR) r (tb_look rty KR b)"
    by (rule unique_look_delete [OF tb_unique_rows [OF b] r flat])
  then show "tb_class rty KR vty KV b' x = abs_exclude (same_key rty KR) r (tb_class rty KR vty KV b) x"
    by (simp add: tb_class_def abs_exclude_def)
qed

lemma tb_Exclude_there:
  assumes b: "tb_inv rty KR vty KV b" and r: "r \<in> KR" and safe: "tb_safe b r" and Some: "tb_look rty KR b r = Some v"
  shows "\<exists>b'. tb_Exclude b r = Inr (b', True) \<and> tb_inv rty KR vty KV b' \<and>
    tb_class rty KR vty KV b' = abs_exclude (same_key rty KR) r (tb_class rty KR vty KV b)"
proof -
  note k = tb_K [OF b]
  let ?F = "tb_forest b"
  note f = rt_invD [OF k(1)] and get = tb_GetValuePtr_look [OF b r, unfolded Some]
  obtain r0 where r0: "(v, Some r0) \<in> set (rt_flat ?F)" "Compare rty r r0 = 0" using Some unique_look_iff [OF tb_unique_rows [OF b]] by blast
  obtain a p where a: "(r0, Some a) \<in> set (contents (tb_rows b))" "(a, v, Some p) \<in> set (located (rt_values ?F))"
    "r0 \<in> set (tree_rows (rt_trees ?F) p)" using tb_row [OF b r0(1)] by blast
  have in_v: "(v, Some p) \<in> set (contents (rt_values ?F))" using a(2) unfolding located_contents [OF f(1)] by force
  have v: "v \<in> KV" using val.contents_K [OF f(1) in_v] by simp
  have lk: "tree_lookup vty (contents (rt_values ?F)) v = Some (v, Some p)" using val.lookup_iff [OF f(1) v] in_v val.cmp_refl [OF v] by simp
  obtain vp where vp: "GetPath (rt_values ?F) v = Inr vp" "Match vp" "path_value (rt_values ?F) vp = Inr p"
    using val.GetPath_lookup [OF f(1) v] lk by auto
  have lr: "tree_lookup rty (contents (tb_rows b)) r = Some (r0, Some a)" using row.lookup_iff [OF k(2) r] a(1) r0(2) by simp
  obtain rp where rp: "GetPath (tb_rows b) r = Inr rp" "Match rp" using row.GetPath_lookup [OF k(2) r] lr by auto
  have s1: "\<forall>T. rt_trees ?F p = Some T \<longrightarrow> tree_safe T r \<and> (length (contents T) = 1 \<longrightarrow> stays (rt_values ?F) vp)"
    using safe get vp by (simp add: tb_safe_def tree_stays_def split: option.splits)
  obtain F gone where F: "remove_from_value ?F vp r = Inr (F, gone)" "rt_inv rty KR vty KV F"
    "set (rt_flat F) = set (rt_flat ?F) - {(v, Some r0)}"
    "rows_become (rt_trees ?F) (rt_trees F) p (set (tree_rows (rt_trees ?F) p) - {r0})"
    "if gone then set (tree_rows (rt_trees ?F) p) = {r0} \<and> length (contents (rt_values ?F)) = Suc (length (contents (rt_values F))) \<and>
       set (located (rt_values F)) = {x \<in> set (located (rt_values ?F)). snd x \<noteq> (v, Some p)}
     else rt_values F = rt_values ?F"
    using rt_remove [OF k(1) r v vp(1) lk a(3) r0(2) s1] by blast
  have "delete_safe (tb_rows b) rp" using safe rp by (simp add: tb_safe_def tree_safe_def)
  then obtain R where R: "Delete (tb_rows b) rp = Inr R" "btree_inv rty KR R" "keyOnly R = keyOnly (tb_rows b)"
    "set (contents R) = set (contents (tb_rows b)) - {(r0, Some a)}" "length (contents (tb_rows b)) = Suc (length (contents R))"
    using row.Delete_map [OF k(2) r rp] lr by auto
  let ?b = "b\<lparr>tb_forest := F, tb_rows := R, tb_unique := (if gone then tb_unique b - 1 else tb_unique b), tb_total := tb_total b - 1\<rparr>"
  have link: "(a, v, Some r0) \<in> tb_links ?F" using a(2,3) by (auto simp: spread_iff)
  have L: "tb_links F = {y \<in> tb_links ?F. snd y \<noteq> (v, Some r0)}" by (rule links_remove [OF k(1) in_v F(4)]) (use F(5) in \<open>auto split: if_splits\<close>)
  have "linked (set (contents R)) (tb_links F)"
    by (rule linked_delete [OF k(4) link L R(4)]) (use row.entry_one [OF k(2)] in blast)
  then have "tb_inv rty KR vty KV ?b" using b F(2,5) R(2,3,5) by (simp add: tb_inv_def split: if_splits)
  moreover have "tb_Exclude b r = Inr (?b, True)" using get rp vp(1,2) F(1) R(1) by (simp add: tb_Exclude_def tb_ExcludeValue_def)
  moreover have "tb_class rty KR vty KV ?b = abs_exclude (same_key rty KR) r (tb_class rty KR vty KV b)"
    by (rule tb_class_remove [OF b r r0]) (simp add: F(3))
  ultimately show ?thesis by blast
qed

lemma tb_Exclude_ok:
  assumes b: "tb_inv rty KR vty KV b" and r: "r \<in> KR" and safe: "tb_safe b r"
  shows "\<exists>b' c. tb_Exclude b r = Inr (b', c) \<and> tb_inv rty KR vty KV b' \<and>
    tb_class rty KR vty KV b' = abs_exclude (same_key rty KR) r (tb_class rty KR vty KV b) \<and> (c \<longleftrightarrow> tb_class rty KR vty KV b r \<noteq> None)"
proof (cases "tb_look rty KR b r")
  case None
  note k = tb_K [OF b]
  obtain rp where "GetPath (tb_rows b) r = Inr rp" "\<not> Match rp"
    using row.GetPath_lookup [OF k(2) r] tb_look_None_iff [OF b r] None by auto
  then have "tb_Exclude b r = Inr (b, False)"
    using tb_GetValuePtr_look [OF b r] None by (simp add: tb_Exclude_def tb_ExcludeValue_def)
  moreover have "tb_look rty KR b x = None" if "same_key rty KR x r" for x
    using fun_cong [OF unique_look_absent [OF tb_unique_rows [OF b] r None], of x] that by (simp add: abs_exclude_def)
  then have "abs_exclude (same_key rty KR) r (tb_class rty KR vty KV b) = tb_class rty KR vty KV b"
    by (intro ext) (simp add: abs_exclude_def tb_class_def)
  ultimately show ?thesis using b None by (auto simp: tb_class_def)
next
  case (Some v)
  with tb_Exclude_there [OF b r safe Some] show ?thesis by (auto simp: tb_class_def)
qed

end

sublocale column_types \<subseteq> multi: column_buffer "tb_inv rty KR vty KV" "tb_class rty KR vty KV" "same_key rty KR"
  "\<lambda>m v. True" KR "\<lambda>r v. v \<in> KV" tb_safe tb_Exclude tb_Include "value_class vty KV"
  by unfold_locales (fact tb_Include_ok, fact tb_Exclude_ok)

context column_types
begin

lemmas tb_apply_refines = multi.apply_refines

text \<open>The rows of a range.\<close>

lemma tb_get_rows:
  assumes "tb_inv rty KR vty KV b" "shallow (rt_values (tb_forest b))"
    and "bound_pointer vty (first rng) = Inr f" "bound_in KV f"
    and "bound_pointer vty (last_bound rng) = Inr l" "bound_in KV l"
    and "row_pointer rty (start_rowID rng) = Inr sid" "set_option sid \<subseteq> KR"
    and sk: "sk = Option.bind sid (tb_look rty KR b)" "sk = None \<longleftrightarrow> sid = None"
    and "sid = None \<or> (case f of None \<Rightarrow> True | Some (_, i) \<Rightarrow> i)"
    and "bounds_meet vty (ascending rng) (begin_bound sk f) l"
    and gs: "gs = map (group_of vty rty (rt_trees (tb_forest b)) (ascending rng) sid sk)
      (selected vty (ascending rng) (begin_bound sk f) l (contents (rt_values (tb_forest b))))"
  shows "\<exists>res. tb_GetRows b rng = Inr res \<and>
    valueRowsList res = map (wire_group vty rty) (limit_groups (id_limit (limit rng)) gs) \<and>
    (limited res \<longleftrightarrow> id_limit (limit rng) \<noteq> 0 \<and> id_limit (limit rng) \<le> group_size gs) \<and>
    (res_eof res \<longleftrightarrow> \<not> limited res \<and> (\<forall>e\<in>set (contents (rt_values (tb_forest b))). in_bound vty (\<not> ascending rng) l (fst e)))"
proof -
  note k = tb_K [OF assms(1)]
  have get: "\<forall>s\<in>set_option sid. tb_GetValuePtr b s = Inr (tb_look rty KR b s)"
    using tb_GetValuePtr_look [OF assms(1)] assms(8) by auto
  show ?thesis unfolding tb_GetRows_def rt_GetRows_def k(5,6) assms(3,5,7) bindE_simps
    by (rule rt_scan [OF k(1) assms(2) tb_unique_rows [OF assms(1)] assms(4,6,8) sk get assms(11,12) gs])
qed

end

section \<open>Properties\<close>

text \<open>
  C31. Writes to a column whose rows share values: if the excludes are safe one after the other
  (the deletion from the tree of rows is \<open>delete_safe\<close>, no leaf of the key-only tree
  of rows of the value underflows, and when the last row of a value goes, no leaf of values is
  rebalanced), then \<open>Apply\<close> succeeds, keeps every row pointing to the leaf of its
  value and every value holding its rows, and acts as excludes and includes on a partial map from
  rows to values up to equality in the order of values. The cells parse, and their rows and values
  lie in the range on which the types are ordered.
\<close>

theorem tb_Apply_refines:
  assumes "column_types rty KR vty KV" "tb_inv rty KR vty KV b"
    and "list_all2 (\<lambda>x r. GetPointer rty (cell_rowID x) = Inr r) (cw_excludes w) rs" "set rs \<subseteq> KR"
    and "all_safe tb_safe tb_Exclude b rs"
    and "list_all2 (\<lambda>x p. GetPointer rty (cell_rowID x) = Inr (fst p) \<and> GetPointer vty (cell_value x) = Inr (snd p)) (cw_includes w) ps"
    and "\<forall>(r, v)\<in>set ps. r \<in> KR \<and> v \<in> KV"
  shows "\<exists>b'. tb_Apply b w = Inr b' \<and> tb_inv rty KR vty KV b' \<and> tb_class rty KR vty KV b' =
    fold (\<lambda>(r, v). abs_include (same_key rty KR) (\<lambda>m v. True) (r, value_class vty KV v)) ps
      (fold (abs_exclude (same_key rty KR)) rs (tb_class rty KR vty KV b))"
proof -
  have "tb_rowType b = rty" "tb_valueType b = vty" using assms(2) by (simp_all add: tb_inv_def)
  then show ?thesis unfolding tb_Apply_def using column_types.tb_apply_refines [OF assms] by simp
qed

definition sample_trees :: "(64 word, 64 word) RowTrees" where
  "sample_trees = \<lparr>rt_values = leaf_tree LongType False [(5, Some 0), (8, Some 1)],
     rt_trees = [0 \<mapsto> leaf_tree LongType True [(4, None)], 1 \<mapsto> leaf_tree LongType True [(3, None), (6, None)]], rt_next = 2\<rparr>"

definition sample_multi :: "(64 word, 64 word) TreeBuffer" where
  "sample_multi = \<lparr>tb_rowType = LongType, tb_valueType = LongType,
     tb_rows = leaf_tree LongType False [(3, Some 0), (4, Some 0), (6, Some 0)], tb_forest = sample_trees, tb_unique = 2, tb_total = 3\<rparr>"

lemma sample_trees_inv: "rt_inv LongType half_range LongType half_range sample_trees"
  unfolding rt_inv_def sample_trees_def
  by (auto simp: leaf_tree_inv LongType_def LongCompare_def half_range_def owned_def split: if_splits)

lemma sample_links: "tb_links sample_trees = {(0, 5, Some 4), (0, 8, Some 3), (0, 8, Some 6)}"
  by (auto simp: spread_def sample_trees_def leaf_tree_located tree_rows_def)

lemma sample_multi_inv: "tb_inv LongType half_range LongType half_range sample_multi"
proof -
  have "linked (set (contents (tb_rows sample_multi))) (tb_links sample_trees)"
    unfolding sample_links by (auto simp: linked_def sample_multi_def)
  moreover have "contents (rt_values sample_trees) = [(5, Some 0), (8, Some 1)]" by (simp add: sample_trees_def)
  moreover have "btree_inv LongType half_range (tb_rows sample_multi)"
    unfolding sample_multi_def by (auto simp: leaf_tree_inv LongType_def LongCompare_def half_range_def)
  ultimately show ?thesis using sample_trees_inv by (simp add: tb_inv_def sample_multi_def)
qed

lemma sample_flat: "rt_flat sample_trees = [(5, Some 4), (8, Some 3), (8, Some 6)]"
  by (simp add: rt_flat_def sample_trees_def tree_rows_def)

theorem tb_Apply_refines_witness:
  "\<exists>b'. tb_Apply sample_multi \<lparr>cw_includes = [\<lparr>cell_rowID = long 5, cell_value = long 8\<rparr>, \<lparr>cell_rowID = long 3, cell_value = long 5\<rparr>],
       cw_excludes = [\<lparr>cell_rowID = long 4, cell_value = []\<rparr>]\<rparr> = Inr b' \<and>
     tb_inv LongType half_range LongType half_range b' \<and>
     tb_class LongType half_range LongType half_range b' 5 = tb_class LongType half_range LongType half_range b' 3 \<and>
     tb_class LongType half_range LongType half_range b' 4 = None"
proof -
  let ?w = "\<lparr>cw_includes = [\<lparr>cell_rowID = long 5, cell_value = long 8\<rparr>, \<lparr>cell_rowID = long 3, cell_value = long 5\<rparr>],
    cw_excludes = [\<lparr>cell_rowID = long 4, cell_value = []\<rparr>]\<rparr>"
  let ?c = "tb_class LongType half_range LongType half_range" and ?same = "same_key LongType half_range"
  have safe: "all_safe tb_safe tb_Exclude sample_multi [4]" by code_simp
  have same: "?same 4 4" "\<not> ?same 3 4" "\<not> ?same 5 4" "\<not> ?same 4 5" "\<not> ?same 3 5" "?same 5 5"
    by (simp_all add: same_key_def LongType_def LongCompare_def half_range_def)
  have look: "?c sample_multi 3 = Some (value_class LongType half_range 8)" "?c sample_multi 5 = None"
    by (simp_all add: tb_class_def unique_look_def row_lookup_def sample_flat sample_multi_def LongType_def LongCompare_def half_range_def)
  obtain b' where b': "tb_Apply sample_multi ?w = Inr b'" "tb_inv LongType half_range LongType half_range b'"
    "?c b' = fold (\<lambda>(r, v). abs_include ?same (\<lambda>m v. True) (r, value_class LongType half_range v)) [(5, 8), (3, 5)]
      (fold (abs_exclude ?same) [4] (?c sample_multi))"
    using tb_Apply_refines [OF long_long.column_types_axioms sample_multi_inv, of ?w "[4]" "[(5, 8), (3, 5)]"] safe sample_keys
    by (auto simp: half_range_def)
  show ?thesis by (rule exI [of _ b']) (use b' look same in \<open>simp add: abs_include_def abs_exclude_def\<close>)
qed

text \<open>
  C32. Range queries on a column whose rows share values: on a shallow tree of values (at most one
  level of branches), for a start row, if one is given, that is in the column and a first bound
  that is then absent or inclusive, and for a begin (the value of the start row, if one is given)
  and an end that meet, \<open>GetRows\<close> returns the values between the bounds, each with
  its rows, in order; the rows of the first value begin behind the start row; the rows are cut
  when their number reaches the limit; and limited is set exactly when the limit was reached and
  eof exactly when it was not and every value lies within the end bound. Bounds and start row
  parse and lie in the ranges on which the types are ordered.
\<close>

theorem tb_GetRows_correct:
  assumes "column_types rty KR vty KV" "tb_inv rty KR vty KV b" "shallow (rt_values (tb_forest b))"
    and "bound_pointer vty (first rng) = Inr f" "bound_in KV f"
    and "bound_pointer vty (last_bound rng) = Inr l" "bound_in KV l"
    and "row_pointer rty (start_rowID rng) = Inr sid" "set_option sid \<subseteq> KR"
    and sk: "sk = Option.bind sid (tb_look rty KR b)" "sk = None \<longleftrightarrow> sid = None"
    and "sid = None \<or> (case f of None \<Rightarrow> True | Some (_, i) \<Rightarrow> i)"
    and "bounds_meet vty (ascending rng) (begin_bound sk f) l"
    and gs: "gs = map (group_of vty rty (rt_trees (tb_forest b)) (ascending rng) sid sk)
      (selected vty (ascending rng) (begin_bound sk f) l (contents (rt_values (tb_forest b))))"
  shows "\<exists>res. tb_GetRows b rng = Inr res \<and>
    valueRowsList res = map (wire_group vty rty) (limit_groups (id_limit (limit rng)) gs) \<and>
    (limited res \<longleftrightarrow> id_limit (limit rng) \<noteq> 0 \<and> id_limit (limit rng) \<le> group_size gs) \<and>
    (res_eof res \<longleftrightarrow> \<not> limited res \<and> (\<forall>e\<in>set (contents (rt_values (tb_forest b))). in_bound vty (\<not> ascending rng) l (fst e)))"
  using column_types.tb_get_rows [OF assms] .

theorem tb_GetRows_correct_witness:
  "\<exists>res. tb_GetRows sample_multi \<lparr>ascending = True, limit = 5, first = None,
      last_bound = Some \<lparr>boundValue = long 8, inclusive = True\<rparr>, start_rowID = Some (long 3)\<rparr> = Inr res \<and>
     valueRowsList res = [\<lparr>vrValue = long 8, vrRowIDs = [long 6]\<rparr>] \<and> \<not> limited res \<and> res_eof res"
proof -
  let ?r = "\<lparr>ascending = True, limit = 5, first = None,
    last_bound = Some \<lparr>boundValue = long 8, inclusive = True\<rparr>, start_rowID = Some (long 3)\<rparr>"
  have p: "shallow (rt_values (tb_forest sample_multi))" "bound_pointer LongType (first ?r) = Inr None"
    "bound_pointer LongType (last_bound ?r) = Inr (Some (8, True))" "row_pointer LongType (start_rowID ?r) = Inr (Some 3)"
    by (simp_all add: sample_multi_def sample_trees_def bound_pointer_def row_pointer_def)
  have k: "bound_in half_range (None :: (64 word \<times> bool) option)" "bound_in half_range (Some (8 :: 64 word, True))"
    "set_option (Some (3 :: 64 word)) \<subseteq> half_range" by (simp_all add: half_range_def)
  have sk: "Some 8 = Option.bind (Some 3) (tb_look LongType half_range sample_multi)" "Some (8 :: 64 word) = None \<longleftrightarrow> Some (3 :: 64 word) = None"
    by (simp_all add: unique_look_def row_lookup_def sample_flat sample_multi_def LongType_def LongCompare_def half_range_def)
  have i: "Some (3 :: 64 word) = None \<or> (case (None :: (64 word \<times> bool) option) of None \<Rightarrow> True | Some (_, i) \<Rightarrow> i)" by simp
  have m: "bounds_meet LongType (ascending ?r) (begin_bound (Some 8) None) (Some (8, True))" by code_simp
  have gs: "[(8, [6])] = map (group_of LongType LongType (rt_trees (tb_forest sample_multi)) (ascending ?r) (Some 3) (Some 8))
      (selected LongType (ascending ?r) (begin_bound (Some 8) None) (Some (8, True)) (contents (rt_values (tb_forest sample_multi))))"
    by code_simp
  have "id_limit 5 = 5" "wire_group LongType LongType (8, [6]) = \<lparr>vrValue = long 8, vrRowIDs = [long 6]\<rparr>"
    "\<forall>e\<in>set (contents (rt_values (tb_forest sample_multi))). in_bound LongType False (Some (8, True)) (fst e)" by code_simp+
  with tb_GetRows_correct [OF long_long.column_types_axioms sample_multi_inv p(1,2) k(1) p(3) k(2) p(4) k(3) sk i m gs]
  show ?thesis by (auto simp: limit_groups_def)
qed

end
