(* ===== verification/Schema.thy ===== *)
theory Schema
  imports Scalar
begin

text \<open>
  The schema of a database: column definitions (\<open>Buffer/ColumnDef.h\<close>), the column numbers
  of the system tables (\<open>Schema/Dictionary.cpp\<close>), and the encoding of the values the client
  stores in them (\<open>FastoreClient/Encoder.h\<close>).
\<close>

section \<open>Encoding\<close>

text \<open>
  \<open>Encoder<T>\<close> copies the bytes of a value. \<open>Decode\<close> reads \<open>sizeof(T)\<close> bytes whatever the
  length of the string. Column, host and pod numbers are 64-bit, the numbers of buffer types
  32-bit integers.
\<close>

definition Encode_long :: "int \<Rightarrow> string" where
  "Encode_long x = le_bytes 8 (unat (word_of_int x :: 64 word))"

definition Decode_long :: "string \<Rightarrow> err + int" where
  "Decode_long s = bindE (GetPointerFromString 8 s) (\<lambda>w. Inr (sint (w :: 64 word)))"

definition Encode_int :: "int \<Rightarrow> string" where
  "Encode_int x = le_bytes 4 (unat (word_of_int x :: 32 word))"

definition Decode_int :: "string \<Rightarrow> err + int" where
  "Decode_int s = bindE (GetPointerFromString 4 s) (\<lambda>w. Inr (sint (w :: 32 word)))"

definition Encode_bool :: "bool \<Rightarrow> string" where
  "Encode_bool b = [char_of (if b then 1 else 0 :: nat)]"

definition Decode_bool :: "string \<Rightarrow> err + bool" where
  "Decode_bool s = (case s of [] \<Rightarrow> Inl OutOfBounds | c # _ \<Rightarrow> Inr (of_char c \<noteq> (0 :: nat)))"

section \<open>Column definitions\<close>

datatype BufferType_t = Identity | Unique | Multi

record ColumnDef =
  def_ColumnID :: int
  def_Name :: string
  def_ValueTypeName :: string
  def_RowIDTypeName :: string
  def_BufferType :: BufferType_t
  def_Required :: bool

type_synonym Schema = "int \<rightharpoonup> ColumnDef"

fun BufferType_number :: "BufferType_t \<Rightarrow> int" where
  "BufferType_number Identity = 0"
| "BufferType_number Unique = 1"
| "BufferType_number Multi = 2"

text \<open>
  A number outside the enumeration is neither \<open>Identity\<close> nor \<open>Unique\<close>; the buffer factory, the
  only reader of the type of a stored column, treats it as \<open>Multi\<close>.
\<close>

definition BufferType_of :: "int \<Rightarrow> BufferType_t" where
  "BufferType_of n = (if n = 0 then Identity else if n = 1 then Unique else Multi)"

text \<open>
  The row of a column in the column table: number, name, value type, row type, buffer type,
  required. \<open>decode_def\<close> is how every reader of the table builds a definition from it,
  \<open>encode_def\<close> how it is written when a table is created (FastoreModule/Module.h).
\<close>

definition decode_def :: "string list \<Rightarrow> err + ColumnDef" where
  "decode_def row =
     bindE (nthE row 0) (\<lambda>c0. bindE (Decode_long c0) (\<lambda>cid.
     bindE (nthE row 1) (\<lambda>name. bindE (nthE row 2) (\<lambda>vty. bindE (nthE row 3) (\<lambda>rty.
     bindE (nthE row 4) (\<lambda>c4. bindE (Decode_int c4) (\<lambda>bt.
     bindE (nthE row 5) (\<lambda>c5. bindE (Decode_bool c5) (\<lambda>req.
       Inr \<lparr>def_ColumnID = cid, def_Name = name, def_ValueTypeName = vty, def_RowIDTypeName = rty,
            def_BufferType = BufferType_of bt, def_Required = req\<rparr>)))))))))"

definition encode_def :: "ColumnDef \<Rightarrow> string list" where
  "encode_def d =
     [Encode_long (def_ColumnID d), def_Name d, def_ValueTypeName d, def_RowIDTypeName d,
      Encode_int (BufferType_number (def_BufferType d)), Encode_bool (def_Required d)]"

section \<open>System columns\<close>

definition MaxSystemColumnID :: int where "MaxSystemColumnID = 9999"
definition MaxClientColumnID :: int where "MaxClientColumnID = 19999"
definition TopologyID :: int where "TopologyID = 100"
definition HostID :: int where "HostID = 200"
definition PodID :: int where "PodID = 300"
definition PodHostID :: int where "PodHostID = 301"
definition PodColumnPodID :: int where "PodColumnPodID = 400"
definition PodColumnColumnID :: int where "PodColumnColumnID = 401"

definition ColumnColumns :: "int list" where "ColumnColumns = [0, 1, 2, 3, 4, 5]"
definition TopologyColumns :: "int list" where "TopologyColumns = [TopologyID]"
definition HostColumns :: "int list" where "HostColumns = [HostID]"
definition TablePodColumns :: "int list" where "TablePodColumns = [PodID, PodHostID]"
definition PodColumnColumns :: "int list" where "PodColumnColumns = [PodColumnPodID, PodColumnColumnID]"

section \<open>Round trips\<close>

lemma word_bytes:
  assumes "LENGTH('a) = 8 * n"
  shows "GetPointerFromString n (le_bytes n (unat (w :: 'a::len word))) = Inr w"
  using wire_round_trip [OF assms, of w] by (simp add: CopyOutOfArray_def)

lemma Decode_Encode_long: "- (2 ^ 63) \<le> x \<Longrightarrow> x < 2 ^ 63 \<Longrightarrow> Decode_long (Encode_long x) = Inr x"
  by (simp add: Encode_long_def Decode_long_def word_bytes sint_sbintrunc' signed_take_bit_int_eq_self)

lemma Decode_Encode_int: "- (2 ^ 31) \<le> x \<Longrightarrow> x < 2 ^ 31 \<Longrightarrow> Decode_int (Encode_int x) = Inr x"
  by (simp add: Encode_int_def Decode_int_def word_bytes sint_sbintrunc' signed_take_bit_int_eq_self)

lemma Decode_Encode_bool [simp]: "Decode_bool (Encode_bool b) = Inr b"
  by (simp add: Encode_bool_def Decode_bool_def)

lemma BufferType_round_trip:
  "Decode_int (Encode_int (BufferType_number t)) = Inr (BufferType_number t)" "BufferType_of (BufferType_number t) = t"
  by (cases t; simp add: Decode_Encode_int BufferType_of_def)+

text \<open>
  C27. Column definitions: the row that describes a column in the column table is read back as
  the same definition.
\<close>

theorem decode_encode_def:
  assumes "- (2 ^ 63) \<le> def_ColumnID d" "def_ColumnID d < 2 ^ 63"
  shows "decode_def (encode_def d) = Inr d"
  using Decode_Encode_long [OF assms] BufferType_round_trip
  by (simp add: decode_def_def encode_def_def nthE_def)

theorem decode_encode_def_witness:
  "decode_def (encode_def \<lparr>def_ColumnID = 10001, def_Name = ''Name'', def_ValueTypeName = ''String'',
     def_RowIDTypeName = ''Long'', def_BufferType = Multi, def_Required = True\<rparr>)
   = Inr \<lparr>def_ColumnID = 10001, def_Name = ''Name'', def_ValueTypeName = ''String'',
     def_RowIDTypeName = ''Long'', def_BufferType = Multi, def_Required = True\<rparr>"
  by (rule decode_encode_def) simp_all

end
