(* ===== verification/ColumnBuffer.thy ===== *)
theory ColumnBuffer
  imports TreeBuffer Schema
begin

text \<open>
  The interface \<open>IColumnBuffer\<close> through which the rest of the program uses the buffers: a
  table of operations over a buffer state, the contract a log of includes relies on, seen
  through strings, and the table of the buffer a log holds, that of repeated values.
\<close>

record 'b IColumnBuffer =
  cb_Apply :: "'b \<Rightarrow> ColumnWrites \<Rightarrow> err + 'b"
  cb_GetRows :: "'b \<Rightarrow> RangeRequest \<Rightarrow> err + RangeResult"
  cb_GetValues :: "'b \<Rightarrow> string list \<Rightarrow> err + OptionalValue list"
  cb_GetValue :: "'b \<Rightarrow> string \<Rightarrow> err + OptionalValue"
  cb_GetStatistic :: "'b \<Rightarrow> Statistic"
  cb_CompareRow :: "'b \<Rightarrow> string \<Rightarrow> string \<Rightarrow> err + int"
  cb_CompareValue :: "'b \<Rightarrow> string \<Rightarrow> string \<Rightarrow> err + int"

text \<open>\<open>BufferFactory::CreateBuffer\<close> by the names of the value type and the row type.\<close>

type_synonym 'b factory = "string \<Rightarrow> string \<Rightarrow> BufferType_t \<Rightarrow> err + 'b"

text \<open>
  \<open>Compare\<close> called on the \<open>data()\<close> of two strings, as callers outside the buffers do. For the
  types of fixed size the data is what \<open>GetPointer\<close> reads; for strings the characters are
  taken for a string object.
\<close>

definition compare_data :: "'k ScalarType \<Rightarrow> string \<Rightarrow> string \<Rightarrow> err + int" where
  "compare_data ty a b =
     (if TypeName ty \<in> {''String'', ''WString''} then Inl BadPointer
      else bindE (GetPointer ty a) (\<lambda>x. bindE (GetPointer ty b) (\<lambda>y. Inr (Compare ty x y))))"

definition single_include :: "string \<Rightarrow> string \<Rightarrow> ColumnWrites" where
  "single_include rowId value = \<lparr>cw_includes = [\<lparr>cell_rowID = rowId, cell_value = value\<rparr>], cw_excludes = []\<rparr>"

text \<open>
  The contract of a buffer behind the interface: it stands for a partial map from row ids to
  values, \<open>GetValue\<close> reads the map, and the include of one cell adds the cell where the row
  has no value, up to values that compare equal.
\<close>

locale include_log =
  fixes vt :: "'b IColumnBuffer" and inv :: "'b \<Rightarrow> bool" and look :: "'b \<Rightarrow> string \<Rightarrow> string option"
    and rowids :: "string set" and vals :: "'b \<Rightarrow> string set" and same :: "string \<Rightarrow> string \<Rightarrow> bool"
    and eqv :: "'b \<Rightarrow> string \<Rightarrow> string \<Rightarrow> bool"
  assumes get: "inv s \<Longrightarrow> r \<in> rowids \<Longrightarrow> cb_GetValue vt s r = Inr (look s r)"
    and put: "inv s \<Longrightarrow> r \<in> rowids \<Longrightarrow> v \<in> vals s \<Longrightarrow> \<exists>s'. cb_Apply vt s (single_include r v) = Inr s' \<and> inv s' \<and>
      (\<forall>x\<in>rowids. rel_option (eqv s) (look s' x) (if look s r = None \<and> same x r then Some v else look s x))"
    and same_refl: "r \<in> rowids \<Longrightarrow> same r r"

section \<open>Repeated values behind the interface\<close>

definition tb_table :: "('r, 'v) TreeBuffer IColumnBuffer" where
  "tb_table =
     \<lparr>cb_Apply = tb_Apply, cb_GetRows = tb_GetRows, cb_GetValues = tb_GetValues, cb_GetValue = tb_GetValue,
      cb_GetStatistic = tb_GetStatistic, cb_CompareRow = (\<lambda>b. compare_data (tb_rowType b)),
      cb_CompareValue = (\<lambda>b. compare_data (tb_valueType b))\<rparr>"

text \<open>A column map over keys, seen through the strings that encode the keys.\<close>

definition read_key :: "'k ScalarType \<Rightarrow> string \<Rightarrow> 'k" where
  "read_key ty s = (case GetPointer ty s of Inl e \<Rightarrow> undefined | Inr k \<Rightarrow> k)"

definition wire_rows :: "'r ScalarType \<Rightarrow> 'r set \<Rightarrow> string set" where
  "wire_rows rty KR = {s. \<exists>r\<in>KR. GetPointer rty s = Inr r}"

definition wire_vals :: "'v ScalarType \<Rightarrow> 'v set \<Rightarrow> string set" where
  "wire_vals vty KV = {s. \<exists>v\<in>KV. GetPointer vty s = Inr v \<and> CopyOut vty v = Inr s}"

definition wire_look :: "'r ScalarType \<Rightarrow> 'v ScalarType \<Rightarrow> ('r \<Rightarrow> 'v option) \<Rightarrow> string \<Rightarrow> string option" where
  "wire_look rty vty m s = map_option (wire vty) (m (read_key rty s))"

definition wire_same :: "'r ScalarType \<Rightarrow> string \<Rightarrow> string \<Rightarrow> bool" where
  "wire_same rty a b \<longleftrightarrow> Compare rty (read_key rty a) (read_key rty b) = 0"

lemma wire_rowsD: "s \<in> wire_rows rty KR \<Longrightarrow> GetPointer rty s = Inr (read_key rty s) \<and> read_key rty s \<in> KR"
  by (auto simp: wire_rows_def read_key_def)

lemma wire_valsD:
  assumes "s \<in> wire_vals vty KV"
  shows "GetPointer vty s = Inr (read_key vty s)" "read_key vty s \<in> KV" "wire vty (read_key vty s) = s"
  using assms by (auto simp: wire_vals_def read_key_def wire_def)

definition wire_eq :: "'v ScalarType \<Rightarrow> string \<Rightarrow> string \<Rightarrow> bool" where
  "wire_eq vty a b \<longleftrightarrow> Compare vty (read_key vty a) (read_key vty b) = 0"

text \<open>
  A buffer of repeated values with rows of one type; its values may be of any type that keeps
  the laws of a type.
\<close>

definition tb_log_inv :: "'r ScalarType \<Rightarrow> 'r set \<Rightarrow> ('r, 'v) TreeBuffer \<Rightarrow> bool" where
  "tb_log_inv rty KR b \<longleftrightarrow> (\<exists>KV. wire_type (tb_valueType b) KV \<and> tb_inv rty KR (tb_valueType b) KV b)"

definition tb_log_vals :: "'r ScalarType \<Rightarrow> 'r set \<Rightarrow> ('r, 'v) TreeBuffer \<Rightarrow> string set" where
  "tb_log_vals rty KR b =
     {s. \<exists>KV. wire_type (tb_valueType b) KV \<and> tb_inv rty KR (tb_valueType b) KV b \<and> s \<in> wire_vals (tb_valueType b) KV}"

definition tb_log_look :: "'r ScalarType \<Rightarrow> 'r set \<Rightarrow> ('r, 'v) TreeBuffer \<Rightarrow> string \<Rightarrow> string option" where
  "tb_log_look rty KR b = wire_look rty (tb_valueType b) (tb_look rty KR b)"

context column_types
begin

lemma tb_look_K: "tb_inv rty KR vty KV b \<Longrightarrow> tb_look rty KR b x = Some v \<Longrightarrow> v \<in> KV"
proof -
  assume b: "tb_inv rty KR vty KV b" and look: "tb_look rty KR b x = Some v"
  obtain r where "(v, Some r) \<in> set (rt_flat (tb_forest b))" using unique_look_iff [OF tb_unique_rows [OF b]] look by blast
  then obtain p where "(v, Some p) \<in> set (contents (rt_values (tb_forest b)))"
    unfolding rt_flat_iff by blast
  then show "v \<in> KV" using val.contents_K [OF rt_invD(1) [OF tb_K(1) [OF b]], of "(v, Some p)"] by simp
qed

lemma read_wire: "v \<in> KV \<Longrightarrow> read_key vty (wire vty v) = v"
proof -
  assume v: "v \<in> KV"
  obtain w where "CopyOut vty v = Inr w" using val.CopyOut_total [OF v] by blast
  with val.wire [OF v] show ?thesis by (simp add: read_key_def wire_def)
qed

lemma tb_GetValue_wire:
  assumes "tb_inv rty KR vty KV b" "s \<in> wire_rows rty KR"
  shows "tb_GetValue b s = Inr (wire_look rty vty (tb_look rty KR b) s)"
proof -
  have s: "GetPointer rty s = Inr (read_key rty s)" "read_key rty s \<in> KR" using wire_rowsD [OF assms(2)] by simp_all
  note ty = tb_K(5,6) [OF assms(1)] and get = tb_GetValuePtr_look [OF assms(1) s(2)]
  show ?thesis
  proof (cases "tb_look rty KR b (read_key rty s)")
    case None
    with s get ty show ?thesis by (simp add: tb_GetValue_def wire_look_def)
  next
    case (Some v)
    then obtain w where "CopyOut vty v = Inr w" using val.CopyOut_total tb_look_K [OF assms(1)] by blast
    with Some s get ty show ?thesis by (simp add: tb_GetValue_def wire_look_def wire_def)
  qed
qed

lemma tb_Apply_single:
  assumes b: "tb_inv rty KR vty KV b" and r: "r \<in> wire_rows rty KR" and v: "v \<in> wire_vals vty KV"
  shows "\<exists>b'. tb_Apply b (single_include r v) = Inr b' \<and> tb_inv rty KR vty KV b' \<and>
    tb_class rty KR vty KV b' =
      abs_include (same_key rty KR) (\<lambda>m v. True) (read_key rty r, value_class vty KV (read_key vty v)) (tb_class rty KR vty KV b)"
proof -
  let ?w = "single_include r v" and ?p = "(read_key rty r, read_key vty v)"
  have "list_all2 (\<lambda>x r. GetPointer rty (cell_rowID x) = Inr r) (cw_excludes ?w) []"
    "list_all2 (\<lambda>x p. GetPointer rty (cell_rowID x) = Inr (fst p) \<and> GetPointer vty (cell_value x) = Inr (snd p)) (cw_includes ?w) [?p]"
    "\<forall>(r, v)\<in>set [?p]. r \<in> KR \<and> v \<in> KV"
    using wire_rowsD [OF r] wire_valsD(1,2) [OF v] by (simp_all add: single_include_def)
  from tb_apply_refines [OF b this(1) _ _ this(2,3)] show ?thesis
    unfolding tb_Apply_def tb_K(5,6) [OF b] by simp
qed

lemma class_eqv:
  assumes "map_option (value_class vty KV) a = map_option (value_class vty KV) c" "set_option a \<subseteq> KV" "set_option c \<subseteq> KV"
  shows "rel_option (wire_eq vty) (map_option (wire vty) a) (map_option (wire vty) c)"
proof (cases a; cases c)
  fix v w assume a: "a = Some v" and c: "c = Some w"
  then have K: "v \<in> KV" "w \<in> KV" and "value_class vty KV v = value_class vty KV w" using assms by simp_all
  moreover have "w \<in> value_class vty KV w" using K val.cmp_refl by (simp add: value_class_def)
  ultimately have "Compare vty v w = 0" by (auto simp: value_class_def)
  then show ?thesis using a c K by (simp add: wire_eq_def read_wire)
qed (use assms in auto)

lemma tb_include_wire:
  assumes b: "tb_inv rty KR vty KV b" and r: "r \<in> wire_rows rty KR" and v: "v \<in> wire_vals vty KV"
  shows "\<exists>b'. tb_Apply b (single_include r v) = Inr b' \<and> tb_inv rty KR vty KV b' \<and>
    (\<forall>x\<in>wire_rows rty KR. rel_option (wire_eq vty) (wire_look rty vty (tb_look rty KR b') x)
      (if wire_look rty vty (tb_look rty KR b) r = None \<and> wire_same rty x r then Some v else wire_look rty vty (tb_look rty KR b) x))"
proof -
  let ?k = "read_key rty" and ?v = "read_key vty v"
  obtain b' where b': "tb_Apply b (single_include r v) = Inr b'" "tb_inv rty KR vty KV b'"
    "tb_class rty KR vty KV b' = abs_include (same_key rty KR) (\<lambda>m v. True) (?k r, value_class vty KV ?v) (tb_class rty KR vty KV b)"
    using tb_Apply_single [OF b r v] by blast
  note v' = wire_valsD [OF v]
  have "rel_option (wire_eq vty) (wire_look rty vty (tb_look rty KR b') x)
      (if wire_look rty vty (tb_look rty KR b) r = None \<and> wire_same rty x r then Some v else wire_look rty vty (tb_look rty KR b) x)"
    if x: "x \<in> wire_rows rty KR" for x
  proof -
    let ?new = "if tb_look rty KR b (?k r) = None \<and> wire_same rty x r then Some ?v else tb_look rty KR b (?k x)"
    have "same_key rty KR (?k x) (?k r) \<longleftrightarrow> wire_same rty x r"
      using wire_rowsD [OF x] by (simp add: same_key_def wire_same_def)
    then have "map_option (value_class vty KV) (tb_look rty KR b' (?k x)) = map_option (value_class vty KV) ?new"
      using fun_cong [OF b'(3), of "?k x"] by (simp add: tb_class_def abs_include_def)
    moreover have "set_option (tb_look rty KR b' (?k x)) \<subseteq> KV" using tb_look_K [OF b'(2)] by auto
    moreover have "set_option ?new \<subseteq> KV" using tb_look_K [OF b] v'(2) by (auto split: if_splits)
    ultimately have "rel_option (wire_eq vty) (map_option (wire vty) (tb_look rty KR b' (?k x))) (map_option (wire vty) ?new)"
      by (rule class_eqv)
    then show ?thesis using v'(3)
      by (cases "tb_look rty KR b (?k r) = None \<and> wire_same rty x r") (auto simp: wire_look_def)
  qed
  with b'(1,2) show ?thesis by blast
qed

end

lemma tb_include_log:
  assumes "wire_type rty KR"
  shows "include_log tb_table (tb_log_inv rty KR) (tb_log_look rty KR) (wire_rows rty KR) (tb_log_vals rty KR) (wire_same rty)
    (\<lambda>b. wire_eq (tb_valueType b))"
proof
  fix b :: "('a, 'b) TreeBuffer" and r v
  assume r: "r \<in> wire_rows rty KR"
  show "cb_GetValue tb_table b r = Inr (tb_log_look rty KR b r)" if b: "tb_log_inv rty KR b"
  proof -
    obtain KV where KV: "wire_type (tb_valueType b) KV" "tb_inv rty KR (tb_valueType b) KV b" using b by (auto simp: tb_log_inv_def)
    show ?thesis
      using column_types.tb_GetValue_wire [OF column_types.intro [OF assms KV(1)] KV(2) r] by (simp add: tb_table_def tb_log_look_def)
  qed
  show "\<exists>s'. cb_Apply tb_table b (single_include r v) = Inr s' \<and> tb_log_inv rty KR s' \<and>
      (\<forall>x\<in>wire_rows rty KR. rel_option (wire_eq (tb_valueType b)) (tb_log_look rty KR s' x)
        (if tb_log_look rty KR b r = None \<and> wire_same rty x r then Some v else tb_log_look rty KR b x))"
    if v: "v \<in> tb_log_vals rty KR b"
  proof -
    obtain KV where KV: "wire_type (tb_valueType b) KV" "tb_inv rty KR (tb_valueType b) KV b" "v \<in> wire_vals (tb_valueType b) KV"
      using v by (auto simp: tb_log_vals_def)
    obtain b' where b': "tb_Apply b (single_include r v) = Inr b'" "tb_inv rty KR (tb_valueType b) KV b'"
      "\<forall>x\<in>wire_rows rty KR. rel_option (wire_eq (tb_valueType b)) (wire_look rty (tb_valueType b) (tb_look rty KR b') x)
        (if wire_look rty (tb_valueType b) (tb_look rty KR b) r = None \<and> wire_same rty x r then Some v
         else wire_look rty (tb_valueType b) (tb_look rty KR b) x)"
      using column_types.tb_include_wire [OF column_types.intro [OF assms KV(1)] KV(2) r KV(3)] by blast
    have ty: "tb_valueType b' = tb_valueType b" using b'(2) by (simp add: tb_inv_def)
    then have "tb_log_inv rty KR b'" using KV(1) b'(2) unfolding tb_log_inv_def by metis
    with b'(1,3) ty show ?thesis by (simp add: tb_table_def tb_log_look_def cong: if_cong split del: if_split)
  qed
  show "wire_same rty r r"
    using wire_rowsD [OF r] scalar_order.cmp_refl [of rty KR] assms by (simp add: wire_same_def wire_type_def)
qed

interpretation long_log: include_log tb_table "tb_log_inv LongType half_range" "tb_log_look LongType half_range"
  "wire_rows LongType half_range" "tb_log_vals LongType half_range" "wire_same LongType" "\<lambda>b. wire_eq (tb_valueType b)"
  by (rule tb_include_log [OF longW.wire_type_axioms])

end
