(* ===== verification/IDGenerator.thy ===== *)
theory IDGenerator
  imports Prelude
begin

text \<open>
  \<open>FastoreClient/IDGenerator.cpp\<close>: handing out ids from blocks that a callback allocates. The
  callback is code of the caller (a write to the generator table); it is a parameter that
  gets the block size and the state of its surroundings, and it may throw (\<open>None\<close>).
  A signed overflow of the 64-bit ids is not defined in C++; ids are integers here.
\<close>

type_synonym 'e generate_callback = "int \<Rightarrow> 'e \<Rightarrow> int option \<times> 'e"

record IDGenerator =
  blockSize :: int
  allocationThreshold :: int
  nextId :: int
  endOfRange :: int

definition new_IDGenerator :: "int \<Rightarrow> int \<Rightarrow> err + IDGenerator" where
  "new_IDGenerator bsize threshold =
     (if bsize < 1 then Inl (Throw ''Block size must be at least 1.'')
      else if threshold < 0 then Inl (Throw ''Allocation threshold must be 0 or more.'')
      else if threshold > bsize then Inl (Throw ''Allocation threshold must be no more than the block size.'')
      else Inr \<lparr>blockSize = bsize, allocationThreshold = threshold, nextId = 0, endOfRange = 0\<rparr>)"

definition AsyncGenerateBlock :: "'e generate_callback \<Rightarrow> IDGenerator \<Rightarrow> 'e \<Rightarrow> IDGenerator option \<times> 'e" where
  "AsyncGenerateBlock generate g e =
     (case generate (blockSize g) e of
        (None, e') \<Rightarrow> (None, e')
      | (Some blockValue, e') \<Rightarrow> (Some (g\<lparr>nextId := blockValue, endOfRange := blockValue + blockSize g\<rparr>), e'))"

text \<open>The loop of \<open>Generate\<close> goes on as long as the callback throws, so it may not end.\<close>

partial_function (option) Generate ::
  "'e generate_callback \<Rightarrow> IDGenerator \<Rightarrow> 'e \<Rightarrow> (int \<times> IDGenerator \<times> 'e) option"
where
  "Generate generate g e =
     (let remaining = endOfRange g - nextId g
      in if remaining \<le> 0
         then (case AsyncGenerateBlock generate g e of
                 (None, e') \<Rightarrow> Generate generate g e'
               | (Some g', e') \<Rightarrow> Some (nextId g', g', e'))
         else (let g' = g\<lparr>nextId := nextId g + 1\<rparr> in Some (nextId g', g', e)))"

text \<open>The callback, called again after each failure, succeeds at attempt \<open>n\<close>.\<close>

definition attempt_succeeds :: "'e generate_callback \<Rightarrow> int \<Rightarrow> nat \<Rightarrow> 'e \<Rightarrow> bool" where
  "attempt_succeeds generate n k e = (fst (generate n (((\<lambda>s. snd (generate n s)) ^^ k) e)) \<noteq> None)"

text \<open>The ids of a sequence of calls.\<close>

fun generated :: "'e generate_callback \<Rightarrow> nat \<Rightarrow> IDGenerator \<Rightarrow> 'e \<Rightarrow> (int list \<times> IDGenerator \<times> 'e) option" where
  "generated generate 0 g e = Some ([], g, e)"
| "generated generate (Suc k) g e =
     Option.bind (Generate generate g e) (\<lambda>(i, g', e').
       map_option (\<lambda>(is, r). (i # is, r)) (generated generate k g' e'))"

lemma Generate_in_block:
  "nextId g < endOfRange g \<Longrightarrow> Generate generate g e = Some (nextId g + 1, g\<lparr>nextId := nextId g + 1\<rparr>, e)"
  by (simp add: Generate.simps Let_def)

lemma Generate_new_block:
  "endOfRange g \<le> nextId g \<Longrightarrow> generate (blockSize g) e = (Some b, e') \<Longrightarrow>
   Generate generate g e = Some (b, g\<lparr>nextId := b, endOfRange := b + blockSize g\<rparr>, e')"
  by (simp add: Generate.simps AsyncGenerateBlock_def Let_def)

lemma Generate_retry:
  "endOfRange g \<le> nextId g \<Longrightarrow> generate (blockSize g) e = (None, e') \<Longrightarrow> Generate generate g e = Generate generate g e'"
  by (simp add: Generate.simps [of _ _ e] AsyncGenerateBlock_def Let_def)

lemma generated_in_block:
  "nextId g + int k \<le> endOfRange g \<Longrightarrow>
   generated generate k g e = Some (map (\<lambda>i. nextId g + 1 + int i) [0..<k], g\<lparr>nextId := nextId g + int k\<rparr>, e)"
proof (induction k arbitrary: g)
  case (Suc k)
  have "generated generate k (g\<lparr>nextId := nextId g + 1\<rparr>) e =
      Some (map (\<lambda>i. nextId g + 1 + 1 + int i) [0..<k], g\<lparr>nextId := nextId g + 1 + int k\<rparr>, e)"
    using Suc.IH [of "g\<lparr>nextId := nextId g + 1\<rparr>"] Suc.prems by simp
  moreover have "map (\<lambda>i. nextId g + 1 + int i) [0..<Suc k] = (nextId g + 1) # map (\<lambda>i. nextId g + 1 + 1 + int i) [0..<k]"
    by (simp add: upt_conv_Cons map_Suc_upt [symmetric] comp_def del: upt_Suc)
  ultimately show ?case using Suc.prems Generate_in_block [of g generate e] by (simp add: add.assoc)
qed simp

lemma generated_add:
  "generated generate (j + k) g e = Option.bind (generated generate j g e) (\<lambda>(is, g', e').
     map_option (\<lambda>(js, r). (is @ js, r)) (generated generate k g' e'))"
proof (induction j arbitrary: g e)
  case 0
  then show ?case by (cases "generated generate k g e") auto
next
  case (Suc j)
  then show ?case
    by (cases "Generate generate g e") (auto simp: option.map_comp comp_def split_def split: option.splits Option.bind_splits)
qed

lemma Generate_Some_attempt:
  assumes "Generate generate g e = Some r" "endOfRange g \<le> nextId g"
  shows "\<exists>n. attempt_succeeds generate (blockSize g) n e"
proof -
  have "endOfRange g \<le> nextId g \<longrightarrow> (\<exists>n. attempt_succeeds generate (blockSize g) n e)"
  proof (rule Generate.raw_induct [of "\<lambda>generate g e r. endOfRange g \<le> nextId g \<longrightarrow> (\<exists>n. attempt_succeeds generate (blockSize g) n e)", OF _ assms(1)], intro impI)
    fix Gen :: "'a generate_callback \<Rightarrow> IDGenerator \<Rightarrow> 'a \<Rightarrow> (int \<times> IDGenerator \<times> 'a) option" and generate g e r
    assume IH: "\<And>generate g e r. Gen generate g e = Some r \<Longrightarrow> endOfRange g \<le> nextId g \<longrightarrow> (\<exists>n. attempt_succeeds generate (blockSize g) n e)"
      and run: "(let remaining = endOfRange g - nextId g
        in if remaining \<le> 0
           then (case AsyncGenerateBlock generate g e of (None, e') \<Rightarrow> Gen generate g e' | (Some g', e') \<Rightarrow> Some (nextId g', g', e'))
           else (let g' = g\<lparr>nextId := nextId g + 1\<rparr> in Some (nextId g', g', e))) = Some r"
      and ex: "endOfRange g \<le> nextId g"
    obtain x e' where x: "generate (blockSize g) e = (x, e')" by (cases "generate (blockSize g) e")
    show "\<exists>n. attempt_succeeds generate (blockSize g) n e"
    proof (cases x)
      case None
      with run x ex have "Gen generate g e' = Some r" by (simp add: AsyncGenerateBlock_def)
      with IH ex obtain n where "attempt_succeeds generate (blockSize g) n e'" by blast
      with x have "attempt_succeeds generate (blockSize g) (Suc n) e"
        by (simp add: attempt_succeeds_def funpow_Suc_right del: funpow.simps)
      then show ?thesis by blast
    next
      case (Some b)
      with x have "attempt_succeeds generate (blockSize g) 0 e" by (simp add: attempt_succeeds_def)
      then show ?thesis by blast
    qed
  qed
  with assms(2) show ?thesis by blast
qed

text \<open>
  C25. An id is returned when there is one left in the block or the callback succeeds after some
  number of failures; otherwise the call never returns.
\<close>

theorem Generate_returns_iff:
  "Generate generate g e \<noteq> None \<longleftrightarrow>
     nextId g < endOfRange g \<or> (\<exists>n. attempt_succeeds generate (blockSize g) n e)"
proof (cases "nextId g < endOfRange g")
  case False
  then have ex: "endOfRange g \<le> nextId g" by simp
  have suff: "Generate generate g e \<noteq> None" if "attempt_succeeds generate (blockSize g) n e" for n e
    using that
  proof (induction n arbitrary: e)
    case 0
    then show ?case using Generate_new_block [OF ex, of generate e] by (cases "generate (blockSize g) e") (auto simp: attempt_succeeds_def)
  next
    case (Suc n)
    obtain r e' where r: "generate (blockSize g) e = (r, e')" by (cases "generate (blockSize g) e")
    show ?case
    proof (cases r)
      case None
      have "attempt_succeeds generate (blockSize g) n e'" using Suc.prems r by (simp add: attempt_succeeds_def funpow_Suc_right del: funpow.simps)
      with Suc.IH None r Generate_retry [OF ex] show ?thesis by metis
    next
      case (Some b)
      with r Generate_new_block [OF ex, of generate e] show ?thesis by simp
    qed
  qed
  with Generate_Some_attempt [OF _ ex] False show ?thesis by (metis not_None_eq)
qed (simp add: Generate_in_block)

text \<open>
  C26. Ids across blocks: when the callback hands out adjacent blocks of size \<open>n\<close>, the first block
  gives \<open>n + 1\<close> ids, the last of which is the first id of the next block, so it is given
  out twice.
\<close>

theorem Generate_duplicate:
  assumes "endOfRange g \<le> nextId g" "blockSize g = int n"
    and "generate (int n) e = (Some b, e')" "generate (int n) e' = (Some (b + int n), e'')"
  shows "\<exists>g'. generated generate (Suc n + 1) g e = Some (map (\<lambda>i. b + int i) [0..<Suc n] @ [b + int n], g', e'')"
proof -
  let ?g = "g\<lparr>nextId := b, endOfRange := b + int n\<rparr>" and ?g' = "g\<lparr>nextId := b + int n, endOfRange := b + int n\<rparr>"
  have "generated generate n ?g e' = Some (map (\<lambda>i. b + 1 + int i) [0..<n], ?g', e')"
    using generated_in_block [of ?g n generate e'] by simp
  moreover have "Generate generate g e = Some (b, ?g, e')" using Generate_new_block [of g generate e b e'] assms by simp
  moreover have "map (\<lambda>i. b + int i) [0..<Suc n] = b # map (\<lambda>i. b + 1 + int i) [0..<n]"
    by (simp add: upt_conv_Cons map_Suc_upt [symmetric] comp_def add.assoc del: upt_Suc)
  ultimately have "generated generate (Suc n) g e = Some (map (\<lambda>i. b + int i) [0..<Suc n], ?g', e')" by simp
  moreover have "generated generate 1 ?g' e' = Some ([b + int n], ?g'\<lparr>nextId := b + int n, endOfRange := b + int n + int n\<rparr>, e'')"
    using Generate_new_block [of ?g' generate e' "b + int n" e''] assms by simp
  ultimately show ?thesis unfolding generated_add by simp
qed

definition next_block :: "int generate_callback" where
  "next_block n first = (Some first, first + n)"

theorem Generate_duplicate_witness:
  "\<exists>g'. generated next_block 4 \<lparr>blockSize = 2, allocationThreshold = 1, nextId = 0, endOfRange = 0\<rparr> 100 =
     Some ([100, 101, 102, 102], g', 104)"
proof -
  have "\<exists>g'. generated next_block (Suc 2 + 1) \<lparr>blockSize = 2, allocationThreshold = 1, nextId = 0, endOfRange = 0\<rparr> 100 =
     Some (map (\<lambda>i. 100 + int i) [0..<Suc 2] @ [100 + int 2], g', 104)"
    by (rule Generate_duplicate [where e' = 102]) (simp_all add: next_block_def)
  then show ?thesis by (simp add: upt_rec numeral_eq_Suc)
qed

end
