(* ===== verification/ServiceAddress.thy ===== *)
theory ServiceAddress
  imports Prelude "HOL-Library.Word"
begin

text \<open>
  \<open>FastoreClient/ServiceAddress.cpp\<close>: parsing \<open>host:port\<close> addresses and lists of them. The
  loops that erase empty components may not end, which is the value \<open>None\<close>.
\<close>

section \<open>Library functions the code calls\<close>

text \<open>\<open>boost::split\<close> at one separator, without compressing adjacent ones.\<close>

fun split_on :: "char \<Rightarrow> string \<Rightarrow> string list" where
  "split_on sep [] = [[]]"
| "split_on sep (c # cs) =
     (if c = sep then [] # split_on sep cs
      else (case split_on sep cs of [] \<Rightarrow> [[c]] | w # ws \<Rightarrow> (c # w) # ws))"

definition is_space :: "char \<Rightarrow> bool" where
  "is_space c \<longleftrightarrow> (let n = (of_char c :: nat) in n = 32 \<or> 9 \<le> n \<and> n \<le> 13)"

definition trim :: "string \<Rightarrow> string" where
  "trim s = rev (dropWhile is_space (rev (dropWhile is_space s)))"

text \<open>The value of a digit; \<open>None\<close> when the character is no digit of the base.\<close>

definition digit_value :: "nat \<Rightarrow> char \<Rightarrow> nat option" where
  "digit_value base c =
     (let n = (of_char c :: nat);
          d = (if 48 \<le> n \<and> n \<le> 57 then n - 48
               else if 97 \<le> n \<and> n \<le> 122 then n - 87
               else if 65 \<le> n \<and> n \<le> 90 then n - 55
               else base)
      in if d < base then Some d else None)"

fun digits :: "nat \<Rightarrow> nat \<Rightarrow> string \<Rightarrow> nat \<times> string" where
  "digits base acc [] = (acc, [])"
| "digits base acc (c # cs) =
     (case digit_value base c of None \<Rightarrow> (acc, c # cs) | Some d \<Rightarrow> digits base (acc * base + d) cs)"

text \<open>
  \<open>strtol\<close> with base 0: white space, a sign, a prefix that selects the base, and digits. It
  returns the value, the rest of the string (the whole string when there is no number) and
  whether the value had to be cut to the range of \<open>long\<close>.
\<close>

definition strtol_sign :: "string \<Rightarrow> bool \<times> string" where
  "strtol_sign s =
     (case s of
        [] \<Rightarrow> (False, [])
      | c # cs \<Rightarrow> if c = CHR ''-'' then (True, cs) else if c = CHR ''+'' then (False, cs) else (False, s))"

definition strtol_base :: "string \<Rightarrow> nat \<times> string" where
  "strtol_base s =
     (case s of
        [] \<Rightarrow> (10, [])
      | z # cs \<Rightarrow>
          if z \<noteq> CHR ''0'' then (10, s)
          else (case cs of
                  x # h # r \<Rightarrow> if x \<in> {CHR ''x'', CHR ''X''} \<and> digit_value 16 h \<noteq> None then (16, h # r) else (8, s)
                | _ \<Rightarrow> (8, s)))"

definition cut_long :: "int \<Rightarrow> int \<times> bool" where
  "cut_long v = (if v > 2 ^ 63 - 1 then (2 ^ 63 - 1, True) else if v < - (2 ^ 63) then (- (2 ^ 63), True) else (v, False))"

definition strtol :: "string \<Rightarrow> int \<times> string \<times> bool" where
  "strtol s =
     (let (neg, s2) = strtol_sign (dropWhile is_space s);
          (base, s3) = strtol_base s2;
          (n, rest) = digits base 0 s3;
          (v, erange) = cut_long (if neg then - int n else int n)
      in if rest = s3 then (0, s, False) else (v, rest, erange))"

section \<open>Addresses\<close>

definition DefaultPort :: int where
  "DefaultPort = 8765"

record ServiceAddress =
  Port :: "64 word"
  Name :: string

definition intTryParse :: "string \<Rightarrow> int option" where
  "intTryParse str =
     (let s = takeWhile (\<lambda>c. c \<noteq> CHR 0x00) str;
          (l, rest, erange) = strtol s
      in if erange \<and> l = 2 ^ 63 - 1 \<or> l > 2 ^ 31 - 1 then None
         else if erange \<and> l = - (2 ^ 63) \<or> l < - (2 ^ 31) then None
         else if s = [] \<or> rest \<noteq> [] then None
         else if 2 ^ 31 - 1 < l then None
         else Some l)"

text \<open>The loop that erases empty strings: the iterator moves only by erasing.\<close>

partial_function (option) erase_empty :: "string list \<Rightarrow> nat \<Rightarrow> string list option" where
  "erase_empty components iter =
     (if iter = length components then Some components
      else if components ! iter = [] then erase_empty (delete_at iter components) iter
      else erase_empty components iter)"

definition ParseOne :: "string \<Rightarrow> (err + ServiceAddress) option" where
  "ParseOne address =
     Option.bind (erase_empty (split_on CHR '':'' address) 0) (\<lambda>components.
       Some (if length components < 1 \<or> length components > 2
             then Inl (Throw ''Must provide at least one address.'')
             else
               (let port = (if length components < 2 then DefaultPort
                            else case intTryParse (components ! 1) of None \<Rightarrow> DefaultPort | Some p \<Rightarrow> p);
                    name = trim (components ! 0)
                in if name = []
                   then Inl (Throw ''Port is optional, but service host name must be given.'')
                   else Inr \<lparr>Port = word_of_int port, Name = name\<rparr>)))"

fun parse_all :: "string list \<Rightarrow> (err + ServiceAddress list) option" where
  "parse_all [] = Some (Inr [])"
| "parse_all (a # as) =
     Option.bind (ParseOne a) (\<lambda>r.
       case r of
         Inl e \<Rightarrow> Some (Inl e)
       | Inr x \<Rightarrow> map_option (\<lambda>q. bindE q (\<lambda>xs. Inr (x # xs))) (parse_all as))"

text \<open>The check \<open>size() < 0\<close> of \<open>ParseList\<close> compares an unsigned number and never fires.\<close>

definition ParseList :: "string \<Rightarrow> (err + ServiceAddress list) option" where
  "ParseList composite = Option.bind (erase_empty (split_on CHR '';'' composite) 0) parse_all"

section \<open>Splitting and erasing\<close>

lemma split_on_nonempty: "split_on sep s \<noteq> []"
  by (induction s) (auto split: list.splits)

lemma split_on_all_sep: "(\<forall>c\<in>set s. c = sep) \<longleftrightarrow> (\<forall>w\<in>set (split_on sep s). w = [])"
proof (induction s)
  case (Cons c s)
  then show ?case using split_on_nonempty [of sep s] by (cases "split_on sep s") auto
qed simp

lemma erase_empty_all: "\<forall>w\<in>set ws. w = [] \<Longrightarrow> erase_empty ws 0 = Some []"
proof (induction ws)
  case Nil
  then show ?case by (simp add: erase_empty.simps)
next
  case (Cons w ws)
  then show ?case by (subst erase_empty.simps) simp
qed

lemma erase_empty_Some:
  assumes "erase_empty ws 0 = Some r"
  shows "\<forall>w\<in>set ws. w = []"
proof -
  have "(0 :: nat) = 0 \<longrightarrow> (\<forall>w\<in>set ws. w = [])"
  proof (rule erase_empty.raw_induct [of "\<lambda>ws i r. i = 0 \<longrightarrow> (\<forall>w\<in>set ws. w = [])", OF _ assms], intro impI)
    fix f ws i r
    assume IH: "\<And>ws i r. f ws i = Some r \<Longrightarrow> i = 0 \<longrightarrow> (\<forall>w\<in>set ws. w = [])"
      and run: "(if i = length ws then Some ws else if ws ! i = [] then f (delete_at i ws) i else f ws i) = Some r"
      and i: "i = (0 :: nat)"
    show "\<forall>w\<in>set ws. w = []"
    proof (cases ws)
      case (Cons w ws')
      with run i have "f (if w = [] then ws' else ws) 0 = Some r" by (simp split: if_splits)
      with IH Cons show ?thesis by (cases "w = []") auto
    qed simp
  qed
  then show ?thesis by simp
qed

lemma erase_empty_iff: "erase_empty ws 0 = (if \<forall>w\<in>set ws. w = [] then Some [] else None)"
  using erase_empty_all [of ws] erase_empty_Some [of ws] by (cases "erase_empty ws 0") auto

section \<open>Numbers\<close>

text \<open>The decimal notation of a number.\<close>

definition digit_char :: "nat \<Rightarrow> char" where
  "digit_char d = char_of (48 + d)"

fun dec :: "nat \<Rightarrow> string" where
  "dec n = (if n < 10 then [digit_char n] else dec (n div 10) @ [digit_char (n mod 10)])"

declare dec.simps [simp del]

lemma digit_value_char: "d < 10 \<Longrightarrow> digit_value 10 (digit_char d) = Some d"
  by (simp add: digit_value_def digit_char_def Let_def)

lemma digits_append: "digits base acc (xs @ ys) =
  (let (n, rest) = digits base acc xs in if rest = [] then digits base n ys else (n, rest @ ys))"
  by (induction base acc xs rule: digits.induct) (auto split: option.splits)

lemma digits_dec: "digits 10 0 (dec n) = (n, [])"
proof (induction n rule: dec.induct)
  case (1 n)
  show ?case
  proof (cases "n < 10")
    case True
    then show ?thesis by (simp add: dec.simps [of n] digit_value_char)
  next
    case False
    then have "dec n = dec (n div 10) @ [digit_char (n mod 10)]" by (simp add: dec.simps [of n])
    with 1 False show ?thesis by (simp add: digits_append digit_value_char)
  qed
qed

lemma dec_head: "0 < n \<Longrightarrow> \<exists>d cs. dec n = digit_char d # cs \<and> 0 < d \<and> d < 10"
proof (induction n rule: dec.induct)
  case (1 n)
  show ?case
  proof (cases "n < 10")
    case True
    with 1 show ?thesis by (auto simp: dec.simps [of n])
  next
    case False
    then have "0 < n div 10" by linarith
    with 1(1) False obtain d cs where "dec (n div 10) = digit_char d # cs" "0 < d" "d < 10" by blast
    with False show ?thesis by (auto simp: dec.simps [of n])
  qed
qed

lemma dec_chars: "\<forall>c\<in>set (dec n). c \<noteq> CHR 0x00"
proof (induction n rule: dec.induct)
  case (1 n)
  have "digit_char d \<noteq> CHR 0x00" if "d < 10" for d
  proof
    assume "digit_char d = CHR 0x00"
    then have "digit_value 10 (digit_char d) = digit_value 10 (CHR 0x00)" by simp
    with digit_value_char [OF that] show False by (simp add: digit_value_def)
  qed
  with 1 show ?case by (simp add: dec.simps [of n])
qed

lemma digit_char_facts:
  assumes "d < 10"
  shows "\<not> is_space (digit_char d)" "digit_char d \<notin> {CHR ''-'', CHR ''+''}" "digit_char d = CHR ''0'' \<longleftrightarrow> d = 0"
proof -
  have n: "(of_char (digit_char d) :: nat) = 48 + d" using assms by (simp add: digit_char_def)
  then show "\<not> is_space (digit_char d)" using assms by (simp add: is_space_def Let_def)
  have "digit_char d \<noteq> CHR ''-''" "digit_char d \<noteq> CHR ''+''" using n by (auto dest: arg_cong [of _ _ "of_char :: char \<Rightarrow> nat"])
  then show "digit_char d \<notin> {CHR ''-'', CHR ''+''}" by simp
  show "digit_char d = CHR ''0'' \<longleftrightarrow> d = 0"
  proof
    assume "digit_char d = CHR ''0''"
    then have "(of_char (digit_char d) :: nat) = of_char (CHR ''0'')" by simp
    with n show "d = 0" by simp
  next
    assume "d = 0"
    then have "digit_char d = char_of (of_char (CHR ''0'') :: nat)" by (simp add: digit_char_def)
    then show "digit_char d = CHR ''0''" by (simp only: char_of_char)
  qed
qed

text \<open>\<open>strtol\<close> reads a decimal notation, with or without a sign, back.\<close>

lemma strtol_dec:
  assumes n: "0 < n" "n < 2 ^ 63"
  shows "strtol (dec n) = (int n, [], False)" "strtol (CHR ''-'' # dec n) = (- int n, [], False)"
proof -
  obtain d cs where d: "dec n = digit_char d # cs" "0 < d" "d < 10" using dec_head [OF n(1)] by blast
  note f = digit_char_facts [OF d(3)]
  have n': "int n < 2 ^ 63" using n(2) by simp
  have base: "strtol_base (digit_char d # cs) = (10, digit_char d # cs)"
    using f(3) d(2) by (simp add: strtol_base_def)
  have dig: "digits 10 0 (digit_char d # cs) = (n, [])" using digits_dec [of n] d(1) by simp
  have cut: "cut_long (int n) = (int n, False)" "cut_long (- int n) = (- int n, False)" using n' by (simp_all add: cut_long_def)
  have "strtol_sign (digit_char d # cs) = (False, digit_char d # cs)" using f(2) by (simp add: strtol_sign_def)
  then show "strtol (dec n) = (int n, [], False)"
    unfolding strtol_def d(1) using f(1) by (simp add: base dig cut del: digits.simps)
  have "\<not> is_space CHR ''-''" "strtol_sign (CHR ''-'' # digit_char d # cs) = (True, digit_char d # cs)"
    by (simp_all add: is_space_def strtol_sign_def)
  then show "strtol (CHR ''-'' # dec n) = (- int n, [], False)"
    unfolding strtol_def d(1) by (simp add: base dig cut del: digits.simps)
qed

section \<open>Properties\<close>

text \<open>
  C28. Parsing one address: the loop that should drop empty components steps only when it drops
  one, so \<open>ParseOne\<close> never returns an address. It throws on a string of colons and does
  not end on any other.
\<close>

theorem ParseOne_result:
  "ParseOne address =
     (if list_all (\<lambda>c. c = CHR '':'') address then Some (Inl (Throw ''Must provide at least one address.'')) else None)"
  unfolding ParseOne_def erase_empty_iff split_on_all_sep [symmetric] list_all_iff by simp

text \<open>
  C29. Parsing a list: \<open>ParseList\<close> returns only on a string of semicolons, with no address; the
  check for an empty list never fires.
\<close>

theorem ParseList_result:
  "ParseList composite = (if list_all (\<lambda>c. c = CHR '';'') composite then Some (Inr []) else None)"
  unfolding ParseList_def erase_empty_iff split_on_all_sep [symmetric] list_all_iff by simp

text \<open>
  C30. Port numbers: \<open>intTryParse\<close> reads the decimal notation of every positive \<open>int\<close> and of its
  negation back.
\<close>

theorem intTryParse_dec:
  assumes "0 < n" "n < 2 ^ 31"
  shows "intTryParse (dec n) = Some (int n) \<and> intTryParse (CHR ''-'' # dec n) = Some (- int n)"
proof -
  have 1: "n < 2 ^ 63" using assms(2) by simp
  have n: "int n < 2 ^ 31" using assms(2) by simp
  have "takeWhile (\<lambda>c. c \<noteq> CHR 0x00) (dec n) = dec n" using dec_chars [of n] by (simp add: takeWhile_eq_all_conv)
  moreover have "dec n \<noteq> []" using dec_head [OF assms(1)] by auto
  moreover have "takeWhile (\<lambda>c. c \<noteq> CHR 0x00) (CHR ''-'' # dec n) = CHR ''-'' # dec n" using calculation(1) by simp
  ultimately show ?thesis
    unfolding intTryParse_def using n strtol_dec [OF assms(1) 1] by (simp only: Let_def prod.case) simp
qed

theorem intTryParse_dec_witness:
  "intTryParse (dec 8765) = Some 8765 \<and> intTryParse (CHR ''-'' # dec 8765) = Some (- 8765)"
  using intTryParse_dec [of 8765] by simp

end
