(* ===== verification/Transaction.thy ===== *)
theory Transaction
  imports ColumnBuffer
begin

text \<open>
  \<open>FastoreClient/Transaction.cpp\<close>: a transaction collects includes and excludes in a log per
  column and overlays them on what the database returns. The buffers of the log are used
  through the interface \<open>IColumnBuffer\<close>; the calls into \<open>Database\<close> are arguments.
\<close>

section \<open>Data\<close>

text \<open>Rows and sets of rows of \<open>DataSet.h\<close> and \<open>RangeSet.h\<close>.\<close>

record DataSetRow =
  Values :: "OptionalValue list"
  ID :: string
  newGroup :: bool

type_synonym DataSet = "DataSetRow list"

record RangeSet =
  Eof :: bool
  Bof :: bool
  Limited :: bool
  Data :: DataSet

record ClientBound =
  Bound :: string
  Inclusive :: bool

record Range =
  RangeColumn :: int
  Start :: "ClientBound option"
  End :: "ClientBound option"
  Ascending :: bool

record 'b LogColumn =
  log_includes :: 'b
  log_excludes :: "string list"
  log_reads :: "string list"
  log_revision :: int

record 'b Transaction =
  completed :: bool
  transactionId :: int
  tx_log :: "(int \<times> 'b LogColumn) list"
  readsConflict :: bool
  localSchema :: Schema

definition new_DataSetRow :: "nat \<Rightarrow> DataSetRow" where
  "new_DataSetRow columns = \<lparr>Values = replicate columns None, ID = [], newGroup = True\<rparr>"

definition convert_bound :: "ClientBound \<Rightarrow> RangeBound" where
  "convert_bound b = \<lparr>boundValue = Bound b, inclusive = Inclusive b\<rparr>"

definition rangeToRangeRequest :: "Range \<Rightarrow> 32 word \<Rightarrow> RangeRequest" where
  "rangeToRangeRequest rng lim =
     \<lparr>ascending = Ascending rng, limit = lim, first = map_option convert_bound (Start rng),
      last_bound = map_option convert_bound (End rng), start_rowID = None\<rparr>"

text \<open>An array access with an index of type \<open>size_t\<close> that comes from a signed value.\<close>

definition atE :: "'a list \<Rightarrow> int \<Rightarrow> err + 'a" where
  "atE xs i = (if 0 \<le> i then nthE xs (nat i) else Inl OutOfBounds)"

section \<open>The log\<close>

definition new_LogColumn :: "'b factory \<Rightarrow> string \<Rightarrow> string \<Rightarrow> err + 'b LogColumn" where
  "new_LogColumn CreateBuffer rowTypeName valueTypeName =
     bindE (CreateBuffer valueTypeName rowTypeName Multi) (\<lambda>b.
       Inr \<lparr>log_includes = b, log_excludes = [], log_reads = [], log_revision = 0\<rparr>)"

text \<open>\<open>_log[columnId] = c\<close> for a column that is there or is added.\<close>

fun put_log :: "int \<Rightarrow> 'b LogColumn \<Rightarrow> (int \<times> 'b LogColumn) list \<Rightarrow> (int \<times> 'b LogColumn) list" where
  "put_log k c [] = [(k, c)]"
| "put_log k c ((k', c') # log) = (if k' = k then (k, c) # log else (k', c') # put_log k c log)"

definition ensureColumnLog ::
  "'b factory \<Rightarrow> Schema \<Rightarrow> int \<Rightarrow> 'b Transaction \<Rightarrow> err + 'b LogColumn \<times> 'b Transaction"
where
  "ensureColumnLog CreateBuffer dbSchema columnId tx =
     (case map_of (tx_log tx) columnId of
        Some c \<Rightarrow> Inr (c, tx)
      | None \<Rightarrow>
          bindE (case localSchema tx columnId of
                   Some d \<Rightarrow> Inr d
                 | None \<Rightarrow> (case dbSchema columnId of
                     Some d \<Rightarrow> Inr d
                   | None \<Rightarrow> Inl (Throw ''Unable to locate column in the schema.''))) (\<lambda>d.
          bindE (new_LogColumn CreateBuffer (def_RowIDTypeName d) (def_ValueTypeName d)) (\<lambda>c.
            Inr (c, tx\<lparr>tx_log := put_log columnId c (tx_log tx)\<rparr>))))"

section \<open>Writes\<close>

text \<open>\<open>include\<close> without the update of the local schema, then the whole.\<close>

fun include_columns ::
  "'b IColumnBuffer \<Rightarrow> 'b factory \<Rightarrow> Schema \<Rightarrow> (int \<times> string) list \<Rightarrow> string \<Rightarrow>
   'b Transaction \<Rightarrow> err + 'b Transaction"
where
  "include_columns vt CreateBuffer dbSchema [] rowId tx = Inr tx"
| "include_columns vt CreateBuffer dbSchema ((col, value) # rest) rowId tx =
     bindE (ensureColumnLog CreateBuffer dbSchema col tx) (\<lambda>(c, tx1).
     bindE (cb_Apply vt (log_includes c) (single_include rowId value)) (\<lambda>b.
       include_columns vt CreateBuffer dbSchema rest rowId
         (tx1\<lparr>tx_log := put_log col (c\<lparr>log_includes := b\<rparr>) (tx_log tx1)\<rparr>)))"

definition tx_include ::
  "'b IColumnBuffer \<Rightarrow> 'b factory \<Rightarrow> Schema \<Rightarrow>
   int list \<Rightarrow> string \<Rightarrow> string list \<Rightarrow> 'b Transaction \<Rightarrow> err + 'b Transaction"
where
  "tx_include vt CreateBuffer dbSchema columnIds rowId row tx =
     (if length row < length columnIds then Inl OutOfBounds
      else
        bindE (include_columns vt CreateBuffer dbSchema (zip columnIds row) rowId tx) (\<lambda>tx1.
          if length columnIds = length ColumnColumns \<and> columnIds ! 0 = ColumnColumns ! 0
          then
            bindE (decode_def row) (\<lambda>d.
              Inr (tx1\<lparr>localSchema := (case localSchema tx1 (def_ColumnID d) of
                 None \<Rightarrow> (localSchema tx1)(def_ColumnID d \<mapsto> d) | Some _ \<Rightarrow> localSchema tx1)\<rparr>))
          else Inr tx1))"

fun tx_exclude ::
  "'b factory \<Rightarrow> Schema \<Rightarrow> int list \<Rightarrow> string \<Rightarrow> 'b Transaction \<Rightarrow> err + 'b Transaction"
where
  "tx_exclude CreateBuffer dbSchema [] rowId tx = Inr tx"
| "tx_exclude CreateBuffer dbSchema (col # cols) rowId tx =
     bindE (ensureColumnLog CreateBuffer dbSchema col tx) (\<lambda>(c, tx1).
       tx_exclude CreateBuffer dbSchema cols rowId
         (tx1\<lparr>tx_log := put_log col (c\<lparr>log_excludes := List.insert rowId (log_excludes c)\<rparr>) (tx_log tx1)\<rparr>))"

definition tx_rollback :: "'b Transaction \<Rightarrow> 'b Transaction" where
  "tx_rollback tx = tx\<lparr>tx_log := [], completed := True\<rparr>"

section \<open>Commit\<close>

text \<open>The includes of a column: a vector of \<open>includeTotal\<close> cells, filled from the rows.\<close>

definition row_cells :: "RangeResult \<Rightarrow> Cell list" where
  "row_cells rows =
     concat (map (\<lambda>vr. map (\<lambda>r. \<lparr>cell_rowID = r, cell_value = vrValue vr\<rparr>) (vrRowIDs vr)) (valueRowsList rows))"

definition gather_includes :: "'b IColumnBuffer \<Rightarrow> 'b \<Rightarrow> err + Cell list" where
  "gather_includes vt b =
     (let includeTotal = total (cb_GetStatistic vt b)
      in if 0 < includeTotal
         then
           bindE (cb_GetRows vt b \<lparr>ascending = True, limit = 2147483647, first = None, last_bound = None, start_rowID = None\<rparr>) (\<lambda>rows.
             (let cells = row_cells rows
              in if length cells \<le> nat includeTotal
                 then Inr (cells @ replicate (nat includeTotal - length cells) \<lparr>cell_rowID = [], cell_value = []\<rparr>)
                 else Inl OutOfBounds))
         else Inr [])"

fun gatherWrites :: "'b IColumnBuffer \<Rightarrow> (int \<times> 'b LogColumn) list \<Rightarrow> err + (int \<rightharpoonup> ColumnWrites)" where
  "gatherWrites vt [] = Inr Map.empty"
| "gatherWrites vt ((col, c) # log) =
     (if total (cb_GetStatistic vt (log_includes c)) = 0 \<and> log_excludes c = [] \<and> log_reads c = []
      then gatherWrites vt log
      else
        bindE (gather_includes vt (log_includes c)) (\<lambda>incs.
        bindE (gatherWrites vt log) (\<lambda>output.
          Inr (output(col \<mapsto> \<lparr>cw_includes = incs, cw_excludes = map (\<lambda>r. \<lparr>cell_rowID = r, cell_value = []\<rparr>) (log_excludes c)\<rparr>)))))"

definition tx_commit ::
  "'b IColumnBuffer \<Rightarrow> (int \<Rightarrow> (int \<rightharpoonup> ColumnWrites) \<Rightarrow> bool \<Rightarrow> 'd \<Rightarrow> err + 'd) \<Rightarrow> bool \<Rightarrow> 'b Transaction \<Rightarrow> 'd \<Rightarrow> err + 'b Transaction \<times> 'd"
where
  "tx_commit vt db_apply flush tx db =
     bindE (gatherWrites vt (tx_log tx)) (\<lambda>writes.
     bindE (db_apply (transactionId tx) writes flush db) (\<lambda>db'.
       Inr (tx\<lparr>tx_log := [], completed := True\<rparr>, db')))"

section \<open>Reads\<close>

definition buildLogMap :: "'b Transaction \<Rightarrow> int list \<Rightarrow> 'b LogColumn option list \<times> bool" where
  "buildLogMap tx columnIds =
     (let result = map (map_of (tx_log tx)) columnIds in (result, \<exists>c\<in>set result. c \<noteq> None))"

definition applyColumnOverrides :: "'b IColumnBuffer \<Rightarrow> 'b LogColumn \<Rightarrow> DataSetRow \<Rightarrow> nat \<Rightarrow> err + DataSetRow" where
  "applyColumnOverrides vt colLog row colIndex =
     (let row1 = (if ID row \<in> set (log_excludes colLog) then row\<lparr>Values := (Values row)[colIndex := None]\<rparr> else row)
      in bindE (cb_GetValue vt (log_includes colLog) (ID row)) (\<lambda>included.
           case included of
             None \<Rightarrow> Inr row1
           | Some v \<Rightarrow> Inr (row1\<lparr>Values := (Values row1)[colIndex := Some v]\<rparr>)))"

text \<open>The loop over the columns of a row; \<open>skip\<close> is the column it leaves out, if any.\<close>

fun override_columns :: "'b IColumnBuffer \<Rightarrow> 'b LogColumn option list \<Rightarrow> int option \<Rightarrow> nat list \<Rightarrow> DataSetRow \<Rightarrow> err + DataSetRow" where
  "override_columns vt logMap skip [] row = Inr row"
| "override_columns vt logMap skip (i # is) row =
     bindE (nthE logMap i) (\<lambda>colLog.
     bindE (case colLog of
              Some c \<Rightarrow> if skip = Some (int i) then Inr row else applyColumnOverrides vt c row i
            | None \<Rightarrow> Inr row) (\<lambda>row'.
       override_columns vt logMap skip is row'))"

definition tx_getValues ::
  "'b IColumnBuffer \<Rightarrow> (int list \<Rightarrow> string list \<Rightarrow> err + DataSet) \<Rightarrow> 'b Transaction \<Rightarrow> int list \<Rightarrow> string list \<Rightarrow> err + DataSet"
where
  "tx_getValues vt db_getValues tx columnIds rowIds =
     bindE (db_getValues columnIds rowIds) (\<lambda>remote.
       (let (logMap, anyMapped) = buildLogMap tx columnIds
        in if \<not> anyMapped then Inr remote
           else mapE (\<lambda>row. override_columns vt logMap None [0..<length (Values row)] row) remote))"

definition adjust_statistic :: "'b IColumnBuffer \<Rightarrow> Statistic \<Rightarrow> 'b LogColumn option \<Rightarrow> Statistic" where
  "adjust_statistic vt remote colLog =
     (case colLog of
        None \<Rightarrow> remote
      | Some c \<Rightarrow>
          (let localStat = cb_GetStatistic vt (log_includes c); n = int (length (log_excludes c))
           in \<lparr>total = max 0 (total remote + total localStat - n), unique = max 0 (unique remote + unique localStat - n)\<rparr>))"

fun adjust_all :: "'b IColumnBuffer \<Rightarrow> Statistic list \<Rightarrow> 'b LogColumn option list \<Rightarrow> err + Statistic list" where
  "adjust_all vt remote [] = Inr remote"
| "adjust_all vt [] (colLog # logMap) = (if colLog = None then adjust_all vt [] logMap else Inl OutOfBounds)"
| "adjust_all vt (s # remote) (colLog # logMap) =
     bindE (adjust_all vt remote logMap) (\<lambda>rest. Inr (adjust_statistic vt s colLog # rest))"

definition tx_getStatistics ::
  "'b IColumnBuffer \<Rightarrow> (int list \<Rightarrow> err + Statistic list) \<Rightarrow> 'b Transaction \<Rightarrow> int list \<Rightarrow> err + Statistic list"
where
  "tx_getStatistics vt db_getStatistics tx columnIds =
     bindE (db_getStatistics columnIds) (\<lambda>remote.
       (let (logMap, anyMapped) = buildLogMap tx columnIds
        in if \<not> anyMapped then Inr remote else adjust_all vt remote logMap))"

section \<open>Ranges\<close>

text \<open>\<open>addRow\<close>: the next row of the local range, with the advanced indexes.\<close>

fun add_values ::
  "'b IColumnBuffer \<Rightarrow> 'b LogColumn option list \<Rightarrow> int \<Rightarrow> string \<Rightarrow> nat \<Rightarrow> err + OptionalValue list"
where
  "add_values vt [] rangeColumnID rowId i = Inr []"
| "add_values vt (colLog # logMap) rangeColumnID rowId i =
     bindE (if int i = rangeColumnID then Inr (Some rowId)
            else case colLog of Some c \<Rightarrow> cb_GetValue vt (log_includes c) rowId | None \<Rightarrow> Inr None) (\<lambda>v.
     bindE (add_values vt logMap rangeColumnID rowId (Suc i)) (\<lambda>vs. Inr (v # vs)))"

definition addRow ::
  "'b IColumnBuffer \<Rightarrow> 'b LogColumn option list \<Rightarrow> RangeResult \<Rightarrow> int \<Rightarrow> nat \<Rightarrow> nat \<Rightarrow> err + DataSetRow \<times> nat \<times> nat"
where
  "addRow vt logMap localRange rangeColumnID valueIndex rowIndex =
     bindE (nthE (valueRowsList localRange) valueIndex) (\<lambda>vr.
     bindE (nthE (vrRowIDs vr) rowIndex) (\<lambda>rowId.
     bindE (add_values vt logMap rangeColumnID rowId 0) (\<lambda>vs.
       Inr (\<lparr>Values = vs, ID = rowId, newGroup = True\<rparr>,
            if length (vrRowIDs vr) \<le> rowIndex + 1 then (valueIndex + 1, 0) else (valueIndex, rowIndex + 1)))))"

text \<open>
  The condition of the merge loop with what its body does: it adds the local row when the
  row precedes the remote one, and does nothing when they are equal.
\<close>

datatype merge_step = Leave | Add | Stay

definition merge_test :: "'b IColumnBuffer \<Rightarrow> 'b \<Rightarrow> RangeResult \<Rightarrow> int \<Rightarrow> DataSetRow \<Rightarrow> nat \<Rightarrow> nat \<Rightarrow> err + merge_step" where
  "merge_test vt buffer localRange rangeColumnID remoteRow valueIndex rowIndex =
     (if length (valueRowsList localRange) \<le> valueIndex then Inr Leave
      else
        (let vr = valueRowsList localRange ! valueIndex
         in bindE (atE (Values remoteRow) rangeColumnID) (\<lambda>rv.
            bindE (cb_CompareValue vt buffer (vrValue vr) (case rv of None \<Rightarrow> [] | Some x \<Rightarrow> x)) (\<lambda>valueComp.
              if valueComp < 0 then Inr Add
              else if valueComp = 0 then
                bindE (nthE (vrRowIDs vr) rowIndex) (\<lambda>r.
                bindE (cb_CompareRow vt buffer r (ID remoteRow)) (\<lambda>rowComp.
                  Inr (if rowComp < 0 then Add else if rowComp = 0 then Stay else Leave)))
              else Inr Leave))))"

type_synonym merge_state = "nat \<times> nat \<times> DataSet"

partial_function (option) merge_before ::
  "'b IColumnBuffer \<Rightarrow> 'b LogColumn option list \<Rightarrow> 'b \<Rightarrow> RangeResult \<Rightarrow> int \<Rightarrow> DataSetRow \<Rightarrow> merge_state \<Rightarrow> (err + merge_state) option"
where
  "merge_before vt logMap buffer localRange rangeColumnID remoteRow st =
     (case st of (valueIndex, rowIndex, rows) \<Rightarrow>
        (case merge_test vt buffer localRange rangeColumnID remoteRow valueIndex rowIndex of
           Inl e \<Rightarrow> Some (Inl e)
         | Inr Leave \<Rightarrow> Some (Inr st)
         | Inr Stay \<Rightarrow> merge_before vt logMap buffer localRange rangeColumnID remoteRow st
         | Inr Add \<Rightarrow>
             (case addRow vt logMap localRange rangeColumnID valueIndex rowIndex of
                Inl e \<Rightarrow> Some (Inl e)
              | Inr (row, valueIndex', rowIndex') \<Rightarrow>
                  merge_before vt logMap buffer localRange rangeColumnID remoteRow (valueIndex', rowIndex', rows @ [row]))))"

text \<open>The loop over the remote rows.\<close>

fun merge_remote ::
  "'b IColumnBuffer \<Rightarrow> 'b LogColumn option list \<Rightarrow> 'b LogColumn option \<Rightarrow> RangeResult \<Rightarrow> int \<Rightarrow> DataSet \<Rightarrow> merge_state \<Rightarrow>
   (err + merge_state) option"
where
  "merge_remote vt logMap rangeLog localRange rangeColumnID [] st = Some (Inr st)"
| "merge_remote vt logMap rangeLog localRange rangeColumnID (row # remote) st =
     Option.bind (case rangeLog of
                    None \<Rightarrow> Some (Inr st)
                  | Some c \<Rightarrow> merge_before vt logMap (log_includes c) localRange rangeColumnID row st) (\<lambda>r.
       case r of
         Inl e \<Rightarrow> Some (Inl e)
       | Inr (valueIndex, rowIndex, rows) \<Rightarrow>
           if (case rangeLog of None \<Rightarrow> True | Some c \<Rightarrow> ID row \<in> set (log_excludes c))
           then
             (case override_columns vt logMap (Some rangeColumnID) [0..<length (Values row)] row of
                Inl e \<Rightarrow> Some (Inl e)
              | Inr row' \<Rightarrow> merge_remote vt logMap rangeLog localRange rangeColumnID remote (valueIndex, rowIndex, rows @ [row']))
           else merge_remote vt logMap rangeLog localRange rangeColumnID remote (valueIndex, rowIndex, rows))"

text \<open>The local rows behind the last remote one.\<close>

partial_function (option) append_local ::
  "'b IColumnBuffer \<Rightarrow> 'b LogColumn option list \<Rightarrow> RangeResult \<Rightarrow> int \<Rightarrow> merge_state \<Rightarrow> (err + DataSet) option"
where
  "append_local vt logMap localRange rangeColumnID st =
     (case st of (valueIndex, rowIndex, rows) \<Rightarrow>
        if valueIndex < length (valueRowsList localRange)
        then
          (case addRow vt logMap localRange rangeColumnID valueIndex rowIndex of
             Inl e \<Rightarrow> Some (Inl e)
           | Inr (row, valueIndex', rowIndex') \<Rightarrow>
               append_local vt logMap localRange rangeColumnID (valueIndex', rowIndex', rows @ [row]))
        else Some (Inr rows))"

definition tx_getRange ::
  "'b IColumnBuffer \<Rightarrow> (int list \<Rightarrow> Range \<Rightarrow> 32 word \<Rightarrow> string option \<Rightarrow> err + RangeSet) \<Rightarrow> 'b Transaction \<Rightarrow>
   int list \<Rightarrow> Range \<Rightarrow> 32 word \<Rightarrow> string option \<Rightarrow> (err + RangeSet) option"
where
  "tx_getRange vt db_getRange tx columnIds rng lim startId =
     (case db_getRange columnIds rng lim startId of
        Inl e \<Rightarrow> Some (Inl e)
      | Inr remote \<Rightarrow>
          (let (logMap, anyMapped) = buildLogMap tx columnIds
           in if \<not> anyMapped then Some (Inr remote)
              else
                (case atE logMap (RangeColumn rng) of
                   Inl e \<Rightarrow> Some (Inl e)
                 | Inr rangeLog \<Rightarrow>
                     (case (case rangeLog of
                              None \<Rightarrow> Inr \<lparr>valueRowsList = [], res_eof = True, res_bof = True, limited = False\<rparr>
                            | Some c \<Rightarrow> cb_GetRows vt (log_includes c) (rangeToRangeRequest rng lim)) of
                        Inl e \<Rightarrow> Some (Inl e)
                      | Inr localRange \<Rightarrow>
                          Option.bind (merge_remote vt logMap rangeLog localRange (RangeColumn rng) (Data remote) (0, 0, [])) (\<lambda>r.
                            case r of
                              Inl e \<Rightarrow> Some (Inl e)
                            | Inr st \<Rightarrow>
                                Option.bind (if rangeLog = None then Some (Inr (snd (snd st)))
                                             else append_local vt logMap localRange (RangeColumn rng) st) (\<lambda>q.
                                  Some (bindE q (\<lambda>rows.
                                    Inr \<lparr>Eof = (Eof remote \<and> res_eof localRange), Bof = (Bof remote \<and> res_bof localRange),
                                         Limited = Limited remote, Data = rows\<rparr>))))))))"

section \<open>The overlay\<close>

text \<open>The value of a row under the log of a column: included, excluded or as it was.\<close>

definition overlay :: "('b \<Rightarrow> string \<Rightarrow> string option) \<Rightarrow> 'b LogColumn option \<Rightarrow> string \<Rightarrow> OptionalValue \<Rightarrow> OptionalValue" where
  "overlay look colLog r v =
     (case colLog of
        None \<Rightarrow> v
      | Some c \<Rightarrow> (case look (log_includes c) r of
            Some w \<Rightarrow> Some w
          | None \<Rightarrow> if r \<in> set (log_excludes c) then None else v))"

definition overlay_row :: "('b \<Rightarrow> string \<Rightarrow> string option) \<Rightarrow> 'b Transaction \<Rightarrow> int list \<Rightarrow> DataSetRow \<Rightarrow> DataSetRow" where
  "overlay_row look tx columnIds row =
     row\<lparr>Values := map2 (\<lambda>col. overlay look (map_of (tx_log tx) col) (ID row)) columnIds (Values row)\<rparr>"

definition log_inv :: "('b \<Rightarrow> bool) \<Rightarrow> (int \<times> 'b LogColumn) list \<Rightarrow> bool" where
  "log_inv I log \<longleftrightarrow> (\<forall>(k, c)\<in>set log. I (log_includes c))"

lemma log_invD: "log_inv I log \<Longrightarrow> map_of log k = Some c \<Longrightarrow> I (log_includes c)"
  unfolding log_inv_def by (auto dest: map_of_SomeD)

lemma map_of_put_log [simp]: "map_of (put_log k c log) = (map_of log)(k \<mapsto> c)"
  by (induction k c log rule: put_log.induct) (auto intro!: ext)

lemma set_put_log: "set (put_log k c log) \<subseteq> insert (k, c) (set log)"
  by (induction k c log rule: put_log.induct) auto

lemma log_inv_put: "log_inv I log \<Longrightarrow> I (log_includes c) \<Longrightarrow> log_inv I (put_log k c log)"
  using set_put_log [of k c log] unfolding log_inv_def by blast

lemma mapE_total: "(\<And>x. x \<in> set xs \<Longrightarrow> f x = Inr (g x)) \<Longrightarrow> mapE f xs = Inr (map g xs)"
  by (induction xs) auto

context include_log
begin

lemma applyColumnOverrides_ok:
  assumes "inv (log_includes c)" "ID row \<in> rowids" "i < length (Values row)"
  shows "applyColumnOverrides vt c row i =
    Inr (row\<lparr>Values := (Values row)[i := overlay look (Some c) (ID row) (Values row ! i)]\<rparr>)"
  using get [OF assms(1,2)] assms(3)
  by (auto simp: applyColumnOverrides_def overlay_def Let_def split: option.split)

lemma override_columns_ok:
  assumes "\<forall>i\<in>set is. i < length (Values row) \<and> i < length logMap" "distinct is" "ID row \<in> rowids"
    and "\<forall>c\<in>set logMap. \<forall>x. c = Some x \<longrightarrow> inv (log_includes x)"
  shows "override_columns vt logMap None is row =
    Inr (row\<lparr>Values := map (\<lambda>j. if j \<in> set is then overlay look (logMap ! j) (ID row) (Values row ! j) else Values row ! j) [0..<length (Values row)]\<rparr>)"
  using assms
proof (induction "is" arbitrary: row)
  case Nil
  then show ?case by (simp add: map_nth)
next
  case (Cons i "is")
  have i: "i < length (Values row)" "i < length logMap" "i \<notin> set is" using Cons.prems by auto
  let ?row = "row\<lparr>Values := (Values row)[i := overlay look (logMap ! i) (ID row) (Values row ! i)]\<rparr>"
  have step: "(case logMap ! i of Some c \<Rightarrow> if None = Some (int i) then Inr row else applyColumnOverrides vt c row i | None \<Rightarrow> Inr row) = Inr ?row"
  proof (cases "logMap ! i")
    case None
    then show ?thesis by (simp add: overlay_def)
  next
    case (Some c)
    moreover have "inv (log_includes c)" using Cons.prems(4) i(2) Some by (metis nth_mem)
    ultimately show ?thesis using applyColumnOverrides_ok [of c row i] Cons.prems(3) i(1) by simp
  qed
  have "override_columns vt logMap None is ?row =
    Inr (?row\<lparr>Values := map (\<lambda>j. if j \<in> set is then overlay look (logMap ! j) (ID ?row) (Values ?row ! j) else Values ?row ! j) [0..<length (Values ?row)]\<rparr>)"
    using Cons.prems by (intro Cons.IH) auto
  moreover have "map (\<lambda>j. if j \<in> set is then overlay look (logMap ! j) (ID ?row) (Values ?row ! j) else Values ?row ! j) [0..<length (Values ?row)] =
    map (\<lambda>j. if j \<in> set (i # is) then overlay look (logMap ! j) (ID row) (Values row ! j) else Values row ! j) [0..<length (Values row)]"
    using i by (intro map_cong) (auto simp: nth_list_update)
  ultimately show ?case using step i(2) by (simp only: override_columns.simps nthE_Inr bindE_simps) simp
qed

lemma getValues_ok:
  assumes tx: "log_inv inv (tx_log tx)" and db: "db_getValues columnIds rowIds = Inr remote"
    and rows: "\<forall>row\<in>set remote. ID row \<in> rowids \<and> length (Values row) = length columnIds"
  shows "tx_getValues vt db_getValues tx columnIds rowIds = Inr (map (overlay_row look tx columnIds) remote)"
proof -
  let ?log = "map (map_of (tx_log tx)) columnIds"
  have inv': "\<forall>c\<in>set ?log. \<forall>x. c = Some x \<longrightarrow> inv (log_includes x)" using log_invD [OF tx] by auto
  have row: "override_columns vt ?log None [0..<length (Values row)] row = Inr (overlay_row look tx columnIds row)" if "row \<in> set remote" for row
  proof -
    have r: "ID row \<in> rowids" "length (Values row) = length columnIds" using rows that by auto
    have "map (\<lambda>j. if j \<in> set [0..<length (Values row)] then overlay look (?log ! j) (ID row) (Values row ! j) else Values row ! j) [0..<length (Values row)] =
        map2 (\<lambda>col. overlay look (map_of (tx_log tx) col) (ID row)) columnIds (Values row)"
      using r(2) by (intro nth_equalityI) simp_all
    then show ?thesis using override_columns_ok [of "[0..<length (Values row)]" row ?log, OF _ _ r(1) inv'] r(2)
      by (simp add: overlay_row_def)
  qed
  show ?thesis
  proof (cases "\<exists>c\<in>set ?log. c \<noteq> None")
    case True
    with db mapE_total [of remote "\<lambda>row. override_columns vt ?log None [0..<length (Values row)] row"] row
    show ?thesis by (simp add: tx_getValues_def buildLogMap_def Let_def)
  next
    case False
    have "overlay_row look tx columnIds row = row" if "row \<in> set remote" for row
    proof -
      have "map2 (\<lambda>col. overlay look (map_of (tx_log tx) col) (ID row)) columnIds (Values row) = Values row"
        using rows that False by (intro nth_equalityI) (auto simp: overlay_def)
      then show ?thesis by (simp add: overlay_row_def)
    qed
    then have "map (overlay_row look tx columnIds) remote = remote" by (simp add: map_idI)
    with db False show ?thesis by (simp add: tx_getValues_def buildLogMap_def Let_def)
  qed
qed

end

text \<open>Equal local and remote rows keep the merge loop where it is.\<close>

lemma merge_before_stay:
  assumes "merge_test vt b lr k row i j = Inr Stay"
  shows "merge_before vt log b lr k row (i, j, rows) = None"
proof (cases "merge_before vt log b lr k row (i, j, rows)")
  case (Some r)
  have "merge_test vt b lr k row (fst (i, j, rows)) (fst (snd (i, j, rows))) \<noteq> Inr Stay"
  proof (rule merge_before.raw_induct [of "\<lambda>vt log b lr k row st r. merge_test vt b lr k row (fst st) (fst (snd st)) \<noteq> Inr Stay", OF _ Some], rule notI)
    fix f vt log b lr k row st r
    assume IH: "\<And>vt log b lr k row st r. f vt log b lr k row st = Some r \<Longrightarrow> merge_test vt b lr k row (fst st) (fst (snd st)) \<noteq> Inr Stay"
      and run: "(case st of (valueIndex, rowIndex, rows) \<Rightarrow>
        (case merge_test vt b lr k row valueIndex rowIndex of
           Inl e \<Rightarrow> Some (Inl e)
         | Inr Leave \<Rightarrow> Some (Inr st)
         | Inr Stay \<Rightarrow> f vt log b lr k row st
         | Inr Add \<Rightarrow>
             (case addRow vt log lr k valueIndex rowIndex of
                Inl e \<Rightarrow> Some (Inl e)
              | Inr (row', valueIndex', rowIndex') \<Rightarrow> f vt log b lr k row (valueIndex', rowIndex', rows @ [row'])))) = Some r"
      and stay: "merge_test vt b lr k row (fst st) (fst (snd st)) = Inr Stay"
    then have "f vt log b lr k row st = Some r" by (cases st) simp
    with IH stay show False by blast
  qed
  with assms show ?thesis by simp
qed simp

section \<open>The log keeps its buffers well formed\<close>

lemma ensureColumnLog_inv:
  assumes "log_inv I (tx_log tx)" "\<And>v r b. CreateBuffer v r Multi = Inr b \<Longrightarrow> I b"
    and "ensureColumnLog CreateBuffer dbSchema col tx = Inr (c, tx')"
  shows "I (log_includes c) \<and> log_inv I (tx_log tx') \<and> map_of (tx_log tx') col = Some c"
proof (cases "map_of (tx_log tx) col")
  case None
  then obtain d :: ColumnDef where "new_LogColumn CreateBuffer (def_RowIDTypeName d) (def_ValueTypeName d) = Inr c"
    "tx' = tx\<lparr>tx_log := put_log col c (tx_log tx)\<rparr>"
    using assms(3) by (auto simp: ensureColumnLog_def bindE_Inr_conv)
  moreover from this(1) have "I (log_includes c)" using assms(2) by (auto simp: new_LogColumn_def bindE_Inr_conv)
  ultimately show ?thesis using assms(1) by (simp add: log_inv_put)
next
  case (Some c')
  with assms(1,3) show ?thesis by (auto simp: ensureColumnLog_def dest: log_invD)
qed

context include_log
begin

text \<open>A cell that is included where the log has no value is read back, up to values that compare equal.\<close>

lemma include_reads_back:
  assumes tx: "log_inv inv (tx_log tx)" and new: "\<And>v r b. CreateBuffer v r Multi = Inr b \<Longrightarrow> inv b"
    and c: "ensureColumnLog CreateBuffer dbSchema col tx = Inr (c, tx1)" "r \<in> rowids" "v \<in> vals (log_includes c)"
    and free: "look (log_includes c) r = None"
  shows "\<exists>tx' c' w. include_columns vt CreateBuffer dbSchema [(col, v)] r tx = Inr tx' \<and> log_inv inv (tx_log tx') \<and>
    map_of (tx_log tx') col = Some c' \<and> look (log_includes c') r = Some w \<and> eqv (log_includes c) w v"
proof -
  have e: "inv (log_includes c)" "log_inv inv (tx_log tx1)" using ensureColumnLog_inv [OF tx new c(1)] by auto
  obtain b where b: "cb_Apply vt (log_includes c) (single_include r v) = Inr b" "inv b"
    "rel_option (eqv (log_includes c)) (look b r) (Some v)"
    using put [OF e(1) c(2,3)] free same_refl [OF c(2)] c(2) by fastforce
  then obtain w where "look b r = Some w" "eqv (log_includes c) w v" by (auto simp: option_rel_Some2)
  with b(1,2) c(1) e(2) show ?thesis by (auto simp: log_inv_put)
qed

lemma exclude_inv:
  assumes "log_inv inv (tx_log tx)" "\<And>v r b. CreateBuffer v r Multi = Inr b \<Longrightarrow> inv b"
    and "tx_exclude CreateBuffer dbSchema cols r tx = Inr tx'"
  shows "log_inv inv (tx_log tx')"
  using assms(1,3)
proof (induction cols arbitrary: tx)
  case (Cons col cols)
  then obtain c tx1 where c: "ensureColumnLog CreateBuffer dbSchema col tx = Inr (c, tx1)"
    "tx_exclude CreateBuffer dbSchema cols r (tx1\<lparr>tx_log := put_log col (c\<lparr>log_excludes := List.insert r (log_excludes c)\<rparr>) (tx_log tx1)\<rparr>) = Inr tx'"
    by (auto simp: bindE_Inr_conv)
  have "inv (log_includes c)" "log_inv inv (tx_log tx1)" using ensureColumnLog_inv [OF Cons.prems(1) assms(2) c(1)] by auto
  then show ?case by (intro Cons.IH [OF _ c(2)]) (simp add: log_inv_put)
qed simp

end

section \<open>Where the rows of a range come from\<close>

definition local_ids :: "RangeResult \<Rightarrow> string set" where
  "local_ids lr = (\<Union>vr\<in>set (valueRowsList lr). set (vrRowIDs vr))"

lemma addRow_ID: "addRow vt lm lr k i j = Inr (row, p) \<Longrightarrow> ID row \<in> local_ids lr"
proof -
  assume "addRow vt lm lr k i j = Inr (row, p)"
  then obtain vr where "nthE (valueRowsList lr) i = Inr vr" "nthE (vrRowIDs vr) j = Inr (ID row)"
    by (auto simp: addRow_def bindE_Inr_conv)
  then have "vr \<in> set (valueRowsList lr)" "ID row \<in> set (vrRowIDs vr)" by (auto simp: nthE_def in_set_conv_nth split: if_splits)
  then show ?thesis by (auto simp: local_ids_def)
qed

definition adds_local :: "RangeResult \<Rightarrow> DataSet \<Rightarrow> DataSet \<Rightarrow> bool" where
  "adds_local lr rows rows' \<longleftrightarrow> (\<exists>new. rows' = rows @ new \<and> (\<forall>x\<in>set new. ID x \<in> local_ids lr))"

lemma adds_local_refl [simp]: "adds_local lr rows rows"
  by (simp add: adds_local_def)

lemma adds_local_step: "ID row \<in> local_ids lr \<Longrightarrow> adds_local lr (rows @ [row]) rows' \<Longrightarrow> adds_local lr rows rows'"
  unfolding adds_local_def by force

lemma merge_before_rows:
  assumes "merge_before vt lm b lr k row st = Some r"
  shows "\<forall>st'. r = Inr st' \<longrightarrow> adds_local lr (snd (snd st)) (snd (snd st'))"
proof (rule merge_before.raw_induct [of "\<lambda>vt lm b lr k row st r. \<forall>st'. r = Inr st' \<longrightarrow> adds_local lr (snd (snd st)) (snd (snd st'))", OF _ assms])
  fix f vt lm b lr k row and st :: merge_state and r
  assume IH: "\<And>vt lm b lr k row st r. f vt lm b lr k row st = Some r \<Longrightarrow> \<forall>st'. r = Inr st' \<longrightarrow> adds_local lr (snd (snd st)) (snd (snd st'))"
    and run: "(case st of (valueIndex, rowIndex, rows) \<Rightarrow>
      (case merge_test vt b lr k row valueIndex rowIndex of
         Inl e \<Rightarrow> Some (Inl e)
       | Inr Leave \<Rightarrow> Some (Inr st)
       | Inr Stay \<Rightarrow> f vt lm b lr k row st
       | Inr Add \<Rightarrow>
           (case addRow vt lm lr k valueIndex rowIndex of
              Inl e \<Rightarrow> Some (Inl e)
            | Inr (row', valueIndex', rowIndex') \<Rightarrow> f vt lm b lr k row (valueIndex', rowIndex', rows @ [row'])))) = Some r"
  obtain i j rows where st: "st = (i, j, rows)" by (cases st)
  show "\<forall>st'. r = Inr st' \<longrightarrow> adds_local lr (snd (snd st)) (snd (snd st'))"
  proof (cases "merge_test vt b lr k row i j")
    case (Inr m)
    show ?thesis
    proof (cases m)
      case Add
      show ?thesis
      proof (cases "addRow vt lm lr k i j")
        case (Inl e)
        then show ?thesis using run st Inr Add by auto
      next
        case a: (Inr q)
        obtain row' i' j' where q: "q = (row', i', j')" by (cases q)
        have "f vt lm b lr k row (i', j', rows @ [row']) = Some r" using run st Inr Add a q by simp
        from IH [OF this] show ?thesis using adds_local_step [OF addRow_ID [OF a [unfolded q]]] st by simp
      qed
    qed (use run st Inr IH in auto)
  qed (use run st in auto)
qed

lemma append_local_rows:
  assumes "append_local vt lm lr k st = Some r"
  shows "\<forall>rows'. r = Inr rows' \<longrightarrow> adds_local lr (snd (snd st)) rows'"
proof (rule append_local.raw_induct [of "\<lambda>vt lm lr k st r. \<forall>rows'. r = Inr rows' \<longrightarrow> adds_local lr (snd (snd st)) rows'", OF _ assms])
  fix f vt lm lr k and st :: merge_state and r
  assume IH: "\<And>vt lm lr k st r. f vt lm lr k st = Some r \<Longrightarrow> \<forall>rows'. r = Inr rows' \<longrightarrow> adds_local lr (snd (snd st)) rows'"
    and run: "(case st of (valueIndex, rowIndex, rows) \<Rightarrow>
      if valueIndex < length (valueRowsList lr)
      then
        (case addRow vt lm lr k valueIndex rowIndex of
           Inl e \<Rightarrow> Some (Inl e)
         | Inr (row, valueIndex', rowIndex') \<Rightarrow> f vt lm lr k (valueIndex', rowIndex', rows @ [row]))
      else Some (Inr rows)) = Some r"
  obtain i j rows where st: "st = (i, j, rows)" by (cases st)
  show "\<forall>rows'. r = Inr rows' \<longrightarrow> adds_local lr (snd (snd st)) rows'"
  proof (cases "addRow vt lm lr k i j")
    case (Inl e)
    then show ?thesis using run st by (auto split: if_splits)
  next
    case a: (Inr q)
    obtain row' i' j' where q: "q = (row', i', j')" by (cases q)
    note step = adds_local_step [OF addRow_ID [OF a [unfolded q]]]
    show ?thesis
      using run st a q IH [of vt lm lr k "(i', j', rows @ [row'])" r] step by (auto split: if_splits)
  qed
qed

lemma override_columns_ID: "override_columns vt lm skip is row = Inr row' \<Longrightarrow> ID row' = ID row"
proof (induction "is" arbitrary: row)
  case (Cons i "is")
  then obtain colLog row1 where "override_columns vt lm skip is row1 = Inr row'"
    "(case colLog of Some c \<Rightarrow> if skip = Some (int i) then Inr row else applyColumnOverrides vt c row i | None \<Rightarrow> Inr row) = Inr row1"
    by (auto simp: bindE_Inr_conv)
  moreover from this(2) have "ID row1 = ID row"
    by (auto simp: applyColumnOverrides_def Let_def bindE_Inr_conv split: option.splits if_splits)
  ultimately show ?case using Cons.IH by simp
qed simp

lemma merge_remote_rows:
  assumes "merge_remote vt lm (Some c) lr k data st = Some (Inr st')"
    and "\<forall>x\<in>set (snd (snd st)). ID x \<in> set (log_excludes c) \<union> local_ids lr"
  shows "\<forall>x\<in>set (snd (snd st')). ID x \<in> set (log_excludes c) \<union> local_ids lr"
  using assms
proof (induction data arbitrary: st)
  case (Cons row data)
  obtain i j rows where m: "merge_before vt lm (log_includes c) lr k row st = Some (Inr (i, j, rows))"
    "(if ID row \<in> set (log_excludes c)
      then (case override_columns vt lm (Some k) [0..<length (Values row)] row of
              Inl e \<Rightarrow> Some (Inl e)
            | Inr row' \<Rightarrow> merge_remote vt lm (Some c) lr k data (i, j, rows @ [row']))
      else merge_remote vt lm (Some c) lr k data (i, j, rows)) = Some (Inr st')"
  proof -
    from Cons.prems(1) obtain r where r: "merge_before vt lm (log_includes c) lr k row st = Some r"
      by (cases "merge_before vt lm (log_includes c) lr k row st") simp_all
    then obtain i j rows where "r = Inr (i, j, rows)" using Cons.prems(1) by (cases r) auto
    with r Cons.prems(1) show thesis by (intro that) simp_all
  qed
  have "adds_local lr (snd (snd st)) rows" using merge_before_rows [OF m(1)] by simp
  then have rows: "\<forall>x\<in>set rows. ID x \<in> set (log_excludes c) \<union> local_ids lr"
    using Cons.prems(2) by (auto simp: adds_local_def)
  show ?case
  proof (cases "ID row \<in> set (log_excludes c)")
    case True
    then obtain row' where "override_columns vt lm (Some k) [0..<length (Values row)] row = Inr row'"
      "merge_remote vt lm (Some c) lr k data (i, j, rows @ [row']) = Some (Inr st')"
      using m(2) by (auto split: sum.splits)
    with Cons.IH [of "(i, j, rows @ [row'])"] rows True override_columns_ID show ?thesis by fastforce
  next
    case False
    with m(2) Cons.IH [of "(i, j, rows)"] rows show ?thesis by simp
  qed
qed simp

lemma range_log_found:
  assumes "0 \<le> k" "nat k < length columnIds" "map_of (tx_log tx) (columnIds ! nat k) = Some c"
  shows "atE (map (map_of (tx_log tx)) columnIds) k = Inr (Some c)"
    "\<exists>x\<in>set (map (map_of (tx_log tx)) columnIds). x \<noteq> None"
proof -
  show "atE (map (map_of (tx_log tx)) columnIds) k = Inr (Some c)" using assms by (simp add: atE_def)
  have "Some c \<in> set (map (map_of (tx_log tx)) columnIds)" using assms(2,3) by (metis length_map nth_map nth_mem)
  then show "\<exists>x\<in>set (map (map_of (tx_log tx)) columnIds). x \<noteq> None" by blast
qed

text \<open>A range read whose range column is in the log.\<close>

lemma getRange_logged:
  assumes "db_getRange columnIds rng lim startId = Inr remote"
    and "0 \<le> RangeColumn rng" "nat (RangeColumn rng) < length columnIds"
    and "map_of (tx_log tx) (columnIds ! nat (RangeColumn rng)) = Some c"
    and "cb_GetRows vt (log_includes c) (rangeToRangeRequest rng lim) = Inr localRange"
  shows "tx_getRange vt db_getRange tx columnIds rng lim startId =
    Option.bind (merge_remote vt (map (map_of (tx_log tx)) columnIds) (Some c) localRange (RangeColumn rng) (Data remote) (0, 0, [])) (\<lambda>r.
      case r of
        Inl e \<Rightarrow> Some (Inl e)
      | Inr st \<Rightarrow>
          Option.bind (append_local vt (map (map_of (tx_log tx)) columnIds) localRange (RangeColumn rng) st) (\<lambda>q.
            Some (bindE q (\<lambda>rows.
              Inr \<lparr>Eof = (Eof remote \<and> res_eof localRange), Bof = (Bof remote \<and> res_bof localRange),
                   Limited = Limited remote, Data = rows\<rparr>))))"
  using assms(1,5) range_log_found [OF assms(2-4)]
  by (simp add: tx_getRange_def buildLogMap_def Let_def del: Set.bex_simps cong: sum.case_cong)

lemma getRange_rows:
  assumes "db_getRange columnIds rng lim startId = Inr remote"
    and "0 \<le> RangeColumn rng" "nat (RangeColumn rng) < length columnIds"
    and "map_of (tx_log tx) (columnIds ! nat (RangeColumn rng)) = Some c"
    and "cb_GetRows vt (log_includes c) (rangeToRangeRequest rng lim) = Inr localRange"
    and "tx_getRange vt db_getRange tx columnIds rng lim startId = Some (Inr rs)" "x \<in> set (Data rs)"
  shows "ID x \<in> set (log_excludes c) \<union> local_ids localRange"
proof -
  let ?log = "map (map_of (tx_log tx)) columnIds"
  note run = assms(6) [unfolded getRange_logged [of db_getRange columnIds rng lim startId, OF assms(1-5)]]
  obtain m where m: "merge_remote vt ?log (Some c) localRange (RangeColumn rng) (Data remote) (0, 0, []) = Some m"
    using run by (cases "merge_remote vt ?log (Some c) localRange (RangeColumn rng) (Data remote) (0, 0, [])") simp_all
  then obtain st where st: "m = Inr st" using run by (cases m) simp_all
  obtain q where q: "append_local vt ?log localRange (RangeColumn rng) st = Some q"
    using run m st by (cases "append_local vt ?log localRange (RangeColumn rng) st") simp_all
  then have "q = Inr (Data rs)" using run m st by (cases q) auto
  then have "adds_local localRange (snd (snd st)) (Data rs)" using append_local_rows [OF q] by simp
  moreover have "\<forall>x\<in>set (snd (snd st)). ID x \<in> set (log_excludes c) \<union> local_ids localRange"
    using merge_remote_rows [OF m [unfolded st]] by simp
  ultimately show ?thesis using assms(7) by (auto simp: adds_local_def)
qed

section \<open>Properties\<close>

text \<open>
  C21. Reading inside a transaction: the values a transaction returns are those of the database
  with the logged writes on top, column by column: an included value, else nothing for an
  excluded row, else the value of the database. The log holds buffers of repeated values over
  one type of rows that satisfy their invariant, the values being of any types; the rows the
  database returns have ids of that type and a value for each requested column.
\<close>

theorem getValues_overlay:
  assumes "wire_type rty KR" "log_inv (tb_log_inv rty KR) (tx_log tx)"
    and "db_getValues columnIds rowIds = Inr remote"
    and "\<forall>row\<in>set remote. ID row \<in> wire_rows rty KR \<and> length (Values row) = length columnIds"
  shows "tx_getValues tb_table db_getValues tx columnIds rowIds = Inr (map (overlay_row (tb_log_look rty KR) tx columnIds) remote)"
  by (rule include_log.getValues_ok [OF tb_include_log [OF assms(1)] assms(2)]) (use assms(3,4) in auto)

lemma wire_long [simp]: "wire LongType x = long x"
  by (simp add: wire_def LongType_def long_def CopyOutOfArray_def)

lemma read_key_long [simp]: "read_key LongType (long x) = x"
  by (simp add: read_key_def)

definition sample_log :: "(64 word, 64 word) TreeBuffer LogColumn" where
  "sample_log = \<lparr>log_includes = sample_multi, log_excludes = [long 4, long 7], log_reads = [], log_revision = 0\<rparr>"

definition sample_tx :: "(64 word, 64 word) TreeBuffer Transaction" where
  "sample_tx = \<lparr>completed = False, transactionId = 1, tx_log = [(0, sample_log)], readsConflict = False, localSchema = Map.empty\<rparr>"

lemma sample_tx_inv: "log_inv (tb_log_inv LongType half_range) (tx_log sample_tx)"
proof -
  have "tb_valueType sample_multi = LongType" by (simp add: sample_multi_def)
  then have "tb_log_inv LongType half_range sample_multi"
    using longW.wire_type_axioms sample_multi_inv unfolding tb_log_inv_def by metis
  then show ?thesis by (simp add: log_inv_def sample_tx_def sample_log_def)
qed

lemma sample_look:
  "tb_log_look LongType half_range sample_multi (long 3) = Some (long 8)"
  "tb_log_look LongType half_range sample_multi (long 7) = None"
proof -
  have "tb_valueType sample_multi = LongType" "tb_forest sample_multi = sample_trees" by (simp_all add: sample_multi_def)
  moreover have "unique_look LongType half_range (rt_flat sample_trees) 3 = Some 8" "unique_look LongType half_range (rt_flat sample_trees) 7 = None"
    by (simp_all add: unique_look_def row_lookup_def sample_flat LongType_def LongCompare_def half_range_def)
  ultimately show "tb_log_look LongType half_range sample_multi (long 3) = Some (long 8)"
    "tb_log_look LongType half_range sample_multi (long 7) = None"
    by (simp_all add: tb_log_look_def wire_look_def)
qed

lemma long_rows: "x \<in> half_range \<Longrightarrow> long x \<in> wire_rows LongType half_range"
  by (auto simp: wire_rows_def)

theorem getValues_overlay_witness:
  "tx_getValues tb_table (\<lambda>cols ids. Inr (map (\<lambda>i. \<lparr>Values = [Some (long 1)], ID = i, newGroup = True\<rparr>) ids))
     sample_tx [0] [long 3, long 7] =
   Inr [\<lparr>Values = [Some (long 8)], ID = long 3, newGroup = True\<rparr>, \<lparr>Values = [None], ID = long 7, newGroup = True\<rparr>]"
proof -
  let ?db = "\<lambda>cols ids. Inr (map (\<lambda>i. \<lparr>Values = [Some (long 1)], ID = i, newGroup = True\<rparr>) ids)"
  let ?remote = "[\<lparr>Values = [Some (long 1)], ID = long 3, newGroup = True\<rparr>, \<lparr>Values = [Some (long 1)], ID = long 7, newGroup = True\<rparr>]"
  have k: "long 3 \<in> wire_rows LongType half_range" "long 7 \<in> wire_rows LongType half_range"
    by (rule long_rows, simp add: half_range_def)+
  have "tx_getValues tb_table ?db sample_tx [0] [long 3, long 7] =
      Inr (map (overlay_row (tb_log_look LongType half_range) sample_tx [0]) ?remote)"
    by (rule getValues_overlay [OF longW.wire_type_axioms sample_tx_inv]) (use k in simp_all)
  moreover have "map (overlay_row (tb_log_look LongType half_range) sample_tx [0]) ?remote =
      [\<lparr>Values = [Some (long 8)], ID = long 3, newGroup = True\<rparr>, \<lparr>Values = [None], ID = long 7, newGroup = True\<rparr>]"
    using sample_look by (simp add: overlay_row_def overlay_def sample_tx_def sample_log_def)
  ultimately show ?thesis by simp
qed

text \<open>
  C22. An exclude does not undo an include of the same transaction: a row that was included in a
  column and is then excluded from it is still returned with its value, since the log answers
  includes first and the exclude does not remove the include.
\<close>

theorem exclude_keeps_include:
  assumes "wire_type rty KR" "log_inv (tb_log_inv rty KR) (tx_log tx)"
    and "map_of (tx_log tx) col = Some c" "tb_log_look rty KR (log_includes c) r = Some v" "r \<in> wire_rows rty KR"
    and "db_getValues [col] [r] = Inr [row]" "ID row = r" "length (Values row) = 1"
  shows "\<exists>tx' row'. tx_exclude CreateBuffer dbSchema [col] r tx = Inr tx' \<and>
    tx_getValues tb_table db_getValues tx' [col] [r] = Inr [row'] \<and> Values row' = [Some v]"
proof -
  let ?c = "c\<lparr>log_excludes := List.insert r (log_excludes c)\<rparr>"
  let ?tx = "tx\<lparr>tx_log := put_log col ?c (tx_log tx)\<rparr>" and ?look = "tb_log_look rty KR"
  have ex: "tx_exclude CreateBuffer dbSchema [col] r tx = Inr ?tx"
    using assms(3) by (simp add: ensureColumnLog_def)
  have "log_inv (tb_log_inv rty KR) (tx_log ?tx)" using log_inv_put [OF assms(2)] log_invD [OF assms(2,3)] by simp
  from include_log.getValues_ok [OF tb_include_log [OF assms(1)] this, of db_getValues "[col]" "[r]" "[row]"] assms(5-8)
  have get: "tx_getValues tb_table db_getValues ?tx [col] [r] = Inr [overlay_row ?look ?tx [col] row]" by simp
  obtain w where "Values row = [w]" using assms(8) by (cases "Values row") auto
  then have "Values (overlay_row ?look ?tx [col] row) = [Some v]" using assms(4,7) by (simp add: overlay_row_def overlay_def)
  with ex get show ?thesis by blast
qed

theorem exclude_keeps_include_witness:
  "\<exists>tx' row'. tx_exclude (\<lambda>v r bt. Inl NullPointer) Map.empty [0] (long 3) sample_tx = Inr tx' \<and>
     tx_getValues tb_table (\<lambda>cols ids. Inr [\<lparr>Values = [None], ID = long 3, newGroup = True\<rparr>]) tx' [0] [long 3] = Inr [row'] \<and>
     Values row' = [Some (long 8)]"
proof -
  have "map_of (tx_log sample_tx) 0 = Some sample_log" "tb_log_look LongType half_range (log_includes sample_log) (long 3) = Some (long 8)"
    using sample_look by (simp_all add: sample_tx_def sample_log_def)
  moreover have "long 3 \<in> wire_rows LongType half_range" by (rule long_rows) (simp add: half_range_def)
  ultimately have "map_of (tx_log sample_tx) 0 = Some sample_log"
    "tb_log_look LongType half_range (log_includes sample_log) (long 3) = Some (long 8)"
    "long 3 \<in> wire_rows LongType half_range" by simp_all
  from exclude_keeps_include [OF longW.wire_type_axioms sample_tx_inv this] show ?thesis by simp
qed

text \<open>
  C23. A range read inside a transaction whose log has the range column (the column found at the
  position that the number of the range column gives in the requested columns): in every result,
  each row is one of the local range or is excluded by the transaction, so that all rows of the
  database that are neither are dropped; and with no excludes and an empty local range the read
  returns no row at all, whatever the database returned. The test of the excludes is inverted.
\<close>

theorem getRange_drops_rows:
  assumes "db_getRange columnIds rng lim startId = Inr remote"
    and "0 \<le> RangeColumn rng" "nat (RangeColumn rng) < length columnIds"
    and "map_of (tx_log tx) (columnIds ! nat (RangeColumn rng)) = Some c"
    and "cb_GetRows vt (log_includes c) (rangeToRangeRequest rng lim) = Inr localRange"
  shows "(\<forall>rs row. tx_getRange vt db_getRange tx columnIds rng lim startId = Some (Inr rs) \<longrightarrow>
      row \<in> set (Data remote) \<longrightarrow> ID row \<notin> set (log_excludes c) \<longrightarrow> ID row \<notin> local_ids localRange \<longrightarrow> ID row \<notin> ID ` set (Data rs))
    \<and> (log_excludes c = [] \<and> valueRowsList localRange = [] \<longrightarrow>
      (\<exists>rs. tx_getRange vt db_getRange tx columnIds rng lim startId = Some (Inr rs) \<and> Data rs = []))"
proof (intro conjI impI allI)
  fix rs row
  assume "tx_getRange vt db_getRange tx columnIds rng lim startId = Some (Inr rs)" "row \<in> set (Data remote)"
    and "ID row \<notin> set (log_excludes c)" "ID row \<notin> local_ids localRange"
  then show "ID row \<notin> ID ` set (Data rs)" using getRange_rows [of db_getRange columnIds rng lim startId, OF assms] by fastforce
next
  let ?log = "map (map_of (tx_log tx)) columnIds"
  assume e: "log_excludes c = [] \<and> valueRowsList localRange = []"
  have before: "merge_before vt ?log b localRange k row (0, 0, rows) = Some (Inr (0, 0, rows))" for b k row rows
    using e by (subst merge_before.simps) (simp add: merge_test_def)
  have "merge_remote vt ?log (Some c) localRange (RangeColumn rng) data (0, 0, []) = Some (Inr (0, 0, []))" for data
    using before e by (induction data) simp_all
  moreover have "append_local vt ?log localRange (RangeColumn rng) (0, 0, []) = Some (Inr [])"
    using e by (subst append_local.simps) simp
  ultimately show "\<exists>rs. tx_getRange vt db_getRange tx columnIds rng lim startId = Some (Inr rs) \<and> Data rs = []"
    unfolding getRange_logged [of db_getRange columnIds rng lim startId, OF assms] by simp
qed

definition range_tx :: "string list \<Rightarrow> (64 word, 64 word) TreeBuffer Transaction" where
  "range_tx ex = \<lparr>completed = False, transactionId = 1,
     tx_log = [(0, \<lparr>log_includes = sample_multi, log_excludes = ex, log_reads = [], log_revision = 0\<rparr>)],
     readsConflict = False, localSchema = Map.empty\<rparr>"

theorem getRange_drops_rows_witness:
  "\<exists>rs. tx_getRange tb_table
     (\<lambda>cols rng lim st. Inr \<lparr>Eof = True, Bof = True, Limited = False, Data = [\<lparr>Values = [Some (long 5)], ID = long 7, newGroup = True\<rparr>]\<rparr>)
     (range_tx []) [0] \<lparr>RangeColumn = 0, Start = Some \<lparr>Bound = long 9, Inclusive = True\<rparr>, End = None, Ascending = True\<rparr> 10 None = Some (Inr rs) \<and> Data rs = []"
proof -
  let ?rng = "\<lparr>RangeColumn = 0, Start = Some \<lparr>Bound = long 9, Inclusive = True\<rparr>, End = None, Ascending = True\<rparr>"
  let ?local = "\<lparr>valueRowsList = [], res_eof = True, res_bof = False, limited = False\<rparr>"
  let ?c = "\<lparr>log_includes = sample_multi, log_excludes = [], log_reads = [], log_revision = 0\<rparr>"
  have "tb_GetRows sample_multi (rangeToRangeRequest ?rng 10) = Inr ?local" by code_simp
  then have "cb_GetRows tb_table (log_includes ?c) (rangeToRangeRequest ?rng 10) = Inr ?local" by (simp add: tb_table_def)
  from getRange_drops_rows [where c = ?c and tx = "range_tx []" and columnIds = "[0]" and localRange = ?local, OF refl _ _ _ this]
  show ?thesis by (simp add: range_tx_def)
qed

text \<open>
  C24. A range read does not end when the first row the database returns is also the first row of
  the local range, with the same row id and the same value: the merge loop neither adds the
  local row nor steps over it. The range column is in the log (at the position that its number
  gives in the requested columns), its buffer satisfies its invariant and its types are not
  strings.
\<close>

theorem getRange_hangs:
  assumes "column_types rty KR vty KV" "TypeName rty \<notin> {''String'', ''WString''}" "TypeName vty \<notin> {''String'', ''WString''}"
    and "db_getRange columnIds rng lim startId = Inr remote" "Data remote = row # rest"
    and "0 \<le> RangeColumn rng" "nat (RangeColumn rng) < length columnIds"
    and "map_of (tx_log tx) (columnIds ! nat (RangeColumn rng)) = Some c" "tb_inv rty KR vty KV (log_includes c)"
    and "tb_GetRows (log_includes c) (rangeToRangeRequest rng lim) = Inr localRange"
    and "valueRowsList localRange = vr # vrs" "vrRowIDs vr = ID row # ids"
    and "nat (RangeColumn rng) < length (Values row)" "Values row ! nat (RangeColumn rng) = Some (vrValue vr)"
    and "vrValue vr \<in> wire_vals vty KV" "ID row \<in> wire_rows rty KR"
  shows "tx_getRange tb_table db_getRange tx columnIds rng lim startId = None"
proof -
  have ty: "tb_rowType (log_includes c) = rty" "tb_valueType (log_includes c) = vty" using assms(9) by (simp_all add: tb_inv_def)
  have so: "scalar_order rty KR" "scalar_order vty KV" using assms(1) by (simp_all add: column_types_def wire_type_def)
  have "compare_data vty (vrValue vr) (vrValue vr) = Inr 0"
    using assms(3) wire_valsD [OF assms(15)] scalar_order.cmp_refl [OF so(2)] by (simp add: compare_data_def)
  moreover have "compare_data rty (ID row) (ID row) = Inr 0"
    using assms(2) wire_rowsD [OF assms(16)] scalar_order.cmp_refl [OF so(1)] by (simp add: compare_data_def)
  ultimately have "merge_test tb_table (log_includes c) localRange (RangeColumn rng) row 0 0 = Inr Stay"
    using assms(6,11-14) ty by (simp add: merge_test_def tb_table_def atE_def nthE_def)
  note stay = merge_before_stay [OF this]
  have "cb_GetRows tb_table (log_includes c) (rangeToRangeRequest rng lim) = Inr localRange" using assms(10) by (simp add: tb_table_def)
  from getRange_logged [of db_getRange columnIds rng lim startId, OF assms(4,6,7,8) this] show ?thesis using assms(5) stay by simp
qed

text \<open>The first row of \<open>sample_multi\<close> is row 4 with value 5; the database returns the same.\<close>

lemma sample_range:
  "\<exists>res. tb_GetRows sample_multi \<lparr>ascending = True, limit = 10, first = None, last_bound = None, start_rowID = None\<rparr> = Inr res \<and>
     valueRowsList res = [\<lparr>vrValue = long 5, vrRowIDs = [long 4]\<rparr>, \<lparr>vrValue = long 8, vrRowIDs = [long 3, long 6]\<rparr>]"
proof -
  let ?r = "\<lparr>ascending = True, limit = 10, first = None, last_bound = None, start_rowID = None\<rparr>"
  have p: "shallow (rt_values (tb_forest sample_multi))" "bound_pointer LongType (first ?r) = Inr None"
    "bound_pointer LongType (last_bound ?r) = Inr None" "row_pointer LongType (start_rowID ?r) = Inr None"
    by (simp_all add: sample_multi_def sample_trees_def bound_pointer_def row_pointer_def)
  have k: "bound_in half_range (None :: (64 word \<times> bool) option)" "set_option (None :: 64 word option) \<subseteq> half_range" by simp_all
  have sk: "None = Option.bind None (tb_look LongType half_range sample_multi)" "(None :: 64 word option) = None \<longleftrightarrow> (None :: 64 word option) = None" by simp_all
  have i: "(None :: 64 word option) = None \<or> (case (None :: (64 word \<times> bool) option) of None \<Rightarrow> True | Some (_, i) \<Rightarrow> i)" by simp
  have m: "bounds_meet LongType (ascending ?r) (begin_bound None None) None" by code_simp
  have gs: "[(5, [4]), (8, [3, 6])] = map (group_of LongType LongType (rt_trees (tb_forest sample_multi)) (ascending ?r) None None)
      (selected LongType (ascending ?r) (begin_bound None None) None (contents (rt_values (tb_forest sample_multi))))"
    by code_simp
  have "id_limit 10 = 10" "map (wire_group LongType LongType) (limit_groups 10 [(5, [4]), (8, [3, 6])]) =
      [\<lparr>vrValue = long 5, vrRowIDs = [long 4]\<rparr>, \<lparr>vrValue = long 8, vrRowIDs = [long 3, long 6]\<rparr>]" by code_simp+
  with long_long.tb_get_rows [OF sample_multi_inv p(1,2) k(1) p(3) k(1) p(4) k(2) sk i m gs] show ?thesis by auto
qed

theorem getRange_hangs_witness:
  "tx_getRange tb_table
     (\<lambda>cols rng lim st. Inr \<lparr>Eof = True, Bof = True, Limited = False, Data = [\<lparr>Values = [Some (long 5)], ID = long 4, newGroup = True\<rparr>]\<rparr>)
     (range_tx []) [0] \<lparr>RangeColumn = 0, Start = None, End = None, Ascending = True\<rparr> 10 None = None"
proof -
  let ?rng = "\<lparr>RangeColumn = 0, Start = None, End = None, Ascending = True\<rparr>"
  let ?c = "\<lparr>log_includes = sample_multi, log_excludes = [], log_reads = [], log_revision = 0\<rparr>"
  obtain res where rows: "tb_GetRows sample_multi (rangeToRangeRequest ?rng 10) = Inr res"
    "valueRowsList res = [\<lparr>vrValue = long 5, vrRowIDs = [long 4]\<rparr>, \<lparr>vrValue = long 8, vrRowIDs = [long 3, long 6]\<rparr>]"
    using sample_range by (auto simp: rangeToRangeRequest_def)
  have K: "(5 :: 64 word) \<in> half_range" "(4 :: 64 word) \<in> half_range" by (simp_all add: half_range_def)
  have "CopyOut LongType 5 = Inr (long 5)" by (simp add: LongType_def CopyOutOfArray_def long_def)
  then have "long 5 \<in> wire_vals LongType half_range" using K(1) unfolding wire_vals_def by (auto intro!: bexI [of _ 5])
  moreover have "long 4 \<in> wire_rows LongType half_range" by (rule long_rows [OF K(2)])
  moreover have "TypeName LongType \<notin> {''String'', ''WString''}" by (simp add: LongType_def)
  ultimately show ?thesis
    by (intro getRange_hangs [where c = ?c and localRange = res and rest = "[]" and KV = half_range and KR = half_range and
        row = "\<lparr>Values = [Some (long 5)], ID = long 4, newGroup = True\<rparr>" and rty = LongType and vty = LongType
        and vr = "\<lparr>vrValue = long 5, vrRowIDs = [long 4]\<rparr>" and ids = "[]", OF long_long.column_types_axioms _ _ refl])
      (use rows sample_multi_inv in \<open>simp_all add: range_tx_def\<close>)
qed

end
