(* ===== verification/TreeInlineBuffer.thy ===== *)
theory TreeInlineBuffer
  imports TreeBuffer UniqueInlineBuffer
begin

text \<open>
  \<open>FastoreCommon/Buffer/TreeInlineBuffer.cpp\<close>: a column in which rows share values, for values
  that are small. The tree of values is the one of a \<open>TreeBuffer\<close>; the tree of rows holds the
  value itself in place of a pointer to its leaf, so that nothing has to be told when values
  move.
\<close>

section \<open>Operations\<close>

record ('r, 'v) TreeInlineBuffer =
  ti_rowType :: "'r ScalarType"
  ti_valueType :: "'v ScalarType"
  ti_rows :: "('r, 'v) BTree"
  ti_forest :: "('r, 'v) RowTrees"
  ti_unique :: int
  ti_total :: int

definition new_TreeInlineBuffer :: "'r ScalarType \<Rightarrow> 'v ScalarType \<Rightarrow> ('r, 'v) TreeInlineBuffer" where
  "new_TreeInlineBuffer rty vty =
     \<lparr>ti_rowType = rty, ti_valueType = vty, ti_rows = new_BTree rty False, ti_forest = new_RowTrees vty, ti_unique = 0, ti_total = 0\<rparr>"

definition ti_GetStatistic :: "('r, 'v) TreeInlineBuffer \<Rightarrow> Statistic" where
  "ti_GetStatistic b = \<lparr>total = ti_total b, unique = ti_unique b\<rparr>"

definition ti_GetValuePtr :: "('r, 'v) TreeInlineBuffer \<Rightarrow> 'r \<Rightarrow> err + 'v option" where
  "ti_GetValuePtr b rowId =
     bindE (iter_findNearest (ti_rows b) rowId) (\<lambda>(it, match).
       if match then bindE (iter_get (ti_rows b) it) (\<lambda>e. Inr (snd e)) else Inr None)"

definition ti_GetValues :: "('r, 'v) TreeInlineBuffer \<Rightarrow> string list \<Rightarrow> err + OptionalValue list" where
  "ti_GetValues b rowIds =
     mapE (\<lambda>rowId.
       bindE (GetPointer (ti_rowType b) rowId) (\<lambda>r.
       bindE (ti_GetValuePtr b r) (\<lambda>result.
         case result of
           None \<Rightarrow> Inr None
         | Some v \<Rightarrow> bindE (CopyOut (ti_valueType b) v) (\<lambda>value. Inr (Some value))))) rowIds"

definition ti_Include :: "('r, 'v) TreeInlineBuffer \<Rightarrow> 'r \<Rightarrow> 'v \<Rightarrow> err + ('r, 'v) TreeInlineBuffer \<times> bool" where
  "ti_Include b rowId value =
     bindE (GetPath (ti_rows b) rowId) (\<lambda>rowpath.
       if Match rowpath then Inr (b, False)
       else
         bindE (GetPath (rt_values (ti_forest b)) value) (\<lambda>path.
           if Match path
           then
             bindE (add_to_value (ti_forest b) path rowId) (\<lambda>F.
             bindE (Insert (ti_rows b) rowpath rowId value) (\<lambda>(rows, _).
               Inr (b\<lparr>ti_forest := F, ti_rows := rows, ti_total := ti_total b + 1\<rparr>, True)))
           else
             bindE (new_row_tree (ti_rowType b) (ti_forest b) rowId) (\<lambda>(newRows, F1).
             bindE (Insert (ti_rows b) rowpath rowId value) (\<lambda>(rows, _).
             bindE (insert_value F1 path value newRows) (\<lambda>(F, _).
               Inr (b\<lparr>ti_forest := F, ti_rows := rows, ti_unique := ti_unique b + 1, ti_total := ti_total b + 1\<rparr>, True))))))"

definition ti_ExcludeValue :: "('r, 'v) TreeInlineBuffer \<Rightarrow> 'v option \<Rightarrow> 'r \<Rightarrow> err + ('r, 'v) TreeInlineBuffer \<times> bool" where
  "ti_ExcludeValue b value rowId =
     bindE (GetPath (ti_rows b) rowId) (\<lambda>rowpath.
       if \<not> Match rowpath then Inr (b, False)
       else
         bindE (GetPathPtr (rt_values (ti_forest b)) value) (\<lambda>path.
           if Match path
           then
             bindE (remove_from_value (ti_forest b) path rowId) (\<lambda>(F, gone).
             bindE (Delete (ti_rows b) rowpath) (\<lambda>rows.
               Inr (b\<lparr>ti_forest := F, ti_rows := rows, ti_unique := (if gone then ti_unique b - 1 else ti_unique b),
                      ti_total := ti_total b - 1\<rparr>, True)))
           else Inr (b, False)))"

definition ti_Exclude :: "('r, 'v) TreeInlineBuffer \<Rightarrow> 'r \<Rightarrow> err + ('r, 'v) TreeInlineBuffer \<times> bool" where
  "ti_Exclude b rowId = bindE (ti_GetValuePtr b rowId) (\<lambda>val. ti_ExcludeValue b val rowId)"

definition ti_Apply :: "('r, 'v) TreeInlineBuffer \<Rightarrow> ColumnWrites \<Rightarrow> err + ('r, 'v) TreeInlineBuffer" where
  "ti_Apply b writes =
     apply_writes (GetPointer (ti_valueType b)) (GetPointer (ti_rowType b)) ti_Exclude ti_Include writes b"

definition ti_GetRows :: "('r, 'v) TreeInlineBuffer \<Rightarrow> RangeRequest \<Rightarrow> err + RangeResult" where
  "ti_GetRows b rng = rt_GetRows (ti_valueType b) (ti_rowType b) (ti_forest b) (ti_GetValuePtr b) rng"

section \<open>The invariant\<close>

text \<open>
  The tree of rows mirrors the rows under the values. A row added to a value that is there keeps
  its own copy of the value, which is the same only where values that compare equal are equal.
\<close>

locale exact_types = column_types +
  assumes exact: "v \<in> KV \<Longrightarrow> w \<in> KV \<Longrightarrow> Compare vty v w = 0 \<Longrightarrow> v = w"

definition ti_inv :: "'r ScalarType \<Rightarrow> 'r set \<Rightarrow> 'v ScalarType \<Rightarrow> 'v set \<Rightarrow> ('r, 'v) TreeInlineBuffer \<Rightarrow> bool" where
  "ti_inv rty KR vty KV b \<longleftrightarrow> ti_rowType b = rty \<and> ti_valueType b = vty \<and>
     btree_inv rty KR (ti_rows b) \<and> \<not> keyOnly (ti_rows b) \<and> rt_inv rty KR vty KV (ti_forest b) \<and>
     mirror (set (contents (ti_rows b))) (set (rt_flat (ti_forest b))) \<and>
     ti_total b = int (length (contents (ti_rows b))) \<and> ti_unique b = int (length (contents (rt_values (ti_forest b))))"

abbreviation ti_look :: "'r ScalarType \<Rightarrow> 'r set \<Rightarrow> ('r, 'v) TreeInlineBuffer \<Rightarrow> 'r \<Rightarrow> 'v option" where
  "ti_look rty KR b \<equiv> unique_look rty KR (rt_flat (ti_forest b))"

definition ti_safe :: "('r, 'v) TreeInlineBuffer \<Rightarrow> 'r \<Rightarrow> bool" where
  "ti_safe b r \<longleftrightarrow> tree_safe (ti_rows b) r \<and>
     (case ti_GetValuePtr b r of
        Inl _ \<Rightarrow> False
      | Inr None \<Rightarrow> True
      | Inr (Some v) \<Rightarrow>
          (case bindE (GetPath (rt_values (ti_forest b)) v) (path_value (rt_values (ti_forest b))) of
             Inl _ \<Rightarrow> False
           | Inr p \<Rightarrow> (case rt_trees (ti_forest b) p of
               None \<Rightarrow> False
             | Some T \<Rightarrow> tree_safe T r \<and> (length (contents T) = 1 \<longrightarrow> tree_stays (rt_values (ti_forest b)) v))))"

lemma flat_new [simp]: "rt_flat (new_RowTrees vty) = []"
  by (simp add: rt_flat_def)

lemma new_TreeInlineBuffer_inv: "ti_inv rty KR vty KV (new_TreeInlineBuffer rty vty)"
  by (simp add: ti_inv_def new_TreeInlineBuffer_def new_RowTrees_inv new_BTree_btree_inv mirror_def) (simp add: new_BTree_def)

interpretation long_exact: exact_types LongType half_range LongType half_range
  by unfold_locales (simp add: LongType_def LongCompare_def Let_def split: if_splits)

context exact_types
begin

lemma ti_unique_rows:
  assumes "ti_inv rty KR vty KV b"
  shows "unique_rows rty KR (set (rt_flat (ti_forest b)))"
proof -
  note inv = assms [unfolded ti_inv_def]
  have K: "r \<in> KR" if "(v, Some r) \<in> set (rt_flat (ti_forest b))" for r v using rt_rows_K [OF _ that] inv by blast
  show ?thesis unfolding unique_rows_def
  proof (intro conjI ballI allI impI)
    show "\<exists>v. \<exists>r\<in>KR. e = (v, Some r)" if "e \<in> set (rt_flat (ti_forest b))" for e
      using mirror_value [OF _ that] that inv K by metis
    fix v r v' r'
    assume "(v, Some r) \<in> set (rt_flat (ti_forest b))" "(v', Some r') \<in> set (rt_flat (ti_forest b))" and c: "Compare rty r r' = 0"
    then have "(r, Some v) \<in> set (contents (ti_rows b))" "(r', Some v') \<in> set (contents (ti_rows b))" using inv by (simp_all add: mirror_def)
    from row.entry_unique [OF _ this] c inv show "v = v'" "r = r'" by simp_all
  qed
qed

lemma ti_look_rows:
  assumes b: "ti_inv rty KR vty KV b" and x: "x \<in> KR"
  shows "ti_look rty KR b x = Option.bind (tree_lookup rty (contents (ti_rows b)) x) snd"
    "ti_look rty KR b x = None \<longleftrightarrow> tree_lookup rty (contents (ti_rows b)) x = None"
proof -
  note inv = b [unfolded ti_inv_def]
  have lk: "tree_lookup rty (contents (ti_rows b)) x = Some e \<longleftrightarrow> e \<in> set (contents (ti_rows b)) \<and> Compare rty x (fst e) = 0" for e
    using row.lookup_iff [of "ti_rows b" x e] inv x by simp
  have m: "(r, Some v) \<in> set (contents (ti_rows b)) \<longleftrightarrow> (v, Some r) \<in> set (rt_flat (ti_forest b))" for r v
    using inv by (simp add: mirror_def)
  show eq: "ti_look rty KR b x = Option.bind (tree_lookup rty (contents (ti_rows b)) x) snd"
  proof (rule option_eqI)
    fix v
    have "Option.bind (tree_lookup rty (contents (ti_rows b)) x) snd = Some v \<longleftrightarrow>
        (\<exists>r. (r, Some v) \<in> set (contents (ti_rows b)) \<and> Compare rty x r = 0)" using lk by (auto simp: bind_eq_Some_conv)
    then show "ti_look rty KR b x = Some v \<longleftrightarrow> Option.bind (tree_lookup rty (contents (ti_rows b)) x) snd = Some v"
      using unique_look_iff [OF ti_unique_rows [OF b], of x v] x m by simp
  qed
  have "snd e \<noteq> None" if "tree_lookup rty (contents (ti_rows b)) x = Some e" for e
    using lk [of e] that inv unfolding mirror_def by (metis prod.collapse)
  with eq show "ti_look rty KR b x = None \<longleftrightarrow> tree_lookup rty (contents (ti_rows b)) x = None"
    by (cases "tree_lookup rty (contents (ti_rows b)) x") auto
qed

lemma ti_GetValuePtr_look:
  assumes "ti_inv rty KR vty KV b" "r \<in> KR"
  shows "ti_GetValuePtr b r = Inr (ti_look rty KR b r)"
proof (cases "tree_lookup rty (contents (ti_rows b)) r")
  case None
  then obtain it where "iter_findNearest (ti_rows b) r = Inr (it, False)"
    using row.findNearest_missing [of "ti_rows b" r] assms by (auto simp: ti_inv_def)
  with None ti_look_rows [OF assms] show ?thesis by (simp add: ti_GetValuePtr_def)
next
  case (Some e)
  then obtain it where "iter_findNearest (ti_rows b) r = Inr (it, True)" "iter_get (ti_rows b) it = Inr e"
    using row.findNearest_lookup [of "ti_rows b" r e] assms by (auto simp: ti_inv_def)
  with Some ti_look_rows [OF assms] show ?thesis by (simp add: ti_GetValuePtr_def)
qed

lemma ti_insert_row:
  assumes b: "ti_inv rty KR vty KV b" and r: "r \<in> KR" and rp: "GetPath (ti_rows b) r = Inr rp" "\<not> Match rp"
  shows "\<exists>R m. Insert (ti_rows b) rp r v = Inr (R, m) \<and> btree_inv rty KR R \<and> \<not> keyOnly R \<and>
    set (contents R) = insert (r, Some v) (set (contents (ti_rows b))) \<and> length (contents R) = Suc (length (contents (ti_rows b)))"
  using row.Insert_map [of "ti_rows b" r rp v] b r rp by (auto simp: slot_def ti_inv_def)

lemma ti_Include_old:
  assumes b: "ti_inv rty KR vty KV b" and r: "r \<in> KR" and v: "v \<in> KV" and none: "ti_look rty KR b r = None"
    and rp: "GetPath (ti_rows b) r = Inr rp" "\<not> Match rp" and vp: "GetPath (rt_values (ti_forest b)) v = Inr vp" "Match vp"
  shows "\<exists>b'. ti_Include b r v = Inr (b', True) \<and> ti_inv rty KR vty KV b'"
proof -
  note inv = b [unfolded ti_inv_def]
  let ?F = "ti_forest b"
  have F: "rt_inv rty KR vty KV ?F" using inv by simp
  note f = rt_invD [OF F]
  obtain v0 w where lk: "tree_lookup vty (contents (rt_values ?F)) v = Some (v0, w)"
    using val.GetPath_lookup [OF f(1) v] vp by (cases "tree_lookup vty (contents (rt_values ?F)) v") auto
  have e: "(v0, w) \<in> set (contents (rt_values ?F))" "Compare vty v v0 = 0" using val.lookup_iff [OF f(1) v, of "(v0, w)"] lk by simp_all
  obtain p where w: "w = Some p" using f(4) [OF e(1)] by blast
  have v0: "v0 = v" using val.contents_K [OF f(1) e(1)] exact [OF v _ e(2)] by simp
  have new: "\<forall>r'\<in>set (tree_rows (rt_trees ?F) p). Compare rty r r' \<noteq> 0"
  proof (intro ballI notI)
    fix r' assume "r' \<in> set (tree_rows (rt_trees ?F) p)" "Compare rty r r' = 0"
    then have "ti_look rty KR b r = Some v0" unfolding unique_look_iff [OF ti_unique_rows [OF b]] rt_flat_iff using r e(1) w by blast
    with none show False by simp
  qed
  obtain F' where F': "add_to_value ?F vp r = Inr F'" "rt_inv rty KR vty KV F'" "rt_values F' = rt_values ?F"
    "set (rt_flat F') = insert (v, Some r) (set (rt_flat ?F))"
    using rt_add [OF F r v vp(1) lk [unfolded w] new] v0 by blast
  obtain R m where R: "Insert (ti_rows b) rp r v = Inr (R, m)" "btree_inv rty KR R" "\<not> keyOnly R"
    "set (contents R) = insert (r, Some v) (set (contents (ti_rows b)))" "length (contents R) = Suc (length (contents (ti_rows b)))"
    using ti_insert_row [OF b r rp] by blast
  let ?b = "b\<lparr>ti_forest := F', ti_rows := R, ti_total := ti_total b + 1\<rparr>"
  have "ti_inv rty KR vty KV ?b" using inv F'(2-4) R by (simp add: ti_inv_def mirror_insert)
  moreover have "ti_Include b r v = Inr (?b, True)" using rp vp F'(1) R(1) by (simp add: ti_Include_def)
  ultimately show ?thesis by blast
qed

lemma ti_Include_new:
  assumes b: "ti_inv rty KR vty KV b" and r: "r \<in> KR" and v: "v \<in> KV"
    and rp: "GetPath (ti_rows b) r = Inr rp" "\<not> Match rp" and vp: "GetPath (rt_values (ti_forest b)) v = Inr vp" "\<not> Match vp"
  shows "\<exists>b'. ti_Include b r v = Inr (b', True) \<and> ti_inv rty KR vty KV b'"
proof -
  note inv = b [unfolded ti_inv_def]
  let ?F = "ti_forest b"
  have F: "rt_inv rty KR vty KV ?F" using inv by simp
  obtain F1 F' moved where F': "new_row_tree rty ?F r = Inr (rt_next ?F, F1)" "insert_value F1 vp v (rt_next ?F) = Inr (F', moved)"
    "rt_inv rty KR vty KV F'" "length (contents (rt_values F')) = Suc (length (contents (rt_values ?F)))"
    "set (rt_flat F') = insert (v, Some r) (set (rt_flat ?F))"
    using rt_new [OF F r v vp] by (elim exE conjE) (rule that)
  obtain R m where R: "Insert (ti_rows b) rp r v = Inr (R, m)" "btree_inv rty KR R" "\<not> keyOnly R"
    "set (contents R) = insert (r, Some v) (set (contents (ti_rows b)))" "length (contents R) = Suc (length (contents (ti_rows b)))"
    using ti_insert_row [OF b r rp] by blast
  let ?b = "b\<lparr>ti_forest := F', ti_rows := R, ti_unique := ti_unique b + 1, ti_total := ti_total b + 1\<rparr>"
  have "ti_inv rty KR vty KV ?b" using inv F'(3-5) R by (simp add: ti_inv_def mirror_insert)
  moreover have "ti_Include b r v = Inr (?b, True)" using rp vp F'(1,2) R(1) inv by (simp add: ti_Include_def)
  ultimately show ?thesis by blast
qed

lemma ti_row_path:
  assumes "ti_inv rty KR vty KV b" "r \<in> KR"
  shows "\<exists>rp. GetPath (ti_rows b) r = Inr rp \<and> (Match rp \<longleftrightarrow> ti_look rty KR b r \<noteq> None)"
  using row.GetPath_lookup [of "ti_rows b" r] ti_look_rows(2) [OF assms] assms by (auto simp: ti_inv_def)

lemma ti_Include_ok:
  assumes b: "ti_inv rty KR vty KV b" and r: "r \<in> KR" and v: "v \<in> KV"
  shows "\<exists>b' c. ti_Include b r v = Inr (b', c) \<and> ti_inv rty KR vty KV b'"
proof -
  obtain rp where rp: "GetPath (ti_rows b) r = Inr rp" "Match rp \<longleftrightarrow> ti_look rty KR b r \<noteq> None" using ti_row_path [OF b r] by blast
  obtain vp where vp: "GetPath (rt_values (ti_forest b)) v = Inr vp"
    using val.GetPath_lookup [of "rt_values (ti_forest b)" v] v b rt_invD(1) [of rty KR vty KV "ti_forest b"] by (auto simp: ti_inv_def)
  show ?thesis
  proof (cases "Match rp")
    case True
    then have "ti_Include b r v = Inr (b, False)" using rp(1) by (simp add: ti_Include_def)
    with b show ?thesis by blast
  next
    case False
    with rp(2) ti_Include_old [OF b r v _ rp(1) False vp] ti_Include_new [OF b r v rp(1) False vp] show ?thesis by (cases "Match vp") blast+
  qed
qed

lemma ti_Exclude_there:
  assumes b: "ti_inv rty KR vty KV b" and r: "r \<in> KR" and safe: "ti_safe b r" and Some: "ti_look rty KR b r = Some v"
  shows "\<exists>b'. ti_Exclude b r = Inr (b', True) \<and> ti_inv rty KR vty KV b'"
proof -
  note inv = b [unfolded ti_inv_def]
  let ?F = "ti_forest b"
  have F: "rt_inv rty KR vty KV ?F" using inv by simp
  note f = rt_invD [OF F] and get = ti_GetValuePtr_look [OF b r, unfolded Some]
  obtain r0 where r0: "(v, Some r0) \<in> set (rt_flat ?F)" "Compare rty r r0 = 0" using Some unique_look_iff [OF ti_unique_rows [OF b]] by blast
  obtain p where p: "(v, Some p) \<in> set (contents (rt_values ?F))" "r0 \<in> set (tree_rows (rt_trees ?F) p)" using r0(1) by (auto simp: rt_flat_iff)
  have v: "v \<in> KV" using val.contents_K [OF f(1) p(1)] by simp
  have lk: "tree_lookup vty (contents (rt_values ?F)) v = Some (v, Some p)" using val.lookup_iff [OF f(1) v] p(1) val.cmp_refl [OF v] by simp
  obtain vp where vp: "GetPath (rt_values ?F) v = Inr vp" "Match vp" "path_value (rt_values ?F) vp = Inr p"
    using val.GetPath_lookup [OF f(1) v] lk by auto
  have "(r0, Some v) \<in> set (contents (ti_rows b))" using r0(1) inv by (simp add: mirror_def)
  then have lr: "tree_lookup rty (contents (ti_rows b)) r = Some (r0, Some v)" using row.lookup_iff [of "ti_rows b" r] inv r r0(2) by simp
  obtain rp where rp: "GetPath (ti_rows b) r = Inr rp" "Match rp" using ti_row_path [OF b r] Some by auto
  have s1: "\<forall>T. rt_trees ?F p = Some T \<longrightarrow> tree_safe T r \<and> (length (contents T) = 1 \<longrightarrow> stays (rt_values ?F) vp)"
    using safe get vp by (simp add: ti_safe_def tree_stays_def split: option.splits)
  obtain F' gone where F': "remove_from_value ?F vp r = Inr (F', gone)" "rt_inv rty KR vty KV F'"
    "set (rt_flat F') = set (rt_flat ?F) - {(v, Some r0)}"
    "if gone then set (tree_rows (rt_trees ?F) p) = {r0} \<and> length (contents (rt_values ?F)) = Suc (length (contents (rt_values F'))) \<and>
       set (located (rt_values F')) = {x \<in> set (located (rt_values ?F)). snd x \<noteq> (v, Some p)}
     else rt_values F' = rt_values ?F"
    using rt_remove [OF F r v vp(1) lk p(2) r0(2) s1] by blast
  have "delete_safe (ti_rows b) rp" using safe rp by (simp add: ti_safe_def tree_safe_def)
  then obtain R where R: "Delete (ti_rows b) rp = Inr R" "btree_inv rty KR R" "keyOnly R = keyOnly (ti_rows b)"
    "set (contents R) = set (contents (ti_rows b)) - {(r0, Some v)}" "length (contents (ti_rows b)) = Suc (length (contents R))"
    using row.Delete_map [of "ti_rows b" r rp] inv r rp lr by auto
  let ?b = "b\<lparr>ti_forest := F', ti_rows := R, ti_unique := (if gone then ti_unique b - 1 else ti_unique b), ti_total := ti_total b - 1\<rparr>"
  have "ti_inv rty KR vty KV ?b" using inv F'(2-4) R(2-5) by (simp add: ti_inv_def mirror_delete split: if_splits)
  moreover have "ti_Exclude b r = Inr (?b, True)" using get rp vp(1,2) F'(1) R(1) by (simp add: ti_Exclude_def ti_ExcludeValue_def)
  ultimately show ?thesis by blast
qed

lemma ti_Exclude_ok:
  assumes b: "ti_inv rty KR vty KV b" and r: "r \<in> KR" and safe: "ti_safe b r"
  shows "\<exists>b' c. ti_Exclude b r = Inr (b', c) \<and> ti_inv rty KR vty KV b'"
proof (cases "ti_look rty KR b r")
  case None
  obtain rp where "GetPath (ti_rows b) r = Inr rp" "\<not> Match rp" using ti_row_path [OF b r] None by auto
  then have "ti_Exclude b r = Inr (b, False)"
    using ti_GetValuePtr_look [OF b r] None by (simp add: ti_Exclude_def ti_ExcludeValue_def)
  with b show ?thesis by blast
next
  case (Some v)
  with ti_Exclude_there [OF b r safe Some] show ?thesis by blast
qed

end

section \<open>Two buffers in step\<close>

lemma mapE_cong: "(\<And>x. x \<in> set xs \<Longrightarrow> f x = g x) \<Longrightarrow> mapE f xs = mapE g xs"
  by (induction xs) simp_all

lemma rt_GetRows_cong:
  assumes "\<And>s. row_pointer rty (start_rowID rng) = Inr (Some s) \<Longrightarrow> get s = get' s"
  shows "rt_GetRows vty rty F get rng = rt_GetRows vty rty F get' rng"
proof (cases "row_pointer rty (start_rowID rng)")
  case (Inr sid)
  with assms have "map_option get sid = map_option get' sid" by (cases sid) simp_all
  with Inr show ?thesis by (simp add: rt_GetRows_def)
qed (simp add: rt_GetRows_def)

text \<open>
  Two implementations of a column whose writes succeed together: a batch of writes takes
  related states to related states.
\<close>

locale buffer_pair =
  fixes related :: "'s \<Rightarrow> 't \<Rightarrow> bool" and rowset :: "'r set" and fits :: "'v \<Rightarrow> bool"
    and safe1 :: "'s \<Rightarrow> 'r \<Rightarrow> bool" and safe2 :: "'t \<Rightarrow> 'r \<Rightarrow> bool"
    and excl1 :: "'s \<Rightarrow> 'r \<Rightarrow> err + 's \<times> bool" and excl2 :: "'t \<Rightarrow> 'r \<Rightarrow> err + 't \<times> bool"
    and incl1 :: "'s \<Rightarrow> 'r \<Rightarrow> 'v \<Rightarrow> err + 's \<times> bool" and incl2 :: "'t \<Rightarrow> 'r \<Rightarrow> 'v \<Rightarrow> err + 't \<times> bool"
  assumes excl_step: "related s t \<Longrightarrow> r \<in> rowset \<Longrightarrow> safe1 s r \<Longrightarrow> safe2 t r \<Longrightarrow>
      \<exists>s' t' b. excl1 s r = Inr (s', b) \<and> excl2 t r = Inr (t', b) \<and> related s' t'"
    and incl_step: "related s t \<Longrightarrow> r \<in> rowset \<Longrightarrow> fits v \<Longrightarrow>
      \<exists>s' t' b. incl1 s r v = Inr (s', b) \<and> incl2 t r v = Inr (t', b) \<and> related s' t'"
begin

lemma excludes_in_step:
  assumes "related s t" "list_all2 (\<lambda>x r. rp (cell_rowID x) = Inr r) xs rs" "set rs \<subseteq> rowset"
    "all_safe safe1 excl1 s rs" "all_safe safe2 excl2 t rs"
  shows "\<exists>s' t'. foldE (\<lambda>x s. bindE (rp (cell_rowID x)) (\<lambda>rowId. bindE (excl1 s rowId) (\<lambda>(s', b). Inr s'))) xs s = Inr s' \<and>
    foldE (\<lambda>x s. bindE (rp (cell_rowID x)) (\<lambda>rowId. bindE (excl2 s rowId) (\<lambda>(s', b). Inr s'))) xs t = Inr t' \<and> related s' t'"
  using assms
proof (induction xs arbitrary: s t rs)
  case (Cons x xs)
  then obtain r rs' where rs: "rs = r # rs'" "rp (cell_rowID x) = Inr r" "list_all2 (\<lambda>x r. rp (cell_rowID x) = Inr r) xs rs'"
    by (auto simp: list_all2_Cons1)
  obtain s1 t1 b where s1: "excl1 s r = Inr (s1, b)" "excl2 t r = Inr (t1, b)" "related s1 t1"
    using excl_step [OF Cons.prems(1), of r] Cons.prems(3-5) rs(1) by auto
  from Cons.IH [OF s1(3) rs(3)] Cons.prems(3-5) rs(1,2) s1(1,2) show ?case by simp
qed simp

lemma includes_in_step:
  assumes "related s t" "list_all2 (\<lambda>x p. rp (cell_rowID x) = Inr (fst p) \<and> vp (cell_value x) = Inr (snd p)) xs ps"
    and "\<forall>(r, v)\<in>set ps. r \<in> rowset \<and> fits v"
  shows "\<exists>s' t'. foldE (\<lambda>x s. bindE (vp (cell_value x)) (\<lambda>value. bindE (rp (cell_rowID x)) (\<lambda>rowId.
      bindE (incl1 s rowId value) (\<lambda>(s', b). Inr s')))) xs s = Inr s' \<and>
    foldE (\<lambda>x s. bindE (vp (cell_value x)) (\<lambda>value. bindE (rp (cell_rowID x)) (\<lambda>rowId.
      bindE (incl2 s rowId value) (\<lambda>(s', b). Inr s')))) xs t = Inr t' \<and> related s' t'"
  using assms
proof (induction xs arbitrary: s t ps)
  case (Cons x xs)
  then obtain r v ps' where ps: "ps = (r, v) # ps'" "rp (cell_rowID x) = Inr r" "vp (cell_value x) = Inr v"
    "list_all2 (\<lambda>x p. rp (cell_rowID x) = Inr (fst p) \<and> vp (cell_value x) = Inr (snd p)) xs ps'"
    by (auto simp: list_all2_Cons1)
  obtain s1 t1 b where s1: "incl1 s r v = Inr (s1, b)" "incl2 t r v = Inr (t1, b)" "related s1 t1"
    using incl_step [OF Cons.prems(1), of r v] Cons.prems(3) ps(1) by auto
  from Cons.IH [OF s1(3) ps(4)] Cons.prems(3) ps s1(1,2) show ?case by simp
qed simp

lemma apply_in_step:
  assumes "related s t" "list_all2 (\<lambda>x r. rp (cell_rowID x) = Inr r) (cw_excludes w) rs" "set rs \<subseteq> rowset"
    "all_safe safe1 excl1 s rs" "all_safe safe2 excl2 t rs"
    and "list_all2 (\<lambda>x p. rp (cell_rowID x) = Inr (fst p) \<and> vp (cell_value x) = Inr (snd p)) (cw_includes w) ps"
    and "\<forall>(r, v)\<in>set ps. r \<in> rowset \<and> fits v"
  shows "\<exists>s' t'. apply_writes vp rp excl1 incl1 w s = Inr s' \<and> apply_writes vp rp excl2 incl2 w t = Inr t' \<and> related s' t'"
proof -
  obtain s1 t1 where st: "foldE (\<lambda>x s. bindE (rp (cell_rowID x)) (\<lambda>rowId. bindE (excl1 s rowId) (\<lambda>(s', b). Inr s'))) (cw_excludes w) s = Inr s1"
    "foldE (\<lambda>x s. bindE (rp (cell_rowID x)) (\<lambda>rowId. bindE (excl2 s rowId) (\<lambda>(s', b). Inr s'))) (cw_excludes w) t = Inr t1" "related s1 t1"
    using excludes_in_step [OF assms(1-5)] by blast
  show ?thesis unfolding apply_writes_def st(1,2) bindE_simps by (rule includes_in_step [OF st(3) assms(6,7)])
qed

end

text \<open>The two buffers hold the same trees of values and rows, and as many rows.\<close>

definition same_column ::
  "'r ScalarType \<Rightarrow> 'r set \<Rightarrow> 'v ScalarType \<Rightarrow> 'v set \<Rightarrow> ('r, 'v) TreeBuffer \<Rightarrow> ('r, 'v) TreeInlineBuffer \<Rightarrow> bool"
where
  "same_column rty KR vty KV b c \<longleftrightarrow> tb_inv rty KR vty KV b \<and> ti_inv rty KR vty KV c \<and> tb_forest b = ti_forest c \<and> tb_total b = ti_total c"

context exact_types
begin

lemma same_Exclude:
  assumes s: "same_column rty KR vty KV b c" and r: "r \<in> KR" and safe: "tb_safe b r" "ti_safe c r"
  shows "\<exists>b' c' x. tb_Exclude b r = Inr (b', x) \<and> ti_Exclude c r = Inr (c', x) \<and> same_column rty KR vty KV b' c'"
proof -
  note sc = s [unfolded same_column_def]
  have tb: "tb_inv rty KR vty KV b" and ti: "ti_inv rty KR vty KV c" and F: "tb_forest b = ti_forest c" using sc by simp_all
  obtain b' x where b': "tb_Exclude b r = Inr (b', x)" "tb_inv rty KR vty KV b'" using tb_Exclude_ok [OF tb r safe(1)] by blast
  obtain c' y where c': "ti_Exclude c r = Inr (c', y)" "ti_inv rty KR vty KV c'" using ti_Exclude_ok [OF ti r safe(2)] by blast
  obtain rp where rp: "GetPath (tb_rows b) r = Inr rp" "Match rp \<longleftrightarrow> ti_look rty KR c r \<noteq> None"
    using row.GetPath_lookup [OF tb_K(2) [OF tb] r] tb_look_None_iff [OF tb r] F by auto
  obtain rq where rq: "GetPath (ti_rows c) r = Inr rq" "Match rq \<longleftrightarrow> ti_look rty KR c r \<noteq> None" using ti_row_path [OF ti r] by blast
  have get: "tb_GetValuePtr b r = Inr (ti_look rty KR c r)" "ti_GetValuePtr c r = Inr (ti_look rty KR c r)"
    using tb_GetValuePtr_look [OF tb r] ti_GetValuePtr_look [OF ti r] F by simp_all
  have tbx: "tb_ExcludeValue b (ti_look rty KR c r) r = Inr (b', x)" and tix: "ti_ExcludeValue c (ti_look rty KR c r) r = Inr (c', y)"
    using b'(1) c'(1) get by (simp_all add: tb_Exclude_def ti_Exclude_def)
  have "x = y \<and> tb_forest b' = ti_forest c' \<and> tb_total b' = ti_total c'"
  proof (cases "Match rp")
    case False
    then show ?thesis using tbx tix rp rq sc by (simp add: tb_ExcludeValue_def ti_ExcludeValue_def)
  next
    case True
    obtain vp where vp: "GetPathPtr (rt_values (ti_forest c)) (ti_look rty KR c r) = Inr vp"
      using tix True rp rq by (auto simp: ti_ExcludeValue_def bindE_Inr_conv)
    show ?thesis using tbx tix True rp rq vp F sc
      by (cases "Match vp") (auto simp: tb_ExcludeValue_def ti_ExcludeValue_def bindE_Inr_conv)
  qed
  with b' c' show ?thesis by (auto simp: same_column_def)
qed

lemma same_Include:
  assumes s: "same_column rty KR vty KV b c" and r: "r \<in> KR" and v: "v \<in> KV"
  shows "\<exists>b' c' x. tb_Include b r v = Inr (b', x) \<and> ti_Include c r v = Inr (c', x) \<and> same_column rty KR vty KV b' c'"
proof -
  note sc = s [unfolded same_column_def]
  have tb: "tb_inv rty KR vty KV b" and ti: "ti_inv rty KR vty KV c" using sc by simp_all
  have ty: "tb_rowType b = rty" "ti_rowType c = rty" using tb ti by (simp_all add: tb_inv_def ti_inv_def)
  obtain b' x where b': "tb_Include b r v = Inr (b', x)" "tb_inv rty KR vty KV b'" using tb_Include_ok [OF tb r v] by blast
  obtain c' y where c': "ti_Include c r v = Inr (c', y)" "ti_inv rty KR vty KV c'" using ti_Include_ok [OF ti r v] by blast
  obtain rp where rp: "GetPath (tb_rows b) r = Inr rp" "Match rp \<longleftrightarrow> tb_look rty KR b r \<noteq> None"
    using row.GetPath_lookup [OF tb_K(2) [OF tb] r] tb_look_None_iff [OF tb r] by auto
  obtain rq where rq: "GetPath (ti_rows c) r = Inr rq" "Match rq \<longleftrightarrow> ti_look rty KR c r \<noteq> None" using ti_row_path [OF ti r] by blast
  have "x = y \<and> tb_forest b' = ti_forest c' \<and> tb_total b' = ti_total c'"
    using b'(1) c'(1) rp rq sc ty
    by (auto simp: tb_Include_def ti_Include_def bindE_Inr_conv split: if_splits)
  with b' c' show ?thesis by (auto simp: same_column_def)
qed

end

sublocale exact_types \<subseteq> trees: buffer_pair "same_column rty KR vty KV" KR "\<lambda>v. v \<in> KV" tb_safe ti_safe tb_Exclude ti_Exclude tb_Include ti_Include
  by unfold_locales (fact same_Exclude, fact same_Include)

context exact_types
begin

lemmas trees_apply = trees.apply_in_step

lemma same_GetValuePtr:
  "same_column rty KR vty KV b c \<Longrightarrow> r \<in> KR \<Longrightarrow> tb_GetValuePtr b r = ti_GetValuePtr c r"
  by (simp add: same_column_def tb_GetValuePtr_look ti_GetValuePtr_look)

lemma same_GetStatistic:
  "same_column rty KR vty KV b c \<Longrightarrow> tb_GetStatistic b = ti_GetStatistic c"
  by (simp add: same_column_def tb_inv_def ti_inv_def tb_GetStatistic_def ti_GetStatistic_def)

end

section \<open>Properties\<close>

text \<open>
  C33. The two buffers for repeated values are equivalent over types in which only equal values
  compare as equal: let a \<open>TreeBuffer\<close> and a \<open>TreeInlineBuffer\<close> hold the
  same trees, and let the excludes of a batch of writes be safe one after the other in both
  (\<open>tb_safe\<close> and \<open>ti_safe\<close>: no unsafe deletion from a tree of rows, no
  rebalanced leaf of values). Then both succeed on the batch and hold the same trees again; after
  it they give the same statistics, the same values of rows and the same answers, or errors, to
  every range query whose start row lies in the range on which the type of rows is ordered. The
  cells parse, and their rows and values lie in the range on which the types are ordered.
\<close>

theorem trees_equivalent:
  assumes "exact_types rty KR vty KV" "same_column rty KR vty KV b c"
    and "list_all2 (\<lambda>x r. GetPointer rty (cell_rowID x) = Inr r) (cw_excludes w) rs" "set rs \<subseteq> KR"
    and "all_safe tb_safe tb_Exclude b rs" "all_safe ti_safe ti_Exclude c rs"
    and "list_all2 (\<lambda>x p. GetPointer rty (cell_rowID x) = Inr (fst p) \<and> GetPointer vty (cell_value x) = Inr (snd p)) (cw_includes w) ps"
    and "\<forall>(r, v)\<in>set ps. r \<in> KR \<and> v \<in> KV"
  shows "\<exists>b' c'. tb_Apply b w = Inr b' \<and> ti_Apply c w = Inr c' \<and> same_column rty KR vty KV b' c' \<and>
    tb_GetStatistic b' = ti_GetStatistic c' \<and>
    (\<forall>rng. (\<forall>s. row_pointer rty (start_rowID rng) = Inr (Some s) \<longrightarrow> s \<in> KR) \<longrightarrow> tb_GetRows b' rng = ti_GetRows c' rng) \<and>
    (\<forall>xs. (\<forall>x\<in>set xs. \<forall>r. GetPointer rty x = Inr r \<longrightarrow> r \<in> KR) \<longrightarrow> tb_GetValues b' xs = ti_GetValues c' xs)"
proof -
  have types: "tb_rowType b = rty" "tb_valueType b = vty" "ti_rowType c = rty" "ti_valueType c = vty"
    using assms(2) by (simp_all add: same_column_def tb_inv_def ti_inv_def)
  obtain b' c' where bc: "tb_Apply b w = Inr b'" "ti_Apply c w = Inr c'" "same_column rty KR vty KV b' c'"
    unfolding tb_Apply_def ti_Apply_def types using exact_types.trees_apply [OF assms] by blast
  have types': "tb_rowType b' = rty" "tb_valueType b' = vty" "ti_rowType c' = rty" "ti_valueType c' = vty" "tb_forest b' = ti_forest c'"
    using bc(3) by (simp_all add: same_column_def tb_inv_def ti_inv_def)
  note same_get = exact_types.same_GetValuePtr [OF assms(1) bc(3)]
  have "tb_GetStatistic b' = ti_GetStatistic c'" by (rule exact_types.same_GetStatistic [OF assms(1) bc(3)])
  moreover have "tb_GetRows b' rng = ti_GetRows c' rng" if "\<forall>s. row_pointer rty (start_rowID rng) = Inr (Some s) \<longrightarrow> s \<in> KR" for rng
    unfolding tb_GetRows_def ti_GetRows_def types' by (rule rt_GetRows_cong) (use that same_get in blast)
  moreover have "tb_GetValues b' xs = ti_GetValues c' xs" if "\<forall>x\<in>set xs. \<forall>r. GetPointer rty x = Inr r \<longrightarrow> r \<in> KR" for xs
  proof -
    have "tb_GetValue b' x = bindE (GetPointer rty x) (\<lambda>r. bindE (ti_GetValuePtr c' r) (\<lambda>result.
        case result of None \<Rightarrow> Inr None | Some v \<Rightarrow> bindE (CopyOut vty v) (\<lambda>value. Inr (Some value))))" if "x \<in> set xs" for x
      unfolding tb_GetValue_def types' using \<open>\<forall>x\<in>set xs. _ x\<close> that same_get by (cases "GetPointer rty x") simp_all
    then show ?thesis unfolding tb_GetValues_def ti_GetValues_def types' by (rule mapE_cong)
  qed
  ultimately show ?thesis using bc by blast
qed

definition sample_inline :: "(64 word, 64 word) TreeInlineBuffer" where
  "sample_inline = \<lparr>ti_rowType = LongType, ti_valueType = LongType,
     ti_rows = leaf_tree LongType False [(3, Some 8), (4, Some 5), (6, Some 8)], ti_forest = sample_trees, ti_unique = 2, ti_total = 3\<rparr>"

lemma sample_inline_inv: "ti_inv LongType half_range LongType half_range sample_inline"
proof -
  have "mirror (set (contents (ti_rows sample_inline))) (set (rt_flat sample_trees))"
    unfolding sample_flat sample_inline_def by (auto simp: mirror_def)
  moreover have "contents (rt_values sample_trees) = [(5, Some 0), (8, Some 1)]" by (simp add: sample_trees_def)
  moreover have "btree_inv LongType half_range (ti_rows sample_inline)"
    unfolding sample_inline_def by (auto simp: leaf_tree_inv LongType_def LongCompare_def half_range_def)
  ultimately show ?thesis using sample_trees_inv by (simp add: ti_inv_def sample_inline_def)
qed

lemma sample_same: "same_column LongType half_range LongType half_range sample_multi sample_inline"
  using sample_multi_inv sample_inline_inv by (simp add: same_column_def) (simp add: sample_multi_def sample_inline_def)

theorem trees_equivalent_witness:
  "\<exists>b' c'. tb_Apply sample_multi \<lparr>cw_includes = [\<lparr>cell_rowID = long 5, cell_value = long 8\<rparr>, \<lparr>cell_rowID = long 3, cell_value = long 5\<rparr>],
       cw_excludes = [\<lparr>cell_rowID = long 4, cell_value = []\<rparr>]\<rparr> = Inr b' \<and>
     ti_Apply sample_inline \<lparr>cw_includes = [\<lparr>cell_rowID = long 5, cell_value = long 8\<rparr>, \<lparr>cell_rowID = long 3, cell_value = long 5\<rparr>],
       cw_excludes = [\<lparr>cell_rowID = long 4, cell_value = []\<rparr>]\<rparr> = Inr c' \<and>
     tb_GetRows b' \<lparr>ascending = True, limit = 5, first = None, last_bound = None, start_rowID = Some (long 3)\<rparr> =
     ti_GetRows c' \<lparr>ascending = True, limit = 5, first = None, last_bound = None, start_rowID = Some (long 3)\<rparr> \<and>
     tb_GetValues b' [long 4, long 5] = ti_GetValues c' [long 4, long 5]"
proof -
  let ?w = "\<lparr>cw_includes = [\<lparr>cell_rowID = long 5, cell_value = long 8\<rparr>, \<lparr>cell_rowID = long 3, cell_value = long 5\<rparr>],
    cw_excludes = [\<lparr>cell_rowID = long 4, cell_value = []\<rparr>]\<rparr>"
  have safe: "all_safe tb_safe tb_Exclude sample_multi [4]" "all_safe ti_safe ti_Exclude sample_inline [4]" by code_simp+
  have K: "\<forall>x\<in>set [long 4, long 5]. \<forall>r. GetPointer LongType x = Inr r \<longrightarrow> r \<in> half_range" using sample_keys by simp
  have "\<exists>b' c'. tb_Apply sample_multi ?w = Inr b' \<and> ti_Apply sample_inline ?w = Inr c' \<and>
    same_column LongType half_range LongType half_range b' c' \<and> tb_GetStatistic b' = ti_GetStatistic c' \<and>
    (\<forall>rng. (\<forall>s. row_pointer LongType (start_rowID rng) = Inr (Some s) \<longrightarrow> s \<in> half_range) \<longrightarrow> tb_GetRows b' rng = ti_GetRows c' rng) \<and>
    (\<forall>xs. (\<forall>x\<in>set xs. \<forall>r. GetPointer LongType x = Inr r \<longrightarrow> r \<in> half_range) \<longrightarrow> tb_GetValues b' xs = ti_GetValues c' xs)"
    by (rule trees_equivalent [OF long_exact.exact_types_axioms sample_same, of _ "[4]" "[(5, 8), (3, 5)]"])
      (use safe sample_keys in \<open>auto simp: half_range_def\<close>)
  then obtain b' c' where bc: "tb_Apply sample_multi ?w = Inr b'" "ti_Apply sample_inline ?w = Inr c'"
    "\<forall>rng. (\<forall>s. row_pointer LongType (start_rowID rng) = Inr (Some s) \<longrightarrow> s \<in> half_range) \<longrightarrow> tb_GetRows b' rng = ti_GetRows c' rng"
    "\<forall>xs. (\<forall>x\<in>set xs. \<forall>r. GetPointer LongType x = Inr r \<longrightarrow> r \<in> half_range) \<longrightarrow> tb_GetValues b' xs = ti_GetValues c' xs" by blast
  let ?r = "\<lparr>ascending = True, limit = 5, first = None, last_bound = None, start_rowID = Some (long 3)\<rparr>"
  have "\<forall>s. row_pointer LongType (start_rowID ?r) = Inr (Some s) \<longrightarrow> s \<in> half_range" using sample_keys by (simp add: row_pointer_def)
  with bc K show ?thesis by blast
qed

end
