(* ===== verification/Effects.thy ===== *)
theory Effects
  imports Prelude
begin

text \<open>
  What the client and the server code share: \<open>std::map\<close> as a list of pairs in key order, and
  programs over a state that can throw and need not end.
\<close>

section \<open>Ordered maps\<close>

text \<open>
  A \<open>std::map\<close> is iterated in the order of its keys. \<open>insert\<close> keeps an entry that is there;
  assignment through \<open>operator[]\<close> replaces it.
\<close>

type_synonym ('k, 'v) omap = "('k \<times> 'v) list"

fun map_insert :: "'k::linorder \<Rightarrow> 'v \<Rightarrow> ('k, 'v) omap \<Rightarrow> ('k, 'v) omap" where
  "map_insert k v [] = [(k, v)]"
| "map_insert k v ((k', v') # m) =
     (if k < k' then (k, v) # (k', v') # m
      else if k = k' then (k', v') # m
      else (k', v') # map_insert k v m)"

fun map_put :: "'k::linorder \<Rightarrow> 'v \<Rightarrow> ('k, 'v) omap \<Rightarrow> ('k, 'v) omap" where
  "map_put k v [] = [(k, v)]"
| "map_put k v ((k', v') # m) =
     (if k < k' then (k, v) # (k', v') # m
      else if k = k' then (k, v) # m
      else (k', v') # map_put k v m)"

definition omap :: "('k::linorder, 'v) omap \<Rightarrow> bool" where
  "omap m \<longleftrightarrow> sorted_wrt (<) (map fst m)"

lemma omap_Nil [simp]: "omap []"
  by (simp add: omap_def)

lemma omap_Cons: "omap ((k, v) # m) \<longleftrightarrow> (\<forall>e\<in>set m. k < fst e) \<and> omap m"
  by (auto simp: omap_def)

lemma omap_distinct: "omap m \<Longrightarrow> distinct (map fst m)"
  using strict_sorted_iff by (auto simp: omap_def)

lemma set_map_insert: "fst ` set (map_insert k v m) = insert k (fst ` set m)"
  by (induction k v m rule: map_insert.induct) (simp_all add: insert_commute)

lemma set_map_put: "fst ` set (map_put k v m) = insert k (fst ` set m)"
  by (induction k v m rule: map_put.induct) (simp_all add: insert_commute)

lemma omap_insert: "omap m \<Longrightarrow> omap (map_insert k v m)"
proof (induction m)
  case (Cons e m)
  have "(\<forall>e\<in>set (map_insert k v m). c < fst e) \<longleftrightarrow> c < k \<and> (\<forall>e\<in>set m. c < fst e)" for c
    using set_map_insert [of k v m] by (metis (no_types, lifting) image_iff insertE insertI1 insert_iff)
  with Cons show ?case by (cases e) (auto simp: omap_Cons)
qed (simp add: omap_Cons)

lemma omap_put: "omap m \<Longrightarrow> omap (map_put k v m)"
proof (induction m)
  case (Cons e m)
  have "(\<forall>e\<in>set (map_put k v m). c < fst e) \<longleftrightarrow> c < k \<and> (\<forall>e\<in>set m. c < fst e)" for c
    using set_map_put [of k v m] by (metis (no_types, lifting) image_iff insertE insertI1 insert_iff)
  with Cons show ?case by (cases e) (auto simp: omap_Cons)
qed (simp add: omap_Cons)

lemma map_of_above: "\<forall>e\<in>set m. (k::'k::linorder) < fst e \<Longrightarrow> map_of m k = None"
  by (fastforce simp: map_of_eq_None_iff)

lemma map_of_insert [simp]: "omap m \<Longrightarrow> map_of (map_insert k v m) = (case map_of m k of None \<Rightarrow> (map_of m)(k \<mapsto> v) | Some _ \<Rightarrow> map_of m)"
proof (induction m)
  case (Cons e m)
  obtain k' v' where e: "e = (k', v')" by (cases e)
  have o: "omap m" "\<forall>e\<in>set m. k' < fst e" using Cons.prems e by (simp_all add: omap_Cons)
  have "map_of m k = None" if "k < k'" by (rule map_of_above) (use o(2) that in auto)
  with Cons.IH [OF o(1)] e show ?case by (auto simp: fun_eq_iff split: option.splits)
qed auto

lemma map_of_put [simp]: "omap m \<Longrightarrow> map_of (map_put k v m) = (map_of m)(k \<mapsto> v)"
proof (induction m)
  case (Cons e m)
  obtain k' v' where e: "e = (k', v')" by (cases e)
  have o: "omap m" using Cons.prems e by (simp add: omap_Cons)
  with Cons.IH [OF o] e show ?case by (auto simp: fun_eq_iff)
qed auto

lemma omap_map_of_iff: "omap m \<Longrightarrow> map_of m k = Some v \<longleftrightarrow> (k, v) \<in> set m"
  using omap_distinct [of m] by (simp add: map_of_eq_Some_iff)

section \<open>Programs\<close>

text \<open>
  \<open>None\<close> is a program that does not end; otherwise it ends in a state, with a result or with
  an error. A \<open>catch\<close> of \<open>std::exception\<close> handles what has been thrown and nothing else.
\<close>

type_synonym ('s, 'a) prog = "'s \<Rightarrow> ((err + 'a) \<times> 's) option"

definition retP :: "'a \<Rightarrow> ('s, 'a) prog" where
  "retP x s = Some (Inr x, s)"

definition failP :: "err \<Rightarrow> ('s, 'a) prog" where
  "failP e s = Some (Inl e, s)"

definition liftP :: "err + 'a \<Rightarrow> ('s, 'a) prog" where
  "liftP m s = Some (m, s)"

definition readP :: "('s \<Rightarrow> 'a) \<Rightarrow> ('s, 'a) prog" where
  "readP f s = Some (Inr (f s), s)"

definition writeP :: "('s \<Rightarrow> 's) \<Rightarrow> ('s, unit) prog" where
  "writeP f s = Some (Inr (), f s)"

definition bindP :: "('s, 'a) prog \<Rightarrow> ('a \<Rightarrow> ('s, 'b) prog) \<Rightarrow> ('s, 'b) prog" where
  "bindP m f s = Option.bind (m s) (\<lambda>r. case r of (Inl e, s') \<Rightarrow> Some (Inl e, s') | (Inr x, s') \<Rightarrow> f x s')"

definition catchP :: "('s, 'a) prog \<Rightarrow> (string \<Rightarrow> ('s, 'a) prog) \<Rightarrow> ('s, 'a) prog" where
  "catchP m h s = Option.bind (m s) (\<lambda>r. case r of (Inl (Throw msg), s') \<Rightarrow> h msg s' | _ \<Rightarrow> Some r)"

fun mapP :: "('x \<Rightarrow> ('s, 'a) prog) \<Rightarrow> 'x list \<Rightarrow> ('s, 'a list) prog" where
  "mapP f [] = retP []"
| "mapP f (x # xs) = bindP (f x) (\<lambda>y. bindP (mapP f xs) (\<lambda>ys. retP (y # ys)))"

fun eachP :: "('x \<Rightarrow> ('s, unit) prog) \<Rightarrow> 'x list \<Rightarrow> ('s, unit) prog" where
  "eachP f [] = retP ()"
| "eachP f (x # xs) = bindP (f x) (\<lambda>_. eachP f xs)"

text \<open>
  Tasks started by \<open>std::async\<close>: each runs to its end and keeps its error until the result is
  asked for. They run in the order in which they are started.
\<close>

definition tryP :: "('s, 'a) prog \<Rightarrow> ('s, err + 'a) prog" where
  "tryP m s = Option.bind (m s) (\<lambda>(r, s'). Some (Inr r, s'))"

definition spawnP :: "('x \<Rightarrow> ('s, 'a) prog) \<Rightarrow> 'x list \<Rightarrow> ('s, (err + 'a) list) prog" where
  "spawnP f xs = mapP (\<lambda>x. tryP (f x)) xs"

lemma prog_simps [simp]:
  "retP x s = Some (Inr x, s)" "failP e s = Some (Inl e, s)" "liftP m s = Some (m, s)"
  "readP f s = Some (Inr (f s), s)" "writeP g s = Some (Inr (), g s)"
  by (simp_all add: retP_def failP_def liftP_def readP_def writeP_def)

lemma bindP_None: "m s = None \<Longrightarrow> bindP m f s = None"
  by (simp add: bindP_def)

lemma bindP_Inl: "m s = Some (Inl e, s') \<Longrightarrow> bindP m f s = Some (Inl e, s')"
  by (simp add: bindP_def)

lemma bindP_Inr: "m s = Some (Inr x, s') \<Longrightarrow> bindP m f s = f x s'"
  by (simp add: bindP_def)

lemmas bindP_run = bindP_None bindP_Inl bindP_Inr

lemma bindP_steps [simp]:
  "bindP (retP x) f s = f x s" "bindP (failP e) f s = Some (Inl e, s)"
  "bindP (readP g) f s = f (g s) s" "bindP (writeP h) f' s = f' () (h s)"
  "bindP (liftP (Inl e)) f s = Some (Inl e, s)" "bindP (liftP (Inr x)) f s = f x s"
  by (simp_all add: bindP_def)

lemma catchP_run:
  "m s = None \<Longrightarrow> catchP m h s = None"
  "m s = Some (Inr x, s') \<Longrightarrow> catchP m h s = Some (Inr x, s')"
  "m s = Some (Inl (Throw msg), s') \<Longrightarrow> catchP m h s = h msg s'"
  by (simp_all add: catchP_def)

lemma bindP_mono [partial_function_mono]:
  assumes "\<And>s. mono_option (\<lambda>f. B f s)" "\<And>y s. mono_option (\<lambda>f. C y f s)"
  shows "mono_option (\<lambda>f. bindP (B f) (\<lambda>y. C y f) s)"
  unfolding bindP_def
proof (rule bind_mono [OF assms(1)])
  show "mono_option (\<lambda>f. case r of (Inl e, s') \<Rightarrow> Some (Inl e, s') | (Inr x, s') \<Rightarrow> C x f s')" for r
    by (cases r; cases "fst r") (simp_all add: assms(2) option.const_mono)
qed

end
