(* ===== verification/Hive.thy ===== *)
theory Hive
  imports Effects Schema Buffer Transaction
begin

text \<open>
  What a client knows of the hive (\<open>FastoreClient/Database.cpp\<close>): the states the services
  report, the indexes \<open>UpdateHiveStateCache\<close> keeps of them, how a worker is chosen for a read
  and which workers and stores take part in a write.
\<close>

section \<open>Messages\<close>

text \<open>The structures of \<open>Comm_types.h\<close>.\<close>

datatype RepositoryStatus = Loading | Unloading | Online | Offline

record NetworkAddress =
  na_name :: string
  na_port :: int

record WorkerState =
  ws_podID :: int
  ws_repositoryStatus :: "(int, RepositoryStatus) omap"
  ws_port :: int

record ServiceState =
  sv_address :: NetworkAddress
  sv_workers :: "WorkerState list"
  sv_storePort :: int

record HiveState =
  hs_topologyID :: int
  hs_services :: "(int, ServiceState) omap"
  hs_reportingHostID :: int

record Topology =
  tp_topologyID :: int
  tp_hosts :: "(int, (int, int list) omap) omap"

record Query =
  q_rowIDs :: "string list"
  q_ranges :: "RangeRequest list"

record Answer =
  an_rowIDValues :: "OptionalValue list"
  an_rangeValues :: "RangeResult list"

record ReadResult =
  rr_answer :: Answer
  rr_revision :: int

record PrepareResult =
  pr_actualRevision :: int
  pr_validateRequired :: bool

type_synonym Writes = "(int, ColumnWrites) omap"

section \<open>The state of a client\<close>

text \<open>
  The members of \<open>Database\<close>. \<open>world\<close> is everything outside the client: what the services,
  stores and workers hold.
\<close>

record PodMap =
  Pods :: "int list"
  Next :: int

record 'w Database =
  hiveState :: HiveState
  workerStates :: "(int, ServiceState \<times> WorkerState) omap"
  columnWorkers :: "(int, PodMap) omap"
  nextSystemWorker :: int
  db_schema :: "(int, ColumnDef) omap"
  writeTimeout :: int
  world :: 'w

text \<open>
  The calls that leave the client: taking the connection to a worker, a store or a service from
  its pool (\<open>r_client\<close>, \<open>st_client\<close>, \<open>sv_client\<close>), the operations of the remote workers,
  stores and services, and the random generator of transaction ids.
\<close>

record 'w Remote =
  r_client :: "int \<Rightarrow> 'w \<Rightarrow> (err + unit) \<times> 'w"
  r_query :: "int \<Rightarrow> (int, Query) omap \<Rightarrow> 'w \<Rightarrow> (err + (int, ReadResult) omap) \<times> 'w"
  r_getStatistics :: "int \<Rightarrow> int list \<Rightarrow> 'w \<Rightarrow> (err + Statistic list) \<times> 'w"
  r_apply :: "int \<Rightarrow> int \<Rightarrow> int list \<Rightarrow> 'w \<Rightarrow> (err + (int, PrepareResult) omap) \<times> 'w"
  r_commit :: "int \<Rightarrow> int \<Rightarrow> Writes \<Rightarrow> 'w \<Rightarrow> (err + unit) \<times> 'w"
  st_client :: "int \<Rightarrow> 'w \<Rightarrow> (err + unit) \<times> 'w"
  st_commit :: "int \<Rightarrow> int \<Rightarrow> (int, int) omap \<Rightarrow> Writes \<Rightarrow> 'w \<Rightarrow> (err + unit) \<times> 'w"
  sv_client :: "int \<Rightarrow> 'w \<Rightarrow> (err + unit) \<times> 'w"
  sv_getState :: "int \<Rightarrow> 'w \<Rightarrow> (err + ServiceState option) \<times> 'w"
  rnd_generate :: "'w \<Rightarrow> int \<times> 'w"

definition remote :: "('w \<Rightarrow> (err + 'a) \<times> 'w) \<Rightarrow> ('w Database, 'a) prog" where
  "remote f db = (case f (world db) of (r, w) \<Rightarrow> Some (r, db\<lparr>world := w\<rparr>))"

section \<open>Topology\<close>

text \<open>\<open>CreateTopology\<close>: the pods of all hosts are numbered in one sequence.\<close>

fun add_hosts :: "(int, int) omap \<Rightarrow> int \<Rightarrow> (int, (int, int list) omap) omap \<Rightarrow> (int, (int, int list) omap) omap" where
  "add_hosts [] podID hosts = hosts"
| "add_hosts ((host, workers) # rest) podID hosts =
     add_hosts rest (podID + max 0 workers)
       (map_insert host (map (\<lambda>i. (podID + int i, [])) [0..<nat workers]) hosts)"

definition CreateTopology :: "int \<Rightarrow> (int, int) omap \<Rightarrow> Topology" where
  "CreateTopology topologyID serviceWorkers = \<lparr>tp_topologyID = topologyID, tp_hosts = add_hosts serviceWorkers 0 []\<rparr>"

section \<open>The cache of the hive state\<close>

definition add_column_worker :: "int \<Rightarrow> int \<Rightarrow> (int, PodMap) omap \<Rightarrow> (int, PodMap) omap" where
  "add_column_worker podID col m =
     (case map_of m col of
        None \<Rightarrow> map_insert col \<lparr>Pods = [podID], Next = 0\<rparr> m
      | Some pm \<Rightarrow> map_put col (pm\<lparr>Pods := Pods pm @ [podID]\<rparr>) m)"

definition cache_worker :: "ServiceState \<Rightarrow> WorkerState \<Rightarrow> 'w Database \<Rightarrow> 'w Database" where
  "cache_worker service worker db =
     db\<lparr>workerStates := map_insert (ws_podID worker) (service, worker) (workerStates db),
        columnWorkers := fold (\<lambda>repo. add_column_worker (ws_podID worker) (fst repo)) (ws_repositoryStatus worker) (columnWorkers db)\<rparr>"

definition UpdateHiveStateCache :: "HiveState \<Rightarrow> 'w Database \<Rightarrow> 'w Database" where
  "UpdateHiveStateCache newState db =
     fold (\<lambda>service. fold (cache_worker (snd service)) (sv_workers (snd service))) (hs_services newState)
       (db\<lparr>hiveState := newState, workerStates := [], columnWorkers := []\<rparr>)"

text \<open>\<open>QueryHiveForState\<close>: every service is asked for its state; one error is an error of the whole.\<close>

definition service_state :: "'w Remote \<Rightarrow> int \<Rightarrow> ('w Database, int \<times> ServiceState) prog" where
  "service_state R host =
     bindP (remote (sv_client R host)) (\<lambda>_.
     bindP (remote (sv_getState R host)) (\<lambda>state.
       case state of
         None \<Rightarrow> failP (Throw ''Host is unexpectedly not part of the topology.'')
       | Some st \<Rightarrow> retP (host, st)))"

definition QueryHiveForState :: "'w Remote \<Rightarrow> ('w Database, HiveState) prog" where
  "QueryHiveForState R =
     bindP (readP (\<lambda>db. map fst (hs_services (hiveState db)))) (\<lambda>hosts.
     bindP (mapP (service_state R) hosts) (\<lambda>states.
       (let services = fold (\<lambda>(h, st). map_insert h st) states []
        in case services of
             [] \<Rightarrow> failP OutOfBounds
           | s # _ \<Rightarrow> retP \<lparr>hs_topologyID = 0, hs_services = services, hs_reportingHostID = fst s\<rparr>)))"

definition RefreshHiveStateCache :: "'w Remote \<Rightarrow> ('w Database, unit) prog" where
  "RefreshHiveStateCache R = bindP (QueryHiveForState R) (\<lambda>newState. writeP (UpdateHiveStateCache newState))"

section \<open>Addresses\<close>

definition GetServiceAddress :: "int \<Rightarrow> 'w Database \<Rightarrow> err + NetworkAddress" where
  "GetServiceAddress hostID db =
     (case map_of (hs_services (hiveState db)) hostID of
        None \<Rightarrow> Inl (Throw ''No service is currently associated with host ID.'')
      | Some sv \<Rightarrow> Inr (sv_address sv))"

definition GetStoreAddress :: "int \<Rightarrow> 'w Database \<Rightarrow> err + NetworkAddress" where
  "GetStoreAddress hostID db =
     (case map_of (hs_services (hiveState db)) hostID of
        None \<Rightarrow> Inl (Throw ''No service is currently associated with host ID so store is not available.'')
      | Some sv \<Rightarrow> Inr \<lparr>na_name = na_name (sv_address sv), na_port = sv_storePort sv\<rparr>)"

definition GetWorkerAddress :: "int \<Rightarrow> 'w Database \<Rightarrow> err + NetworkAddress" where
  "GetWorkerAddress podID db =
     (case map_of (workerStates db) podID of
        None \<Rightarrow> Inl (Throw ''No Worker is currently associated with pod ID.'')
      | Some (sv, wk) \<Rightarrow> Inr \<lparr>na_name = na_name (sv_address sv), na_port = ws_port wk\<rparr>)"

section \<open>Choosing a worker\<close>

text \<open>The remainder of C++, which takes the sign of the dividend.\<close>

definition c_rem :: "int \<Rightarrow> int \<Rightarrow> int" where
  "c_rem a n = (if a < 0 then - ((- a) mod n) else a mod n)"

definition GetWorkerIDForColumn :: "int \<Rightarrow> ('w Database, int) prog" where
  "GetWorkerIDForColumn columnID =
     bindP (readP (\<lambda>db. map_of (columnWorkers db) columnID)) (\<lambda>found.
       case found of
         None \<Rightarrow> failP (Throw ''No worker is currently available for column ID.'')
       | Some pm \<Rightarrow>
           if Pods pm = [] then failP Indeterminate
           else
             (let n = c_rem (Next pm + 1) (int (length (Pods pm)));
                  n' = (if n < 0 then 0 else n)
              in bindP (writeP (\<lambda>db. db\<lparr>columnWorkers := map_put columnID (pm\<lparr>Next := n'\<rparr>) (columnWorkers db)\<rparr>)) (\<lambda>_.
                 liftP (nthE (Pods pm) (nat n')))))"

text \<open>For a system column the workers take turns.\<close>

definition next_system_worker :: "('w Database, int) prog" where
  "next_system_worker =
     bindP (readP (\<lambda>db. (workerStates db, nextSystemWorker db))) (\<lambda>(ws, n).
       if n < 0 \<or> int (length ws) \<le> n then failP OutOfBounds
       else
         bindP (writeP (\<lambda>db. db\<lparr>nextSystemWorker := c_rem (n + 1) (int (length ws))\<rparr>)) (\<lambda>_.
           retP (fst (ws ! nat n))))"

definition GetWorker :: "'w Remote \<Rightarrow> int \<Rightarrow> ('w Database, int) prog" where
  "GetWorker R columnID =
     bindP (if columnID \<le> MaxSystemColumnID then next_system_worker else GetWorkerIDForColumn columnID) (\<lambda>podID.
     bindP (remote (r_client R podID)) (\<lambda>_. retP podID))"

section \<open>The workers and stores of a write\<close>

text \<open>
  The merge of the columns of a worker with the columns that are written, both in order.
\<close>

fun merge_columns :: "int list \<Rightarrow> int list \<Rightarrow> int list" where
  "merge_columns [] writes = []"
| "merge_columns (col # cols) [] = []"
| "merge_columns (col # cols) (w # writes) =
     (if col = w then w # merge_columns cols (w # writes)
      else if col < w then merge_columns cols (w # writes)
      else merge_columns (col # cols) writes)"

definition worker_columns :: "(int, ColumnDef) omap \<Rightarrow> WorkerState \<Rightarrow> int list" where
  "worker_columns schema worker =
     sort (filter (\<lambda>c. c \<le> MaxSystemColumnID) (map fst schema) @
       map fst (filter (\<lambda>(c, status). status = Online \<and> MaxSystemColumnID < c) (ws_repositoryStatus worker)))"

text \<open>
  The bimap of pods and columns as its left view: pairs in the order of pods, a pair at most
  once, a new pair behind those of the same pod.
\<close>

type_synonym WorkerColumnBimap = "(int \<times> int) list"

definition bimap_insert :: "int \<times> int \<Rightarrow> WorkerColumnBimap \<Rightarrow> WorkerColumnBimap" where
  "bimap_insert x m =
     (if x \<in> set m then m else takeWhile (\<lambda>y. fst y \<le> fst x) m @ x # dropWhile (\<lambda>y. fst y \<le> fst x) m)"

definition match_workers :: "(int, ColumnDef) omap \<Rightarrow> Writes \<Rightarrow> (int, ServiceState \<times> WorkerState) omap \<Rightarrow> WorkerColumnBimap" where
  "match_workers schema writes states =
     fold (\<lambda>(pod, sv, wk). fold (\<lambda>col. bimap_insert (pod, col)) (merge_columns (worker_columns schema wk) (map fst writes))) states []"

text \<open>The bimap of hosts and pods has each host once.\<close>

type_synonym StoreWorkerBimap = "(int, int) omap"

definition DetermineStores :: "'w Database \<Rightarrow> StoreWorkerBimap" where
  "DetermineStores db =
     fold (\<lambda>(host, sv). fold (\<lambda>wk. map_insert host (ws_podID wk)) (sv_workers sv)) (hs_services (hiveState db)) []"

section \<open>What the merge finds\<close>

lemma merge_columns_set:
  "sorted cols \<Longrightarrow> sorted writes \<Longrightarrow> set (merge_columns cols writes) = set cols \<inter> set writes"
proof (induction cols writes rule: merge_columns.induct)
  case (3 col cols w writes)
  consider "col = w" | "col < w" | "w < col" by linarith
  then show ?case
  proof cases
    assume "col < w"
    then have "col \<notin> set (w # writes)" using "3.prems"(2) by auto
    with \<open>col < w\<close> "3.IH"(2) "3.prems" show ?thesis by simp
  next
    assume "w < col"
    then have "w \<notin> set (col # cols)" using "3.prems"(1) by auto
    with \<open>w < col\<close> "3.IH"(3) "3.prems" show ?thesis by auto
  qed (use "3.IH"(1) "3.prems" in auto)
qed simp_all

lemma worker_columns_set:
  "set (worker_columns schema worker) = {c. c \<le> MaxSystemColumnID \<and> c \<in> fst ` set schema} \<union>
     {c. MaxSystemColumnID < c \<and> (c, Online) \<in> set (ws_repositoryStatus worker)}"
  by (force simp: worker_columns_def)

lemma set_bimap_insert [simp]: "set (bimap_insert x m) = insert x (set m)"
proof -
  have "set m = set (takeWhile (\<lambda>y. fst y \<le> fst x) m) \<union> set (dropWhile (\<lambda>y. fst y \<le> fst x) m)"
    by (metis set_append takeWhile_dropWhile_id)
  then show ?thesis by (auto simp: bimap_insert_def)
qed

lemma distinct_bimap_insert: "distinct m \<Longrightarrow> distinct (bimap_insert x m)"
proof -
  assume m: "distinct m"
  have "distinct (takeWhile (\<lambda>y. fst y \<le> fst x) m @ dropWhile (\<lambda>y. fst y \<le> fst x) m)" using m by simp
  then show ?thesis using m
    by (auto simp: bimap_insert_def simp del: takeWhile_dropWhile_id dest: set_takeWhileD set_dropWhileD)
qed

lemma bimap_insert_sorted: "sorted (map fst m) \<Longrightarrow> sorted (map fst (bimap_insert x m))"
proof (induction m)
  case (Cons y m)
  show ?case
  proof (cases "x \<in> set (y # m)")
    case False
    then have "x \<notin> set m" by simp
    then have "sorted (map fst (takeWhile (\<lambda>y. fst y \<le> fst x) m @ x # dropWhile (\<lambda>y. fst y \<le> fst x) m))"
      using Cons by (simp add: bimap_insert_def)
    moreover have "z \<in> set m" if "z \<in> set (takeWhile (\<lambda>y. fst y \<le> fst x) m) \<union> set (dropWhile (\<lambda>y. fst y \<le> fst x) m)" for z
      using that by (auto dest: set_takeWhileD set_dropWhileD)
    ultimately show ?thesis using False Cons.prems by (fastforce simp: bimap_insert_def)
  qed (use Cons.prems in \<open>simp add: bimap_insert_def\<close>)
qed (simp add: bimap_insert_def)

lemma fold_bimap_set: "set (fold (\<lambda>col. bimap_insert (pod, col)) cols m) = Pair pod ` set cols \<union> set m"
  by (induction cols arbitrary: m) auto

lemma fold_bimap_distinct: "distinct m \<Longrightarrow> distinct (fold (\<lambda>col. bimap_insert (pod, col)) cols m)"
  by (induction cols arbitrary: m) (simp_all add: distinct_bimap_insert)

lemma fold_bimap_sorted: "sorted (map fst m) \<Longrightarrow> sorted (map fst (fold (\<lambda>col. bimap_insert (pod, col)) cols m))"
  by (induction cols arbitrary: m) (simp_all add: bimap_insert_sorted)

text \<open>The columns of the write that a worker has.\<close>

definition serves :: "(int, ColumnDef) omap \<Rightarrow> WorkerState \<Rightarrow> int \<Rightarrow> bool" where
  "serves schema worker col \<longleftrightarrow>
     (if col \<le> MaxSystemColumnID then col \<in> fst ` set schema else (col, Online) \<in> set (ws_repositoryStatus worker))"

lemma served_columns:
  assumes "omap writes"
  shows "set (merge_columns (worker_columns schema wk) (map fst writes)) = {c \<in> fst ` set writes. serves schema wk c}"
proof -
  have "sorted (map fst writes)" using assms strict_sorted_iff by (auto simp: omap_def)
  moreover have "sorted (worker_columns schema wk)" by (simp add: worker_columns_def)
  ultimately show ?thesis by (auto simp: merge_columns_set worker_columns_set serves_def)
qed

definition match_step :: "(int, ColumnDef) omap \<Rightarrow> Writes \<Rightarrow> int \<times> ServiceState \<times> WorkerState \<Rightarrow> WorkerColumnBimap \<Rightarrow> WorkerColumnBimap" where
  "match_step schema writes = (\<lambda>(pod, sv, wk). fold (\<lambda>col. bimap_insert (pod, col)) (merge_columns (worker_columns schema wk) (map fst writes)))"

lemma match_fold_set:
  assumes "omap writes"
  shows "set (fold (match_step schema writes) states m)
    = {(pod, col). \<exists>sv wk. (pod, sv, wk) \<in> set states \<and> col \<in> fst ` set writes \<and> serves schema wk col} \<union> set m"
proof (induction states arbitrary: m)
  case (Cons st states)
  obtain pod sv wk where st: "st = (pod, sv, wk)" by (cases st)
  have "set (match_step schema writes st m) = Pair pod ` {c \<in> fst ` set writes. serves schema wk c} \<union> set m"
    using st served_columns [OF assms] by (simp add: match_step_def fold_bimap_set)
  with Cons st show ?case by auto
qed simp

lemma match_fold_order:
  assumes "distinct m" "sorted (map fst m)"
  shows "distinct (fold (match_step schema writes) states m) \<and> sorted (map fst (fold (match_step schema writes) states m))"
  using assms
proof (induction states arbitrary: m)
  case (Cons st states)
  have "distinct (match_step schema writes st m)" "sorted (map fst (match_step schema writes st m))"
    using Cons.prems by (cases st; simp add: match_step_def fold_bimap_distinct fold_bimap_sorted)+
  with Cons.IH show ?case by simp
qed simp

lemma match_workers_step: "match_workers schema writes states = fold (match_step schema writes) states []"
  by (simp add: match_workers_def match_step_def)

lemma match_workers_correct:
  assumes "omap writes"
  shows "set (match_workers schema writes states) =
      {(pod, col). \<exists>sv wk. (pod, sv, wk) \<in> set states \<and> col \<in> fst ` set writes \<and> serves schema wk col}"
    "distinct (match_workers schema writes states)" "sorted (map fst (match_workers schema writes states))"
  using match_fold_set [OF assms, of schema states "[]"] match_fold_order [of "[]" schema writes states]
  by (simp_all add: match_workers_step)

end
