(* ===== verification/DatabaseReads.thy ===== *)
theory DatabaseReads
  imports Hive
begin

text \<open>
  How \<open>Database\<close> reads: an attempt goes from worker to worker until one answers, a range query is
  followed by queries for the other columns of its rows, and the answers are put together to
  a set of rows. The schema is read in the same way.
\<close>

section \<open>Attempts\<close>

text \<open>
  \<open>AttemptRead\<close>: a worker that throws is left for the next one, for ever; the errors are
  collected and not looked at.
\<close>

partial_function (option) AttemptRead ::
  "'w Remote \<Rightarrow> int \<Rightarrow> (int \<Rightarrow> ('w Database, 'a) prog) \<Rightarrow> (int, string) omap \<Rightarrow> 'w Database \<Rightarrow> ((err + 'a) \<times> 'w Database) option"
where
  "AttemptRead R columnId work errors db =
     bindP (GetWorker R columnId) (\<lambda>worker db.
       Option.bind (work worker db) (\<lambda>r.
         case r of
           (Inr x, db') \<Rightarrow> Some (Inr x, db')
         | (Inl e, db') \<Rightarrow>
             (case e of
                Throw msg \<Rightarrow> AttemptRead R columnId work (map_insert worker msg errors) db'
              | _ \<Rightarrow> Some (Inl e, db')))) db"

lemma AttemptRead_answer:
  "GetWorker R c db = Some (Inr pod, db1) \<Longrightarrow> work pod db1 = Some (Inr x, db2) \<Longrightarrow> AttemptRead R c work errors db = Some (Inr x, db2)"
  by (subst AttemptRead.simps) (simp add: bindP_run)

lemma AttemptRead_retry:
  "GetWorker R c db = Some (Inr pod, db1) \<Longrightarrow> work pod db1 = Some (Inl (Throw msg), db2) \<Longrightarrow>
   AttemptRead R c work errors db = AttemptRead R c work (map_insert pod msg errors) db2"
  by (subst AttemptRead.simps) (simp add: bindP_run)

section \<open>Queries\<close>

definition GetRowsQuery :: "RangeResult \<Rightarrow> Query" where
  "GetRowsQuery rangeResult = \<lparr>q_rowIDs = concat (map vrRowIDs (valueRowsList rangeResult)), q_ranges = []\<rparr>"

definition CreateQuery :: "Range \<Rightarrow> 32 word \<Rightarrow> string option \<Rightarrow> Query" where
  "CreateQuery rng lim startId =
     \<lparr>q_rowIDs = [], q_ranges = [(rangeToRangeRequest rng lim)\<lparr>start_rowID := startId\<rparr>]\<rparr>"

section \<open>Putting answers together\<close>

text \<open>The values of one column for the rows; a column without an answer has none.\<close>

definition column_values :: "(int, ReadResult) omap \<Rightarrow> nat \<Rightarrow> int \<Rightarrow> err + OptionalValue list" where
  "column_values rowResults rows columnId =
     (case map_of rowResults columnId of
        None \<Rightarrow> Inr (replicate rows None)
      | Some r \<Rightarrow> mapE (nthE (an_rowIDValues (rr_answer r))) [0..<rows])"

definition ResultsToDataSet :: "int list \<Rightarrow> string list \<Rightarrow> (int, ReadResult) omap \<Rightarrow> err + DataSet" where
  "ResultsToDataSet columnIds rowIDs rowResults =
     bindE (mapE (column_values rowResults (length rowIDs)) columnIds) (\<lambda>columns.
       Inr (map (\<lambda>y. (new_DataSetRow (length columnIds))\<lparr>ID := rowIDs ! y, Values := map (\<lambda>c. c ! y) columns\<rparr>) [0..<length rowIDs]))"

text \<open>The loop of \<open>ResultsToRangeSet\<close>; \<open>v\<close> and \<open>r\<close> are \<open>valueRowValue\<close> and \<open>valueRowRow\<close>.\<close>

fun fill_range :: "ValueRows list \<Rightarrow> nat \<Rightarrow> nat \<Rightarrow> nat \<Rightarrow> bool \<Rightarrow> DataSet \<Rightarrow> err + DataSet" where
  "fill_range vrs col v r newg [] = Inr []"
| "fill_range vrs col v r newg (row # rows) =
     bindE (nthE vrs v) (\<lambda>vr.
       if length (Values row) \<le> col then Inl OutOfBounds
       else
         (let newg' = (length (vrRowIDs vr) \<le> r + 1)
          in bindE (if newg' then fill_range vrs col (v + 1) 0 newg' rows else fill_range vrs col v (r + 1) newg' rows) (\<lambda>rest.
               Inr (row\<lparr>Values := (Values row)[col := Some (vrValue vr)], newGroup := newg\<rparr> # rest))))"

definition ResultsToRangeSet :: "DataSet \<Rightarrow> nat \<Rightarrow> RangeResult \<Rightarrow> err + RangeSet" where
  "ResultsToRangeSet rows rangeColumnIndex rangeResult =
     bindE (fill_range (valueRowsList rangeResult) rangeColumnIndex 0 0 True rows) (\<lambda>filled.
       Inr \<lparr>Eof = res_eof rangeResult, Bof = res_bof rangeResult, Limited = limited rangeResult, Data = filled\<rparr>)"

section \<open>Reading rows\<close>

definition InternalGetValues :: "'w Remote \<Rightarrow> int list \<Rightarrow> int \<Rightarrow> Query \<Rightarrow> ('w Database, DataSet) prog" where
  "InternalGetValues R columnIds exclusionColumnId rowIdQuery =
     bindP (spawnP (\<lambda>columnId. AttemptRead R columnId (\<lambda>pod. remote (r_query R pod [(columnId, rowIdQuery)])) [])
              (filter (\<lambda>c. c \<noteq> exclusionColumnId) columnIds)) (\<lambda>tasks.
     bindP (liftP (mapE (\<lambda>t. t) tasks)) (\<lambda>results.
       (let resultsByColumn = fold (fold (\<lambda>(c, r). map_insert c r)) results []
        in liftP (ResultsToDataSet columnIds (q_rowIDs rowIdQuery) resultsByColumn))))"

definition db_getValues :: "'w Remote \<Rightarrow> int list \<Rightarrow> string list \<Rightarrow> ('w Database, DataSet) prog" where
  "db_getValues R columnIds rowIds = InternalGetValues R columnIds (- 1) \<lparr>q_rowIDs = rowIds, q_ranges = []\<rparr>"

text \<open>\<open>results[id].answer.rangeValues.at(0)\<close>, where a missing id makes an empty answer.\<close>

definition first_range :: "(int, ReadResult) omap \<Rightarrow> int \<Rightarrow> err + RangeResult" where
  "first_range results col =
     (case map_of results col of
        None \<Rightarrow> Inl (Throw ''out_of_range'')
      | Some r \<Rightarrow> (case an_rangeValues (rr_answer r) of [] \<Rightarrow> Inl (Throw ''out_of_range'') | x # _ \<Rightarrow> Inr x))"

definition column_index :: "int list \<Rightarrow> int \<Rightarrow> nat" where
  "column_index columnIds col = length (takeWhile (\<lambda>c. c \<noteq> col) columnIds)"

definition db_getRange :: "'w Remote \<Rightarrow> int list \<Rightarrow> Range \<Rightarrow> 32 word \<Rightarrow> string option \<Rightarrow> ('w Database, RangeSet) prog" where
  "db_getRange R columnIds rng lim startId =
     (let query = CreateQuery rng lim startId; col = RangeColumn rng
      in bindP (AttemptRead R col (\<lambda>pod. remote (r_query R pod [(col, query)])) []) (\<lambda>results.
         bindP (liftP (first_range results col)) (\<lambda>rangeResult.
         bindP (InternalGetValues R columnIds col (GetRowsQuery rangeResult)) (\<lambda>result.
           liftP (ResultsToRangeSet result (column_index columnIds col) rangeResult)))))"

definition db_getStatistics :: "'w Remote \<Rightarrow> int list \<Rightarrow> ('w Database, Statistic list) prog" where
  "db_getStatistics R columnIds =
     bindP (spawnP (\<lambda>columnId. AttemptRead R columnId (\<lambda>pod.
              bindP (remote (r_getStatistics R pod [columnId])) (\<lambda>stats. liftP (nthE stats 0))) []) columnIds) (\<lambda>tasks.
       liftP (mapE (\<lambda>t. t) tasks))"

section \<open>The schema\<close>

definition MaxFetchLimit :: "32 word" where "MaxFetchLimit = 500"

text \<open>A row of the column table; the value of a column that has none is the empty string.\<close>

definition row_def :: "DataSetRow \<Rightarrow> err + ColumnDef" where
  "row_def row = decode_def (ID row # map (\<lambda>v. case v of None \<Rightarrow> [] | Some s \<Rightarrow> s) (tl (Values row)))"

definition schema_range :: Range where
  "schema_range = \<lparr>RangeColumn = 0, Start = None, End = None, Ascending = True\<rparr>"

partial_function (option) LoadSchema_loop ::
  "'w Remote \<Rightarrow> (int, ColumnDef) omap \<Rightarrow> string option \<Rightarrow> 'w Database \<Rightarrow> ((err + (int, ColumnDef) omap) \<times> 'w Database) option"
where
  "LoadSchema_loop R schema startId db =
     bindP (db_getRange R ColumnColumns schema_range MaxFetchLimit startId) (\<lambda>columns db1.
     bindP (liftP (mapE row_def (Data columns))) (\<lambda>defs db2.
       (let schema' = fold (\<lambda>d. map_insert (def_ColumnID d) d) defs schema;
            startId' = (if Data columns = [] then startId else Some (ID (last (Data columns))))
        in if Limited columns then LoadSchema_loop R schema' startId' db2 else Some (Inr schema', db2))) db1) db"

definition LoadSchema :: "'w Remote \<Rightarrow> ('w Database, (int, ColumnDef) omap) prog" where
  "LoadSchema R = LoadSchema_loop R [] None"

definition getSchema :: "'w Remote \<Rightarrow> ('w Database, (int, ColumnDef) omap) prog" where
  "getSchema R =
     bindP (readP db_schema) (\<lambda>schema.
       if schema = []
       then bindP (LoadSchema R) (\<lambda>schema'. bindP (writeP (\<lambda>db. db\<lparr>db_schema := schema'\<rparr>)) (\<lambda>_. retP schema'))
       else retP schema)"

definition RefreshSchemaCache :: "'w Remote \<Rightarrow> ('w Database, unit) prog" where
  "RefreshSchemaCache R =
     bindP (writeP (\<lambda>db. db\<lparr>db_schema := []\<rparr>)) (\<lambda>_.
     bindP (LoadSchema R) (\<lambda>schema. writeP (\<lambda>db. db\<lparr>db_schema := schema\<rparr>)))"

section \<open>The rows of a range\<close>

text \<open>
  The rows of a range result in order, each with its value and whether it is the first row of
  that value.
\<close>

definition range_rows :: "ValueRows list \<Rightarrow> (string \<times> bool) list" where
  "range_rows vrs = concat (map (\<lambda>vr. map (\<lambda>i. (vrValue vr, i = 0)) [0..<length (vrRowIDs vr)]) vrs)"

definition remaining :: "ValueRows list \<Rightarrow> nat \<Rightarrow> nat \<Rightarrow> (string \<times> bool) list" where
  "remaining vrs v r =
     (if v < length vrs then map (\<lambda>i. (vrValue (vrs ! v), i = 0)) [r..<length (vrRowIDs (vrs ! v))] @ range_rows (drop (Suc v) vrs)
      else [])"

definition set_range :: "nat \<Rightarrow> string \<times> bool \<Rightarrow> DataSetRow \<Rightarrow> DataSetRow" where
  "set_range col x row = row\<lparr>Values := (Values row)[col := Some (fst x)], newGroup := snd x\<rparr>"

lemma remaining_start: "remaining vrs v 0 = range_rows (drop v vrs)"
  by (cases "v < length vrs") (simp_all add: remaining_def range_rows_def Cons_nth_drop_Suc [symmetric])

lemma length_range_rows: "length (range_rows vrs) = length (concat (map vrRowIDs vrs))"
  by (induction vrs) (simp_all add: range_rows_def)

lemma fill_range_remaining:
  assumes "\<forall>vr\<in>set vrs. vrRowIDs vr \<noteq> []" "\<forall>row\<in>set rows. col < length (Values row)"
    and "v < length vrs \<longrightarrow> r < length (vrRowIDs (vrs ! v))" "length rows \<le> length (remaining vrs v r)" "newg = (r = 0)"
  shows "fill_range vrs col v r newg rows = Inr (map2 (set_range col) (remaining vrs v r) rows)"
  using assms(2-5)
proof (induction rows arbitrary: v r newg)
  case (Cons row rows)
  have v: "v < length vrs" using Cons.prems(3) by (cases "v < length vrs") (simp_all add: remaining_def)
  then have r: "r < length (vrRowIDs (vrs ! v))" using Cons.prems(2) by simp
  have rem: "remaining vrs v r = (vrValue (vrs ! v), r = 0) #
      (if length (vrRowIDs (vrs ! v)) \<le> r + 1 then remaining vrs (Suc v) 0 else remaining vrs v (Suc r))"
    using v r by (simp add: remaining_def [of vrs v] upt_conv_Cons [of r] remaining_start)
  have next_ok: "Suc v < length vrs \<longrightarrow> 0 < length (vrRowIDs (vrs ! Suc v))" using assms(1) by (simp add: nth_mem)
  have len: "length rows \<le> length (if length (vrRowIDs (vrs ! v)) \<le> r + 1 then remaining vrs (Suc v) 0 else remaining vrs v (Suc r))"
    using Cons.prems(3) rem by simp
  have w: "\<forall>row\<in>set rows. col < length (Values row)" "\<not> length (Values row) \<le> col" using Cons.prems(1) by auto
  show ?case
  proof (cases "length (vrRowIDs (vrs ! v)) \<le> r + 1")
    case True
    then have "fill_range vrs col (Suc v) 0 True rows = Inr (map2 (set_range col) (remaining vrs (Suc v) 0) rows)"
      using Cons.IH [OF w(1), of "Suc v" 0 True] next_ok len by simp
    then show ?thesis using v w(2) True rem Cons.prems(4) by (simp add: set_range_def Let_def)
  next
    case False
    then have "fill_range vrs col v (Suc r) False rows = Inr (map2 (set_range col) (remaining vrs v (Suc r)) rows)"
      using Cons.IH [OF w(1), of v "Suc r" False] len by simp
    then show ?thesis using v w(2) False rem Cons.prems(4) by (simp add: set_range_def Let_def)
  qed
qed simp

lemma fill_range_rows:
  assumes "\<forall>vr\<in>set vrs. vrRowIDs vr \<noteq> []" "\<forall>row\<in>set rows. col < length (Values row)" "length rows = length (range_rows vrs)"
  shows "fill_range vrs col 0 0 True rows = Inr (map2 (set_range col) (range_rows vrs) rows)"
proof -
  have "vrs \<noteq> [] \<longrightarrow> vrRowIDs (vrs ! 0) \<noteq> []" using assms(1) by (simp add: nth_mem)
  then show ?thesis
    using fill_range_remaining [OF assms(1,2), of 0 0 True] assms(3) remaining_start [of vrs 0] by simp
qed

text \<open>The value of a row in a column, as the answers have it.\<close>

definition answered :: "(int, ReadResult) omap \<Rightarrow> int \<Rightarrow> nat \<Rightarrow> OptionalValue" where
  "answered results col y = (case map_of results col of None \<Rightarrow> None | Some r \<Rightarrow> an_rowIDValues (rr_answer r) ! y)"

definition answers_rows :: "(int, ReadResult) omap \<Rightarrow> nat \<Rightarrow> bool" where
  "answers_rows results n \<longleftrightarrow> (\<forall>(c, r)\<in>set results. n \<le> length (an_rowIDValues (rr_answer r)))"

lemma column_index_less: "col \<in> set columnIds \<Longrightarrow> column_index columnIds col < length columnIds"
  unfolding column_index_def by (induction columnIds) auto

lemma mapE_all: "\<forall>x\<in>set xs. f x = Inr (g x) \<Longrightarrow> mapE f xs = Inr (map g xs)"
  by (induction xs) simp_all

lemma ResultsToDataSet_rows:
  assumes "answers_rows results (length rowIDs)"
  shows "ResultsToDataSet columnIds rowIDs results =
    Inr (map (\<lambda>y. \<lparr>Values = map (\<lambda>c. answered results c y) columnIds, ID = rowIDs ! y, newGroup = True\<rparr>) [0..<length rowIDs])"
proof -
  have col: "column_values results (length rowIDs) c = Inr (map (answered results c) [0..<length rowIDs])" for c
  proof (cases "map_of results c")
    case None
    then have "answered results c = (\<lambda>y. None)" by (simp add: answered_def fun_eq_iff)
    with None show ?thesis by (simp add: column_values_def map_replicate_const)
  next
    case (Some r)
    have "(c, r) \<in> set results" using Some by (rule map_of_SomeD)
    then have "length rowIDs \<le> length (an_rowIDValues (rr_answer r))" using assms unfolding answers_rows_def by auto
    with Some show ?thesis unfolding column_values_def answered_def by (simp add: mapE_all [where g = "(!) (an_rowIDValues (rr_answer r))"])
  qed
  have "mapE (column_values results (length rowIDs)) columnIds = Inr (map (\<lambda>c. map (answered results c) [0..<length rowIDs]) columnIds)"
    by (rule mapE_all) (simp add: col)
  then show ?thesis by (simp add: ResultsToDataSet_def new_DataSetRow_def comp_def)
qed

section \<open>Properties\<close>

text \<open>
  C34. Range reads: when the worker of the range column answers with a range result, and the
  workers of the other columns answer for its rows, \<open>getRange\<close> returns these rows in their
  order, with the value of the range in its column, the values the other workers gave in
  theirs, and \<open>newGroup\<close> set exactly on the first row of each value.
\<close>

theorem getRange_assembles:
  assumes read: "AttemptRead R (RangeColumn rng) (\<lambda>pod. remote (r_query R pod [(RangeColumn rng, CreateQuery rng lim startId)])) [] db
      = Some (Inr results, db1)"
    and rr: "first_range results (RangeColumn rng) = Inr rr" "\<forall>vr\<in>set (valueRowsList rr). vrRowIDs vr \<noteq> []"
    and others: "spawnP (\<lambda>c. AttemptRead R c (\<lambda>pod. remote (r_query R pod [(c, GetRowsQuery rr)])) [])
      (filter (\<lambda>c. c \<noteq> RangeColumn rng) columnIds) db1 = Some (Inr (map Inr answers), db2)"
    and byCol: "byCol = fold (fold (\<lambda>(c, r). map_insert c r)) answers []" "answers_rows byCol (length (q_rowIDs (GetRowsQuery rr)))"
    and col: "RangeColumn rng \<in> set columnIds"
  shows "\<exists>rs. db_getRange R columnIds rng lim startId db = Some (Inr rs, db2) \<and>
    Limited rs = limited rr \<and> Bof rs = res_bof rr \<and> Eof rs = res_eof rr \<and>
    map ID (Data rs) = concat (map vrRowIDs (valueRowsList rr)) \<and>
    map newGroup (Data rs) = map snd (range_rows (valueRowsList rr)) \<and>
    (\<forall>y<length (Data rs). Values (Data rs ! y) =
       (map (\<lambda>c. answered byCol c y) columnIds)[column_index columnIds (RangeColumn rng) := Some (fst (range_rows (valueRowsList rr) ! y))])"
proof -
  let ?ids = "concat (map vrRowIDs (valueRowsList rr))" and ?i = "column_index columnIds (RangeColumn rng)"
  let ?row = "\<lambda>y. \<lparr>Values = map (\<lambda>c. answered byCol c y) columnIds, ID = ?ids ! y, newGroup = True\<rparr>"
  let ?rows = "map ?row [0..<length ?ids]" and ?flat = "range_rows (valueRowsList rr)"
  have q: "q_rowIDs (GetRowsQuery rr) = ?ids" by (simp add: GetRowsQuery_def)
  have i: "?i < length columnIds" by (rule column_index_less [OF col])
  have "mapE (\<lambda>t. t) (map Inr answers) = Inr answers" by (induction answers) simp_all
  then have "InternalGetValues R columnIds (RangeColumn rng) (GetRowsQuery rr) db1 = Some (Inr ?rows, db2)"
    using others ResultsToDataSet_rows [OF byCol(2), of columnIds] by (simp add: InternalGetValues_def bindP_run byCol(1) q Let_def)
  moreover have "ResultsToRangeSet ?rows ?i rr =
      Inr \<lparr>Eof = res_eof rr, Bof = res_bof rr, Limited = limited rr, Data = map2 (set_range ?i) ?flat ?rows\<rparr>"
    unfolding ResultsToRangeSet_def using fill_range_rows [OF rr(2), of ?rows ?i] i by (simp add: length_range_rows)
  ultimately have "db_getRange R columnIds rng lim startId db =
      Some (Inr \<lparr>Eof = res_eof rr, Bof = res_bof rr, Limited = limited rr, Data = map2 (set_range ?i) ?flat ?rows\<rparr>, db2)"
    using read rr(1) by (simp add: db_getRange_def bindP_run Let_def)
  moreover have "length ?flat = length ?ids" by (rule length_range_rows)
  then have "map ID (map2 (set_range ?i) ?flat ?rows) = ?ids" "map newGroup (map2 (set_range ?i) ?flat ?rows) = map snd ?flat"
    "\<forall>y<length (map2 (set_range ?i) ?flat ?rows). Values (map2 (set_range ?i) ?flat ?rows ! y) =
       (map (\<lambda>c. answered byCol c y) columnIds)[?i := Some (fst (?flat ! y))]"
    by (auto simp: set_range_def simp del: length_concat intro!: nth_equalityI)
  ultimately show ?thesis by (intro exI conjI) (assumption | simp del: length_concat)+
qed

text \<open>One worker with two columns, the second of which has no value for the row \<open>b\<close>.\<close>

definition sample_range :: RangeResult where
  "sample_range = \<lparr>valueRowsList = [\<lparr>vrValue = ''x'', vrRowIDs = [''a'', ''b'']\<rparr>, \<lparr>vrValue = ''y'', vrRowIDs = [''c'']\<rparr>],
     res_eof = True, res_bof = True, limited = False\<rparr>"

definition sample_remote :: "unit Remote" where
  "sample_remote = \<lparr>r_client = \<lambda>pod w. (Inr (), w),
     r_query = \<lambda>pod qs w. (Inr (map (\<lambda>(c, q). (c, \<lparr>rr_answer =
       \<lparr>an_rowIDValues = (if c = 10002 then [Some ''1'', None, Some ''3''] else []), an_rangeValues = (if c = 10001 then [sample_range] else [])\<rparr>,
       rr_revision = 0\<rparr>)) qs), w),
     r_getStatistics = \<lambda>pod cs w. (Inr [], w), r_apply = \<lambda>pod t cs w. (Inr [], w), r_commit = \<lambda>pod t ws w. (Inr (), w),
     st_client = \<lambda>h w. (Inr (), w), st_commit = \<lambda>h t rs ws w. (Inr (), w), sv_client = \<lambda>h w. (Inr (), w), sv_getState = \<lambda>h w. (Inr None, w), rnd_generate = \<lambda>w. (0, w)\<rparr>"

definition sample_db :: "unit Database" where
  "sample_db = \<lparr>hiveState = \<lparr>hs_topologyID = 0, hs_services = [], hs_reportingHostID = 0\<rparr>, workerStates = [],
     columnWorkers = [(10001, \<lparr>Pods = [7], Next = 0\<rparr>), (10002, \<lparr>Pods = [7], Next = 0\<rparr>)], nextSystemWorker = 0, db_schema = [],
     writeTimeout = 1000, world = ()\<rparr>"

lemma sample_worker: "c \<in> {10001, 10002} \<Longrightarrow> GetWorker sample_remote c sample_db = Some (Inr 7, sample_db)"
  by (auto simp: GetWorker_def GetWorkerIDForColumn_def MaxSystemColumnID_def c_rem_def remote_def bindP_def sample_remote_def sample_db_def)

lemma sample_read:
  assumes "c \<in> {10001, 10002}"
  shows "AttemptRead sample_remote c (\<lambda>pod. remote (r_query sample_remote pod [(c, q)])) [] sample_db =
    Some (fst (r_query sample_remote 7 [(c, q)] ()), sample_db)"
proof -
  have "\<exists>x. r_query sample_remote 7 [(c, q)] () = (Inr x, ())" by (simp add: sample_remote_def)
  then obtain x where x: "r_query sample_remote 7 [(c, q)] () = (Inr x, ())" by blast
  then have "remote (r_query sample_remote 7 [(c, q)]) sample_db = Some (Inr x, sample_db)" by (simp add: remote_def sample_db_def)
  with AttemptRead_answer [OF sample_worker [OF assms]] x show ?thesis by simp
qed

theorem getRange_assembles_witness:
  "\<exists>rs. db_getRange sample_remote [10001, 10002] \<lparr>RangeColumn = 10001, Start = None, End = None, Ascending = True\<rparr> 500 None sample_db
      = Some (Inr rs, sample_db) \<and> map ID (Data rs) = [''a'', ''b'', ''c''] \<and> map newGroup (Data rs) = [True, False, True] \<and>
    Values (Data rs ! 2) = [Some ''y'', Some ''3'']"
proof -
  let ?rng = "\<lparr>RangeColumn = 10001, Start = None, End = None, Ascending = True\<rparr>"
  let ?q = "CreateQuery ?rng 500 None"
  obtain results where r: "fst (r_query sample_remote 7 [(10001, ?q)] ()) = Inr results" "first_range results 10001 = Inr sample_range"
    by (simp add: sample_remote_def first_range_def)
  obtain answer where a: "fst (r_query sample_remote 7 [(10002, GetRowsQuery sample_range)] ()) = Inr answer"
    "answer = [(10002, \<lparr>rr_answer = \<lparr>an_rowIDValues = [Some ''1'', None, Some ''3''], an_rangeValues = []\<rparr>, rr_revision = 0\<rparr>)]"
    by (simp add: sample_remote_def)
  have read: "AttemptRead sample_remote (RangeColumn ?rng) (\<lambda>pod. remote (r_query sample_remote pod [(RangeColumn ?rng, ?q)])) [] sample_db
      = Some (Inr results, sample_db)" using sample_read [of 10001 ?q] r(1) by simp
  have rr: "first_range results (RangeColumn ?rng) = Inr sample_range" "\<forall>vr\<in>set (valueRowsList sample_range). vrRowIDs vr \<noteq> []"
    using r(2) by (simp_all add: sample_range_def)
  have others: "spawnP (\<lambda>c. AttemptRead sample_remote c (\<lambda>pod. remote (r_query sample_remote pod [(c, GetRowsQuery sample_range)])) [])
      (filter (\<lambda>c. c \<noteq> RangeColumn ?rng) [10001, 10002]) sample_db = Some (Inr (map Inr [answer]), sample_db)"
    using sample_read [of 10002 "GetRowsQuery sample_range"] a(1) by (simp add: spawnP_def tryP_def bindP_def)
  have byCol: "answer = fold (fold (\<lambda>(c, r). map_insert c r)) [answer] []" "answers_rows answer (length (q_rowIDs (GetRowsQuery sample_range)))"
    by (simp_all add: a(2) answers_rows_def GetRowsQuery_def sample_range_def)
  have col: "RangeColumn ?rng \<in> set [10001, 10002]" by simp
  obtain rs where rs: "db_getRange sample_remote [10001, 10002] ?rng 500 None sample_db = Some (Inr rs, sample_db)"
    "map ID (Data rs) = concat (map vrRowIDs (valueRowsList sample_range))"
    "map newGroup (Data rs) = map snd (range_rows (valueRowsList sample_range))"
    "\<forall>y<length (Data rs). Values (Data rs ! y) = (map (\<lambda>c. answered answer c y) [10001, 10002])
      [column_index [10001, 10002] (RangeColumn ?rng) := Some (fst (range_rows (valueRowsList sample_range) ! y))]"
    using getRange_assembles [OF read rr others byCol col] by blast
  have "length (Data rs) = 3" using arg_cong [OF rs(2), of length] by (simp add: sample_range_def)
  then have "Values (Data rs ! 2) = [Some ''y'', Some ''3'']"
    using rs(4) by (simp add: a(2) answered_def column_index_def range_rows_def sample_range_def numeral_2_eq_2)
  with rs(1-3) show ?thesis by (auto simp: sample_range_def range_rows_def)
qed

end
