(* ===== verification/DatabaseWrites.thy ===== *)
theory DatabaseWrites
  imports DatabaseReads
begin

text \<open>
  How \<open>Database\<close> writes: the workers that have the columns are asked for their revisions, the
  answers are weighed column by column, and the writes are sent to the workers and the stores,
  or the whole is tried again.
\<close>

section \<open>Asking the workers\<close>

definition DetermineWorkers :: "'w Remote \<Rightarrow> Writes \<Rightarrow> ('w Database, WorkerColumnBimap) prog" where
  "DetermineWorkers R writes =
     bindP (getSchema R) (\<lambda>schema. readP (\<lambda>db. match_workers schema writes (workerStates db)))"

definition WorkerInvoke :: "'w Remote \<Rightarrow> int \<Rightarrow> (int \<Rightarrow> ('w Database, 'a) prog) \<Rightarrow> ('w Database, 'a) prog" where
  "WorkerInvoke R podID work = bindP (remote (r_client R podID)) (\<lambda>_. work podID)"

definition AttemptWrite :: "'w Remote \<Rightarrow> int \<Rightarrow> (int \<Rightarrow> ('w Database, 'a) prog) \<Rightarrow> ('w Database, 'a) prog" where
  "AttemptWrite R podId work = catchP (WorkerInvoke R podId work) (\<lambda>msg. failP (Throw msg))"

definition getColumnIDs :: "Writes \<Rightarrow> int list" where
  "getColumnIDs writes = map fst writes"

text \<open>
  \<open>Apply\<close> starts a task for every pair of a pod and a column; the map keeps the first one of
  each pod.
\<close>

definition Apply ::
  "'w Remote \<Rightarrow> int list \<Rightarrow> int \<Rightarrow> WorkerColumnBimap \<Rightarrow> ('w Database, (int, err + (int, PrepareResult) omap) omap) prog"
where
  "Apply R columnIDs transactionID workers =
     bindP (spawnP (\<lambda>(podId, _). AttemptWrite R podId (\<lambda>pod. remote (r_apply R pod transactionID columnIDs))) workers) (\<lambda>tasks.
       retP (fold (\<lambda>(worker, task). map_insert (fst worker) task) (zip workers tasks) []))"

section \<open>Weighing the answers\<close>

record ColumnWriteResult =
  validateRequired :: bool
  workersByRevision :: "(int, int list) omap"
  failedWorkers :: "int list"

definition new_ColumnWriteResult :: ColumnWriteResult where
  "new_ColumnWriteResult = \<lparr>validateRequired = False, workersByRevision = [], failedWorkers = []\<rparr>"

definition update_result :: "int \<Rightarrow> (ColumnWriteResult \<Rightarrow> ColumnWriteResult) \<Rightarrow> (int, ColumnWriteResult) omap \<Rightarrow> (int, ColumnWriteResult) omap" where
  "update_result col f m = map_put col (f (case map_of m col of None \<Rightarrow> new_ColumnWriteResult | Some r \<Rightarrow> r)) m"

text \<open>
  The loop over the columns of a failed worker. It compares the pod behind the iterator without
  asking for the end of the view.
\<close>

fun fail_columns :: "int \<Rightarrow> WorkerColumnBimap \<Rightarrow> (int, ColumnWriteResult) omap \<Rightarrow> err + (int, ColumnWriteResult) omap" where
  "fail_columns pod [] m = Inl OutOfBounds"
| "fail_columns pod ((p, col) # rest) m =
     (if p = pod then fail_columns pod rest (update_result col (\<lambda>r. r\<lparr>failedWorkers := failedWorkers r @ [pod]\<rparr>) m) else Inr m)"

definition accept_result :: "int \<Rightarrow> int \<times> PrepareResult \<Rightarrow> (int, ColumnWriteResult) omap \<Rightarrow> (int, ColumnWriteResult) omap" where
  "accept_result pod = (\<lambda>(col, pr).
     update_result col (\<lambda>r. r\<lparr>validateRequired := validateRequired r \<or> pr_validateRequired pr,
       workersByRevision := map_put (pr_actualRevision pr)
         ((case map_of (workersByRevision r) (pr_actualRevision pr) of None \<Rightarrow> [] | Some ps \<Rightarrow> ps) @ [pod]) (workersByRevision r)\<rparr>))"

fun process_tasks ::
  "WorkerColumnBimap \<Rightarrow> (int, err + (int, PrepareResult) omap) omap \<Rightarrow> (int, ColumnWriteResult) omap \<Rightarrow> err + (int, ColumnWriteResult) omap"
where
  "process_tasks workers [] m = Inr m"
| "process_tasks workers ((pod, task) # tasks) m =
     (case task of
        Inl e \<Rightarrow> bindE (fail_columns pod (dropWhile (\<lambda>w. fst w \<noteq> pod) workers) m) (process_tasks workers tasks)
      | Inr prepareResults \<Rightarrow> process_tasks workers tasks (fold (accept_result pod) prepareResults m))"

text \<open>
  \<open>ProcessPrepareResults\<close> over the outcomes of the tasks. The clock is not modelled: a worker
  that has not answered when the time for writes has run out makes \<open>ProcessPrepareResults\<close> throw
  and catch an exception, which is the case of a task with an error.
\<close>

definition ProcessPrepareResults ::
  "WorkerColumnBimap \<Rightarrow> (int, err + (int, PrepareResult) omap) omap \<Rightarrow> err + (int, ColumnWriteResult) omap"
where
  "ProcessPrepareResults workers tasks = process_tasks workers tasks []"

definition totalWorkers :: "ColumnWriteResult \<Rightarrow> nat" where
  "totalWorkers r = length (failedWorkers r) + sum_list (map (length \<circ> snd) (workersByRevision r))"

text \<open>Revisions are integers; the 64-bit overflow of the next revision is left out.\<close>

fun CanFinalizeTransaction :: "(int, ColumnWriteResult) omap \<Rightarrow> (int, int) omap \<Rightarrow> bool \<times> (int, int) omap" where
  "CanFinalizeTransaction [] outRevisions = (True, outRevisions)"
| "CanFinalizeTransaction ((col, writeResult) # rest) outRevisions =
     (let failThreshold = totalWorkers writeResult div 2
      in if validateRequired writeResult \<or> workersByRevision writeResult = [] \<or>
           failThreshold \<le> length (failedWorkers writeResult) \<and> 0 < failThreshold \<or>
           length (snd (last (workersByRevision writeResult))) < totalWorkers writeResult div 2
         then (False, outRevisions)
         else CanFinalizeTransaction rest (map_put col (fst (last (workersByRevision writeResult)) + 1) outRevisions))"

section \<open>Committing\<close>

text \<open>The tasks are waited for; nobody asks for their errors.\<close>

definition Commit ::
  "'w Remote \<Rightarrow> int \<Rightarrow> Writes \<Rightarrow> (int, int) omap \<Rightarrow> WorkerColumnBimap \<Rightarrow> StoreWorkerBimap \<Rightarrow> ('w Database, unit) prog"
where
  "Commit R transactionID writes revisions workers stores =
     bindP (spawnP (\<lambda>(podId, _). AttemptWrite R podId (\<lambda>pod. remote (r_commit R pod transactionID writes))) workers) (\<lambda>_.
     bindP (spawnP (\<lambda>(host, _). bindP (remote (st_client R host)) (\<lambda>_.
              catchP (remote (st_commit R host transactionID revisions writes)) (\<lambda>_. retP ()))) stores) (\<lambda>_.
       retP ()))"

text \<open>The call of the store is commented out; what is left takes and returns connections.\<close>

definition Flush :: "'w Remote \<Rightarrow> int \<Rightarrow> StoreWorkerBimap \<Rightarrow> ('w Database, unit) prog" where
  "Flush R transactionID stores = bindP (spawnP (\<lambda>(host, _). remote (st_client R host)) stores) (\<lambda>_. retP ())"

definition finish_apply ::
  "'w Remote \<Rightarrow> int \<Rightarrow> Writes \<Rightarrow> bool \<Rightarrow> (int, int) omap \<Rightarrow> WorkerColumnBimap \<Rightarrow> StoreWorkerBimap \<Rightarrow> ('w Database, unit) prog"
where
  "finish_apply R transactionID writes flush revisions workers stores =
     bindP (Commit R transactionID writes revisions workers stores) (\<lambda>_.
       (let shouldRefreshSchema = (fst (hd writes) \<le> MaxSystemColumnID)
        in bindP (if flush \<or> shouldRefreshSchema then Flush R transactionID stores else retP ()) (\<lambda>_.
             if shouldRefreshSchema
             then bindP (RefreshSchemaCache R) (\<lambda>_. RefreshHiveStateCache R)
             else retP ())))"

text \<open>
  The loop of \<open>apply\<close>. The count of retries stands behind a \<open>continue\<close> and is never reached.
\<close>

partial_function (option) apply_loop :: "'w Remote \<Rightarrow> int \<Rightarrow> Writes \<Rightarrow> bool \<Rightarrow> 'w Database \<Rightarrow> ((err + unit) \<times> 'w Database) option" where
  "apply_loop R transactionID writes flush db =
     bindP (DetermineWorkers R writes) (\<lambda>workers db0.
     bindP (readP DetermineStores) (\<lambda>stores db1.
     bindP (Apply R (getColumnIDs writes) transactionID workers) (\<lambda>tasks db2.
     bindP (liftP (ProcessPrepareResults workers tasks)) (\<lambda>revisionsByColumn db3.
       (case CanFinalizeTransaction revisionsByColumn [] of (done, revisions) \<Rightarrow>
          if done then finish_apply R transactionID writes flush revisions workers stores db3
          else apply_loop R transactionID writes flush db3)) db2) db1) db0) db"

definition db_apply :: "'w Remote \<Rightarrow> int \<Rightarrow> Writes \<Rightarrow> bool \<Rightarrow> ('w Database, unit) prog" where
  "db_apply R transactionID writes flush = (if writes = [] then retP () else apply_loop R transactionID writes flush)"

definition generateTransactionID :: "'w Remote \<Rightarrow> ('w Database, int) prog" where
  "generateTransactionID R = remote (\<lambda>w. case rnd_generate R w of (i, w') \<Rightarrow> (Inr i, w'))"

definition db_apply_new :: "'w Remote \<Rightarrow> Writes \<Rightarrow> bool \<Rightarrow> ('w Database, unit) prog" where
  "db_apply_new R writes flush = bindP (generateTransactionID R) (\<lambda>i. db_apply R i writes flush)"

section \<open>Writes of rows and of the topology\<close>

definition CreateIncludes :: "int list \<Rightarrow> string \<Rightarrow> string list \<Rightarrow> err + Writes" where
  "CreateIncludes columnIds rowId row =
     bindE (mapE (nthE row) [0..<length columnIds]) (\<lambda>values.
       Inr (fold (\<lambda>(col, v). map_insert col \<lparr>cw_includes = [\<lparr>cell_rowID = rowId, cell_value = v\<rparr>], cw_excludes = []\<rparr>)
         (zip columnIds values) []))"

definition db_include :: "'w Remote \<Rightarrow> int list \<Rightarrow> string \<Rightarrow> string list \<Rightarrow> ('w Database, unit) prog" where
  "db_include R columnIds rowId row = bindP (liftP (CreateIncludes columnIds rowId row)) (\<lambda>writes. db_apply_new R writes False)"

definition CreateExcludes :: "int list \<Rightarrow> string \<Rightarrow> string list \<Rightarrow> err + Writes" where
  "CreateExcludes columnIds rowId row =
     bindE (mapE (nthE row) [0..<length columnIds]) (\<lambda>values.
       Inr (fold (\<lambda>(col, v). map_insert col \<lparr>cw_includes = [], cw_excludes = [\<lparr>cell_rowID = rowId, cell_value = v\<rparr>]\<rparr>)
         (zip columnIds values) []))"

definition db_exclude :: "'w Remote \<Rightarrow> int list \<Rightarrow> string \<Rightarrow> string list \<Rightarrow> ('w Database, unit) prog" where
  "db_exclude R columnIds rowId row = bindP (liftP (CreateExcludes columnIds rowId row)) (\<lambda>writes. db_apply_new R writes False)"

text \<open>\<open>exclude\<close> of a row without its values has an empty body.\<close>

definition db_exclude_row :: "int list \<Rightarrow> string \<Rightarrow> ('w Database, unit) prog" where
  "db_exclude_row columnIds rowId = retP ()"

definition topology_writes :: "Topology \<Rightarrow> Writes" where
  "topology_writes t =
     (let cells = \<lambda>xs. \<lparr>cw_includes = map (\<lambda>(r, v). \<lparr>cell_rowID = Encode_long r, cell_value = Encode_long v\<rparr>) xs, cw_excludes = []\<rparr>;
          pods = concat (map (\<lambda>(h, ps). map (\<lambda>(p, _). (p, h)) ps) (tp_hosts t))
      in map_insert PodHostID (cells pods)
           (map_insert PodID (cells (map (\<lambda>(p, h). (p, p)) pods))
           (map_insert HostID (cells (map (\<lambda>(h, _). (h, h)) (tp_hosts t)))
           (map_insert TopologyID (cells [(tp_topologyID t, tp_topologyID t)]) []))))"

definition UpdateTopologySchema :: "'w Remote \<Rightarrow> Topology \<Rightarrow> ('w Database, unit) prog" where
  "UpdateTopologySchema R newTopology = db_apply_new R (topology_writes newTopology) False"

section \<open>Which workers are asked\<close>

lemma getSchema_cached: "db_schema db \<noteq> [] \<Longrightarrow> getSchema R db = Some (Inr (db_schema db), db)"
  by (simp add: getSchema_def)

text \<open>
  C35. The workers of a write: with a schema at hand, \<open>DetermineWorkers\<close> finds, in the order of the
  pods and each once, exactly the pairs of a known worker and a written column such that the
  column is a system column of the schema or is online at the worker.
\<close>

theorem DetermineWorkers_correct:
  assumes "db_schema db \<noteq> []" "omap writes"
  shows "\<exists>ws. DetermineWorkers R writes db = Some (Inr ws, db) \<and> distinct ws \<and> sorted (map fst ws) \<and>
    (\<forall>pod col. (pod, col) \<in> set ws \<longleftrightarrow> col \<in> fst ` set writes \<and>
      (\<exists>sv wk. (pod, sv, wk) \<in> set (workerStates db) \<and> serves (db_schema db) wk col))"
  using match_workers_correct [OF assms(2), of "db_schema db" "workerStates db"]
  by (auto simp: DetermineWorkers_def bindP_run getSchema_cached [OF assms(1)])

definition sample_worker_state :: "int \<Rightarrow> (int, RepositoryStatus) omap \<Rightarrow> int \<times> ServiceState \<times> WorkerState" where
  "sample_worker_state pod repos = (pod, \<lparr>sv_address = \<lparr>na_name = ''host'', na_port = 8064\<rparr>, sv_workers = [], sv_storePort = 8065\<rparr>,
     \<lparr>ws_podID = pod, ws_repositoryStatus = repos, ws_port = 8070 + pod\<rparr>)"

definition sample_column :: ColumnDef where
  "sample_column = \<lparr>def_ColumnID = 0, def_Name = ''Column.ID'', def_ValueTypeName = ''Long'', def_RowIDTypeName = ''Long'',
     def_BufferType = Identity, def_Required = True\<rparr>"

definition sample_writes :: Writes where
  "sample_writes = [(0, \<lparr>cw_includes = [], cw_excludes = []\<rparr>), (10001, \<lparr>cw_includes = [], cw_excludes = []\<rparr>)]"

definition sample_hive :: "unit Database" where
  "sample_hive = sample_db\<lparr>workerStates := [sample_worker_state 1 [(10001, Loading)], sample_worker_state 2 [(10001, Online)]],
     db_schema := [(0, sample_column)]\<rparr>"

theorem DetermineWorkers_correct_witness:
  "\<exists>ws. DetermineWorkers sample_remote sample_writes sample_hive = Some (Inr ws, sample_hive) \<and>
    (1, 0) \<in> set ws \<and> (2, 10001) \<in> set ws \<and> (1, 10001) \<notin> set ws"
proof -
  have a: "db_schema sample_hive \<noteq> []" "omap sample_writes" by (simp_all add: sample_hive_def sample_writes_def omap_def)
  have m: "workerStates sample_hive = [sample_worker_state 1 [(10001, Loading)], sample_worker_state 2 [(10001, Online)]]"
    "db_schema sample_hive = [(0, sample_column)]" by (simp_all add: sample_hive_def)
  obtain ws where ws: "DetermineWorkers sample_remote sample_writes sample_hive = Some (Inr ws, sample_hive)"
    "\<forall>pod col. (pod, col) \<in> set ws \<longleftrightarrow> col \<in> fst ` set sample_writes \<and>
      (\<exists>sv wk. (pod, sv, wk) \<in> set (workerStates sample_hive) \<and> serves (db_schema sample_hive) wk col)"
    using DetermineWorkers_correct [OF a] by blast
  have "(1, 0) \<in> set ws" "(2, 10001) \<in> set ws" "(1, 10001) \<notin> set ws"
    unfolding ws(2) [rule_format] by (auto simp: m sample_worker_state_def sample_writes_def serves_def MaxSystemColumnID_def)
  with ws(1) show ?thesis by blast
qed

section \<open>A worker that fails\<close>

lemma fail_columns_result:
  "(\<forall>w\<in>set ps. fst w = pod) \<Longrightarrow> fail_columns pod ps m = Inl OutOfBounds"
  "\<not> (\<forall>w\<in>set ps. fst w = pod) \<Longrightarrow> \<exists>m'. fail_columns pod ps m = Inr m'"
  by (induction pod ps m rule: fail_columns.induct) auto

lemma failed_pairs:
  assumes "sorted (map fst ws)" "pod \<in> fst ` set ws"
  shows "(\<forall>w\<in>set (dropWhile (\<lambda>w. fst w \<noteq> pod) ws). fst w = pod) \<longleftrightarrow> pod = fst (last ws)"
proof
  let ?d = "dropWhile (\<lambda>w. fst w \<noteq> pod) ws"
  have ne: "?d \<noteq> []" using assms(2) by auto
  have last: "last ?d = last ws" using ne by (metis last_appendR takeWhile_dropWhile_id)
  show "pod = fst (last ws)" if "\<forall>w\<in>set ?d. fst w = pod" using bspec [OF that last_in_set [OF ne]] unfolding last by (rule sym)
  assume p: "pod = fst (last ws)"
  have sd: "sorted (map fst ?d)" using assms(1) sorted_append [of "map fst (takeWhile (\<lambda>w. fst w \<noteq> pod) ws)" "map fst ?d"]
    by (simp flip: map_append)
  have hd: "fst (?d ! 0) = pod" using hd_dropWhile [OF ne] ne by (simp add: hd_conv_nth)
  have lst: "fst (?d ! (length ?d - 1)) = pod" using last p ne by (simp add: last_conv_nth)
  show "\<forall>w\<in>set ?d. fst w = pod"
  proof
    fix w assume "w \<in> set ?d"
    then obtain i where i: "i < length ?d" "w = ?d ! i" by (auto simp only: in_set_conv_nth)
    have "map fst ?d ! 0 \<le> map fst ?d ! i" using i(1) by (intro sorted_nth_mono [OF sd]) simp_all
    moreover have "map fst ?d ! i \<le> map fst ?d ! (length ?d - 1)" using i(1) by (intro sorted_nth_mono [OF sd]) simp_all
    moreover have "map fst ?d ! j = fst (?d ! j)" if "j < length ?d" for j using that by (rule nth_map)
    ultimately show "fst w = pod" using i hd lst by (metis antisym diff_less gr_zeroI length_0_conv less_zeroE ne zero_less_one)
  qed
qed

lemma process_tasks_result:
  assumes "sorted (map fst workers)" "fst ` set tasks \<subseteq> fst ` set workers"
  shows "if \<exists>e. (fst (last workers), Inl e) \<in> set tasks then process_tasks workers tasks m = Inl OutOfBounds
    else \<exists>m'. process_tasks workers tasks m = Inr m'"
  using assms(2)
proof (induction tasks arbitrary: m)
  case (Cons t tasks)
  obtain pod r where t: "t = (pod, r)" by (cases t)
  have pod: "pod \<in> fst ` set workers" and sub: "fst ` set tasks \<subseteq> fst ` set workers" using Cons.prems t by auto
  show ?case
  proof (cases r)
    case (Inr x)
    then show ?thesis using Cons.IH [OF sub] t by auto
  next
    case (Inl e)
    show ?thesis
    proof (cases "pod = fst (last workers)")
      case True
      then have "fail_columns pod (dropWhile (\<lambda>w. fst w \<noteq> pod) workers) m = Inl OutOfBounds"
        using fail_columns_result(1) failed_pairs [OF assms(1) pod] by blast
      with Inl t True show ?thesis by auto
    next
      case False
      then obtain m' where "fail_columns pod (dropWhile (\<lambda>w. fst w \<noteq> pod) workers) m = Inr m'"
        using fail_columns_result(2) failed_pairs [OF assms(1) pod] by blast
      with Inl t False Cons.IH [OF sub, of m'] show ?thesis by auto
    qed
  qed
qed simp

text \<open>
  C37. A failed worker: \<open>ProcessPrepareResults\<close> reads behind the end of the workers exactly when
  the worker with the greatest pod number is one of those that failed or did not answer in time;
  in every other case it returns.
\<close>

theorem ProcessPrepareResults_overrun:
  assumes "sorted (map fst workers)" "fst ` set tasks \<subseteq> fst ` set workers"
  shows "(ProcessPrepareResults workers tasks = Inl OutOfBounds \<longleftrightarrow> (\<exists>e. (fst (last workers), Inl e) \<in> set tasks)) \<and>
    ((\<exists>m. ProcessPrepareResults workers tasks = Inr m) \<longleftrightarrow> (\<nexists>e. (fst (last workers), Inl e) \<in> set tasks))"
  using process_tasks_result [OF assms, of "[]"] by (auto simp: ProcessPrepareResults_def split: if_splits)

theorem ProcessPrepareResults_overrun_witness:
  "ProcessPrepareResults [(1, 10001), (2, 10001)] [(1, Inr []), (2, Inl (Throw ''timeout''))] = Inl OutOfBounds \<and>
   (\<exists>m. ProcessPrepareResults [(1, 10001), (2, 10001)] [(1, Inl (Throw ''timeout'')), (2, Inr [])] = Inr m)"
  using ProcessPrepareResults_overrun [of "[(1, 10001), (2, 10001)]" "[(1, Inr []), (2, Inl (Throw ''timeout''))]"]
    ProcessPrepareResults_overrun [of "[(1, 10001), (2, 10001)]" "[(1, Inl (Throw ''timeout'')), (2, Inr [])]"] by simp

section \<open>Revisions\<close>

text \<open>What an answer has left in the results: its revision is listed and its demand for validation kept.\<close>

definition seen :: "(int, ColumnWriteResult) omap \<Rightarrow> int \<Rightarrow> PrepareResult \<Rightarrow> bool" where
  "seen m col pr \<longleftrightarrow> (\<exists>r. map_of m col = Some r \<and> pr_actualRevision pr \<in> fst ` set (workersByRevision r) \<and>
     (pr_validateRequired pr \<longrightarrow> validateRequired r))"

definition results_ok :: "(int, ColumnWriteResult) omap \<Rightarrow> bool" where
  "results_ok m \<longleftrightarrow> omap m \<and> (\<forall>col r. map_of m col = Some r \<longrightarrow> omap (workersByRevision r))"

lemma update_result_ok:
  assumes "results_ok m" "\<And>r. omap (workersByRevision r) \<Longrightarrow> omap (workersByRevision (f r))"
  shows "results_ok (update_result col f m)"
proof -
  have "omap (workersByRevision (case map_of m col of None \<Rightarrow> new_ColumnWriteResult | Some r \<Rightarrow> r))"
    using assms(1) by (auto simp: results_ok_def new_ColumnWriteResult_def split: option.splits)
  with assms show ?thesis by (auto simp: results_ok_def update_result_def omap_put)
qed

lemma update_result_seen:
  assumes "results_ok m" "seen m c pr"
    and "\<And>r. fst ` set (workersByRevision r) \<subseteq> fst ` set (workersByRevision (f r)) \<and> (validateRequired r \<longrightarrow> validateRequired (f r))"
  shows "seen (update_result col f m) c pr"
proof (cases "c = col")
  case False
  then show ?thesis using assms(1,2) by (simp add: seen_def update_result_def results_ok_def)
next
  case True
  then obtain r where r: "map_of m c = Some r" "pr_actualRevision pr \<in> fst ` set (workersByRevision r)"
    "pr_validateRequired pr \<longrightarrow> validateRequired r" using assms(2) by (auto simp: seen_def)
  have "pr_actualRevision pr \<in> fst ` set (workersByRevision (f r))" "pr_validateRequired pr \<longrightarrow> validateRequired (f r)"
    using r(2,3) assms(3) [of r] by blast+
  with r(1) True assms(1) show ?thesis by (simp add: seen_def update_result_def results_ok_def)
qed

lemma fail_columns_keep:
  "fail_columns pod ps m = Inr m' \<Longrightarrow> results_ok m \<Longrightarrow> results_ok m' \<and> (\<forall>c pr. seen m c pr \<longrightarrow> seen m' c pr)"
proof (induction pod ps m rule: fail_columns.induct)
  case (2 pod p col rest m)
  let ?f = "\<lambda>r. r\<lparr>failedWorkers := failedWorkers r @ [pod]\<rparr>"
  show ?case
  proof (cases "p = pod")
    case True
    have "results_ok (update_result col ?f m)" by (rule update_result_ok [OF "2.prems"(2)]) simp
    moreover have "\<forall>c pr. seen m c pr \<longrightarrow> seen (update_result col ?f m) c pr"
      using update_result_seen [OF "2.prems"(2), where f = ?f] by simp
    ultimately show ?thesis using "2.IH" [OF True] "2.prems"(1) True by auto
  qed (use 2 in simp)
qed simp

lemma accept_result_keep:
  assumes "results_ok m"
  shows "results_ok (accept_result pod x m)" "\<forall>c pr. seen m c pr \<longrightarrow> seen (accept_result pod x m) c pr" "seen (accept_result pod x m) (fst x) (snd x)"
proof -
  obtain col pr where x: "x = (col, pr)" by (cases x)
  define f :: "ColumnWriteResult \<Rightarrow> ColumnWriteResult" where "f = (\<lambda>r. r\<lparr>validateRequired := validateRequired r \<or> pr_validateRequired pr,
       workersByRevision := map_put (pr_actualRevision pr)
         ((case map_of (workersByRevision r) (pr_actualRevision pr) of None \<Rightarrow> [] | Some ps \<Rightarrow> ps) @ [pod]) (workersByRevision r)\<rparr>)"
  have acc: "accept_result pod x m = update_result col f m" by (simp add: accept_result_def f_def x)
  show "results_ok (accept_result pod x m)"
    unfolding acc by (rule update_result_ok [OF assms]) (simp add: f_def omap_put)
  show "\<forall>c pr. seen m c pr \<longrightarrow> seen (accept_result pod x m) c pr"
    unfolding acc by (intro allI impI update_result_seen [OF assms]) (auto simp: f_def set_map_put)
  show "seen (accept_result pod x m) (fst x) (snd x)"
    using assms unfolding acc by (auto simp: seen_def x update_result_def results_ok_def f_def set_map_put)
qed

lemma accept_all_keep:
  "results_ok m \<Longrightarrow> results_ok (fold (accept_result pod) prs m) \<and>
   (\<forall>c pr. seen m c pr \<or> (c, pr) \<in> set prs \<longrightarrow> seen (fold (accept_result pod) prs m) c pr)"
proof (induction prs arbitrary: m)
  case (Cons x prs)
  note k = accept_result_keep [OF Cons.prems, of pod x]
  show ?case using Cons.IH [OF k(1)] k(2,3) by (cases x) auto
qed simp

lemma process_tasks_seen:
  assumes "process_tasks workers tasks m = Inr m'" "results_ok m"
  shows "results_ok m' \<and> (\<forall>c pr. seen m c pr \<or> (\<exists>pod prs. (pod, Inr prs) \<in> set tasks \<and> (c, pr) \<in> set prs) \<longrightarrow> seen m' c pr)"
  using assms
proof (induction tasks arbitrary: m)
  case (Cons t tasks)
  obtain pod r where t: "t = (pod, r)" by (cases t)
  show ?case
  proof (cases r)
    case (Inl e)
    then obtain m1 where m1: "fail_columns pod (dropWhile (\<lambda>w. fst w \<noteq> pod) workers) m = Inr m1" "process_tasks workers tasks m1 = Inr m'"
      using Cons.prems(1) t by (auto simp: bindE_Inr_conv)
    note f = fail_columns_keep [OF m1(1) Cons.prems(2)]
    have "results_ok m1" using f by blast
    then show ?thesis using Cons.IH [OF m1(2)] f Inl t by auto
  next
    case (Inr prs)
    let ?m = "fold (accept_result pod) prs m"
    have m1: "process_tasks workers tasks ?m = Inr m'" using Cons.prems(1) t Inr by simp
    note a = accept_all_keep [OF Cons.prems(2), of pod prs]
    have "results_ok ?m" using a by blast
    then show ?thesis using Cons.IH [OF m1] a Inr t by auto
  qed
qed simp

text \<open>What lets a column be committed.\<close>

definition agreed :: "ColumnWriteResult \<Rightarrow> bool" where
  "agreed r \<longleftrightarrow> \<not> validateRequired r \<and> workersByRevision r \<noteq> [] \<and>
     (totalWorkers r < 2 \<or> length (failedWorkers r) < totalWorkers r div 2) \<and>
     totalWorkers r div 2 \<le> length (snd (last (workersByRevision r)))"

lemma CanFinalize_step:
  "CanFinalizeTransaction ((col, w) # rest) out =
   (if agreed w then CanFinalizeTransaction rest (map_put col (fst (last (workersByRevision w)) + 1) out) else (False, out))"
  by (auto simp: agreed_def Let_def)

lemma CanFinalize_iff: "fst (CanFinalizeTransaction results out) \<longleftrightarrow> (\<forall>(col, r)\<in>set results. agreed r)"
proof (induction results arbitrary: out)
  case (Cons x results)
  then show ?case by (cases x) (simp add: CanFinalize_step del: CanFinalizeTransaction.simps)
qed simp

lemma CanFinalize_revisions:
  assumes "omap results" "omap out" "CanFinalizeTransaction results out = (True, revisions)"
  shows "map_of revisions col = (case map_of results col of None \<Rightarrow> map_of out col | Some r \<Rightarrow> Some (fst (last (workersByRevision r)) + 1))"
  using assms
proof (induction results arbitrary: out)
  case (Cons x results)
  obtain c w where x: "x = (c, w)" by (cases x)
  let ?out = "map_put c (fst (last (workersByRevision w)) + 1) out"
  have o: "omap results" "map_of results c = None" "omap ?out"
    using Cons.prems(1,2) map_of_above [of results c] x by (simp_all add: omap_Cons omap_put)
  have "CanFinalizeTransaction results ?out = (True, revisions)"
    using Cons.prems(3) x by (simp add: CanFinalize_step del: CanFinalizeTransaction.simps split: if_splits)
  from Cons.IH [OF o(1,3) this] o(2) x Cons.prems(2) show ?case by (cases "col = c") (auto split: option.splits)
qed simp

lemma omap_last: "omap m \<Longrightarrow> k \<in> fst ` set m \<Longrightarrow> k \<le> fst (last m)"
proof (induction m)
  case (Cons e m)
  show ?case
  proof (cases "m = []")
    case False
    then have "fst e < fst (last m)" using Cons.prems(1) last_in_set [OF False] by (cases e) (simp add: omap_Cons)
    moreover have "omap m" using Cons.prems(1) by (cases e) (simp add: omap_Cons)
    ultimately show ?thesis using Cons.IH Cons.prems(2) False by auto
  qed (use Cons.prems(2) in simp)
qed simp

text \<open>
  C36. Revisions of a commit: when the answers of the workers let a write be finalised, every
  column a worker has answered for gets a revision greater than the one of the answer, and no
  answer has asked for validation.
\<close>

theorem commit_revisions_fresh:
  assumes "ProcessPrepareResults workers tasks = Inr results" "CanFinalizeTransaction results [] = (True, revisions)"
    and "(pod, Inr prs) \<in> set tasks" "(col, pr) \<in> set prs"
  shows "\<exists>v. map_of revisions col = Some v \<and> pr_actualRevision pr < v \<and> \<not> pr_validateRequired pr"
proof -
  have "results_ok []" by (simp add: results_ok_def)
  then have ok: "results_ok results" and "seen results col pr"
    using process_tasks_seen [OF assms(1) [unfolded ProcessPrepareResults_def]] assms(3,4) by blast+
  then obtain r where r: "map_of results col = Some r" "pr_actualRevision pr \<in> fst ` set (workersByRevision r)"
    "pr_validateRequired pr \<longrightarrow> validateRequired r" by (auto simp: seen_def)
  have "omap results" "omap (workersByRevision r)" using ok r(1) by (auto simp: results_ok_def)
  moreover have "agreed r" using CanFinalize_iff [of results "[]"] assms(2) map_of_SomeD [OF r(1)] by auto
  ultimately show ?thesis
    using CanFinalize_revisions [OF _ _ assms(2), of col] omap_last [of "workersByRevision r"] r by (auto simp: agreed_def)
qed

theorem commit_revisions_fresh_witness:
  "\<exists>results revisions v. ProcessPrepareResults [(1, 10001), (2, 10001)]
      [(1, Inr [(10001, \<lparr>pr_actualRevision = 4, pr_validateRequired = False\<rparr>)]), (2, Inr [(10001, \<lparr>pr_actualRevision = 6, pr_validateRequired = False\<rparr>)])]
      = Inr results \<and> CanFinalizeTransaction results [] = (True, revisions) \<and> map_of revisions 10001 = Some v \<and> 6 < v"
proof -
  let ?w = "[(1, 10001), (2, 10001)] :: WorkerColumnBimap"
  let ?p = "\<lparr>pr_actualRevision = 6, pr_validateRequired = False\<rparr>"
  let ?t = "[(1, Inr [(10001, \<lparr>pr_actualRevision = 4, pr_validateRequired = False\<rparr>)]), (2, Inr [(10001, ?p)])]
    :: (int, err + (int, PrepareResult) omap) omap"
  let ?r = "[(10001, \<lparr>validateRequired = False, workersByRevision = [(4, [1]), (6, [2])], failedWorkers = []\<rparr>)] :: (int, ColumnWriteResult) omap"
  have r: "ProcessPrepareResults ?w ?t = Inr ?r"
    by (simp add: ProcessPrepareResults_def accept_result_def update_result_def new_ColumnWriteResult_def)
  have c: "CanFinalizeTransaction ?r [] = (True, [(10001, 7)])" by (simp add: totalWorkers_def)
  have "\<exists>v. map_of [(10001, 7)] (10001 :: int) = Some v \<and> pr_actualRevision ?p < v \<and> \<not> pr_validateRequired ?p"
    by (rule commit_revisions_fresh [OF r c, of 2 "[(10001, ?p)]"]) simp_all
  with r c show ?thesis by auto
qed

section \<open>Retries\<close>

text \<open>One pass of the loop that does not reach agreement.\<close>

definition refused :: "'w Remote \<Rightarrow> int \<Rightarrow> Writes \<Rightarrow> 'w Database \<Rightarrow> 'w Database \<Rightarrow> bool" where
  "refused R tid writes db db' \<longleftrightarrow>
     (\<exists>workers db1 tasks results. DetermineWorkers R writes db = Some (Inr workers, db1) \<and>
        Apply R (getColumnIDs writes) tid workers db1 = Some (Inr tasks, db') \<and>
        ProcessPrepareResults workers tasks = Inr results \<and> \<not> fst (CanFinalizeTransaction results []))"

definition stuck :: "'w Remote \<Rightarrow> int \<Rightarrow> Writes \<Rightarrow> 'w Database \<Rightarrow> bool" where
  "stuck R tid writes db \<longleftrightarrow> (\<exists>S. db \<in> S \<and> (\<forall>db\<in>S. \<exists>db'\<in>S. refused R tid writes db db'))"

lemma stuck_step: "stuck R tid writes db \<Longrightarrow> \<exists>db'. refused R tid writes db db' \<and> stuck R tid writes db'"
  unfolding stuck_def by blast

lemma stuck_loop:
  assumes "stuck R tid writes db"
  shows "apply_loop R tid writes flush db = None"
proof (cases "apply_loop R tid writes flush db")
  case (Some r)
  have "\<not> stuck R tid writes db"
  proof (rule apply_loop.raw_induct [of "\<lambda>R tid writes flush db r. \<not> stuck R tid writes db", OF _ Some], rule notI)
    fix f :: "'a Remote \<Rightarrow> int \<Rightarrow> Writes \<Rightarrow> bool \<Rightarrow> 'a Database \<Rightarrow> ((err + unit) \<times> 'a Database) option" and R tid writes flush db r
    assume IH: "\<And>R tid writes flush db r. f R tid writes flush db = Some r \<Longrightarrow> \<not> stuck R tid writes db"
      and run: "bindP (DetermineWorkers R writes) (\<lambda>workers db0.
         bindP (readP DetermineStores) (\<lambda>stores db1.
         bindP (Apply R (getColumnIDs writes) tid workers) (\<lambda>tasks db2.
         bindP (liftP (ProcessPrepareResults workers tasks)) (\<lambda>revisionsByColumn db3.
           (case CanFinalizeTransaction revisionsByColumn [] of (done, revisions) \<Rightarrow>
              if done then finish_apply R tid writes flush revisions workers stores db3
              else f R tid writes flush db3)) db2) db1) db0) db = Some r"
      and st: "stuck R tid writes db"
    obtain db' where db': "refused R tid writes db db'" "stuck R tid writes db'" using stuck_step [OF st] by blast
    then obtain workers db1 tasks results where p: "DetermineWorkers R writes db = Some (Inr workers, db1)"
      "Apply R (getColumnIDs writes) tid workers db1 = Some (Inr tasks, db')"
      "ProcessPrepareResults workers tasks = Inr results" "\<not> fst (CanFinalizeTransaction results [])" by (auto simp: refused_def)
    have "f R tid writes flush db' = Some r" using run p by (simp add: bindP_run split: prod.splits)
    with IH db'(2) show False by blast
  qed
  with assms show ?thesis by blast
qed

text \<open>
  C38. Retries: a write that is refused from every state of a set into a state of the set does
  not end. There is no limit on the number of attempts.
\<close>

theorem apply_hangs:
  assumes "\<forall>db\<in>S. \<exists>db'\<in>S. refused R tid writes db db'" "db \<in> S" "writes \<noteq> []"
  shows "db_apply R tid writes flush db = None"
  using stuck_loop [of R tid writes db flush] assms by (auto simp: db_apply_def stuck_def)

text \<open>A worker that always asks for validation.\<close>

definition refusing_remote :: "unit Remote" where
  "refusing_remote = sample_remote\<lparr>r_apply := \<lambda>pod t cs w. (Inr [(10001, \<lparr>pr_actualRevision = 1, pr_validateRequired = True\<rparr>)], w)\<rparr>"

definition refusing_writes :: Writes where
  "refusing_writes = [(10001, \<lparr>cw_includes = [], cw_excludes = []\<rparr>)]"

theorem apply_hangs_witness: "db_apply refusing_remote 1 refusing_writes False sample_hive = None"
proof -
  have d: "DetermineWorkers refusing_remote refusing_writes sample_hive = Some (Inr [(2, 10001)], sample_hive)"
    by (simp add: DetermineWorkers_def bindP_def getSchema_def match_workers_def worker_columns_def bimap_insert_def
      MaxSystemColumnID_def refusing_writes_def sample_hive_def sample_worker_state_def)
  have a: "Apply refusing_remote (getColumnIDs refusing_writes) 1 [(2, 10001)] sample_hive =
      Some (Inr [(2, Inr [(10001, \<lparr>pr_actualRevision = 1, pr_validateRequired = True\<rparr>)])], sample_hive)"
    by (simp add: Apply_def spawnP_def tryP_def AttemptWrite_def WorkerInvoke_def remote_def bindP_def catchP_def refusing_remote_def
      sample_remote_def sample_hive_def sample_db_def)
  have p: "ProcessPrepareResults [(2, 10001)] [(2, Inr [(10001, \<lparr>pr_actualRevision = 1, pr_validateRequired = True\<rparr>)])] =
      Inr [(10001, \<lparr>validateRequired = True, workersByRevision = [(1, [2])], failedWorkers = []\<rparr>)]"
    by (simp add: ProcessPrepareResults_def accept_result_def update_result_def new_ColumnWriteResult_def)
  have "refused refusing_remote 1 refusing_writes sample_hive sample_hive"
    unfolding refused_def using d a p by (intro exI conjI) (assumption | simp)+
  then show ?thesis
    using apply_hangs [of "{sample_hive}" refusing_remote 1 refusing_writes sample_hive False] by (simp add: refusing_writes_def)
qed

end
