(* ===== verification/BufferFactory.thy ===== *)
theory BufferFactory
  imports IdentityBuffer UniqueInlineBuffer UniqueBuffer TreeBuffer ColumnBuffer Schema
begin

text \<open>
  \<open>FastoreCommon/Buffer/BufferFactory.cpp\<close>: the buffer of a column is chosen by its buffer type and
  the size of its values. A column is one of the four buffers behind \<open>IColumnBuffer\<close>; the
  operations are dispatched on it.
\<close>

section \<open>Columns\<close>

datatype ('r, 'v) Column =
    IdentityColumn "'v IdentityBuffer"
  | UniqueInlineColumn "('r, 'v) UniqueInlineBuffer"
  | UniqueColumn "('r, 'v) UniqueBuffer"
  | TreeColumn "('r, 'v) TreeBuffer"

text \<open>
  The factory on types that have been looked up. The code compares the addresses of the two
  types, which for the types of the system is the comparison of their names; \<open>StandardTypes\<close>
  has the factory with the look-up, where the names decide.
\<close>

definition CreateBuffer :: "'v ScalarType \<Rightarrow> 'r ScalarType \<Rightarrow> BufferType_t \<Rightarrow> err + ('r, 'v) Column" where
  "CreateBuffer valueType rowType bufferType =
     (if bufferType = Identity
      then
        if TypeName valueType \<noteq> TypeName rowType
        then Inl (Throw ''Identity Buffers require rowType and ValueType to be the same'')
        else Inr (IdentityColumn (new_IdentityBuffer valueType))
      else if bufferType = Unique
      then
        if TypeSize valueType \<le> 8
        then Inr (UniqueInlineColumn (new_UniqueInlineBuffer rowType valueType))
        else Inr (UniqueColumn (new_UniqueBuffer rowType valueType))
      else Inr (TreeColumn (new_TreeBuffer rowType valueType)))"

text \<open>The virtual functions of \<open>IColumnBuffer\<close>.\<close>

fun col_Apply :: "('r, 'v) Column \<Rightarrow> ColumnWrites \<Rightarrow> err + ('r, 'v) Column" where
  "col_Apply (IdentityColumn b) writes = bindE (id_Apply b writes) (\<lambda>b'. Inr (IdentityColumn b'))"
| "col_Apply (UniqueInlineColumn b) writes = bindE (ui_Apply b writes) (\<lambda>b'. Inr (UniqueInlineColumn b'))"
| "col_Apply (UniqueColumn b) writes = bindE (ub_Apply b writes) (\<lambda>b'. Inr (UniqueColumn b'))"
| "col_Apply (TreeColumn b) writes = bindE (tb_Apply b writes) (\<lambda>b'. Inr (TreeColumn b'))"

fun col_GetRows :: "('r, 'v) Column \<Rightarrow> RangeRequest \<Rightarrow> err + RangeResult" where
  "col_GetRows (IdentityColumn b) rng = id_GetRows b rng"
| "col_GetRows (UniqueInlineColumn b) rng = ui_GetRows b rng"
| "col_GetRows (UniqueColumn b) rng = ub_GetRows b rng"
| "col_GetRows (TreeColumn b) rng = tb_GetRows b rng"

fun col_GetValues :: "('r, 'v) Column \<Rightarrow> string list \<Rightarrow> err + OptionalValue list" where
  "col_GetValues (IdentityColumn b) rowIds = id_GetValues b rowIds"
| "col_GetValues (UniqueInlineColumn b) rowIds = ui_GetValues b rowIds"
| "col_GetValues (UniqueColumn b) rowIds = ub_GetValues b rowIds"
| "col_GetValues (TreeColumn b) rowIds = tb_GetValues b rowIds"

fun col_GetValue :: "('r, 'v) Column \<Rightarrow> string \<Rightarrow> err + OptionalValue" where
  "col_GetValue (IdentityColumn b) rowId = id_GetValue b rowId"
| "col_GetValue (UniqueInlineColumn b) rowId = ui_GetValue b rowId"
| "col_GetValue (UniqueColumn b) rowId = ub_GetValue b rowId"
| "col_GetValue (TreeColumn b) rowId = tb_GetValue b rowId"

fun col_GetStatistic :: "('r, 'v) Column \<Rightarrow> Statistic" where
  "col_GetStatistic (IdentityColumn b) = id_GetStatistic b"
| "col_GetStatistic (UniqueInlineColumn b) = ui_GetStatistic b"
| "col_GetStatistic (UniqueColumn b) = ub_GetStatistic b"
| "col_GetStatistic (TreeColumn b) = tb_GetStatistic b"

text \<open>\<open>GetRowIdType().Compare\<close> and \<open>GetValueType().Compare\<close>.\<close>

fun col_CompareRow :: "('r, 'v) Column \<Rightarrow> string \<Rightarrow> string \<Rightarrow> err + int" where
  "col_CompareRow (IdentityColumn b) = compare_data (id_type b)"
| "col_CompareRow (UniqueInlineColumn b) = compare_data (ui_rowType b)"
| "col_CompareRow (UniqueColumn b) = compare_data (ub_rowType b)"
| "col_CompareRow (TreeColumn b) = compare_data (tb_rowType b)"

fun col_CompareValue :: "('r, 'v) Column \<Rightarrow> string \<Rightarrow> string \<Rightarrow> err + int" where
  "col_CompareValue (IdentityColumn b) = compare_data (id_type b)"
| "col_CompareValue (UniqueInlineColumn b) = compare_data (ui_valueType b)"
| "col_CompareValue (UniqueColumn b) = compare_data (ub_valueType b)"
| "col_CompareValue (TreeColumn b) = compare_data (tb_valueType b)"

definition col_table :: "('r, 'v) Column IColumnBuffer" where
  "col_table =
     \<lparr>cb_Apply = col_Apply, cb_GetRows = col_GetRows, cb_GetValues = col_GetValues, cb_GetValue = col_GetValue,
      cb_GetStatistic = col_GetStatistic, cb_CompareRow = col_CompareRow, cb_CompareValue = col_CompareValue\<rparr>"

section \<open>What a column is\<close>

fun col_type :: "('r, 'v) Column \<Rightarrow> BufferType_t" where
  "col_type (IdentityColumn b) = Identity"
| "col_type (UniqueInlineColumn b) = Unique"
| "col_type (UniqueColumn b) = Unique"
| "col_type (TreeColumn b) = Multi"

text \<open>A well-typed column: its buffer has the two types and its invariant, and its place for values is the right one.\<close>

fun col_inv :: "'r ScalarType \<Rightarrow> 'r set \<Rightarrow> 'v ScalarType \<Rightarrow> 'v set \<Rightarrow> ('r, 'v) Column \<Rightarrow> bool" where
  "col_inv rty KR vty KV (IdentityColumn b) \<longleftrightarrow> id_inv vty KV b \<and> TypeName vty = TypeName rty"
| "col_inv rty KR vty KV (UniqueInlineColumn b) \<longleftrightarrow> ui_inv rty KR vty KV b \<and> TypeSize vty \<le> 8"
| "col_inv rty KR vty KV (UniqueColumn b) \<longleftrightarrow> ub_inv rty KR vty KV b \<and> 8 < TypeSize vty"
| "col_inv rty KR vty KV (TreeColumn b) \<longleftrightarrow> tb_inv rty KR vty KV b"

text \<open>
  Writes whose strings denote rows and values of the column, and whose excludes are safe for the
  trees of its buffer.
\<close>

definition writes_fit ::
  "'x ScalarType \<Rightarrow> 'x set \<Rightarrow> 'v ScalarType \<Rightarrow> ('x \<Rightarrow> 'v \<Rightarrow> bool) \<Rightarrow> ('s \<Rightarrow> 'x \<Rightarrow> bool) \<Rightarrow> ('s \<Rightarrow> 'x \<Rightarrow> err + 's \<times> bool) \<Rightarrow>
   's \<Rightarrow> ColumnWrites \<Rightarrow> bool"
where
  "writes_fit rty KR vty fits safe excl b w \<longleftrightarrow>
     (\<exists>rs ps. list_all2 (\<lambda>x r. GetPointer rty (cell_rowID x) = Inr r) (cw_excludes w) rs \<and> set rs \<subseteq> KR \<and> all_safe safe excl b rs \<and>
        list_all2 (\<lambda>x p. GetPointer rty (cell_rowID x) = Inr (fst p) \<and> GetPointer vty (cell_value x) = Inr (snd p)) (cw_includes w) ps \<and>
        (\<forall>(r, v)\<in>set ps. r \<in> KR \<and> fits r v))"

fun col_fits :: "'r ScalarType \<Rightarrow> 'r set \<Rightarrow> 'v ScalarType \<Rightarrow> 'v set \<Rightarrow> ('r, 'v) Column \<Rightarrow> ColumnWrites \<Rightarrow> bool" where
  "col_fits rty KR vty KV (IdentityColumn b) w \<longleftrightarrow> writes_fit vty KV vty (\<lambda>r v. v = r) (\<lambda>b. tree_safe (id_rows b)) id_Exclude b w"
| "col_fits rty KR vty KV (UniqueInlineColumn b) w \<longleftrightarrow> writes_fit rty KR vty (\<lambda>r v. v \<in> KV) ui_safe ui_Exclude b w"
| "col_fits rty KR vty KV (UniqueColumn b) w \<longleftrightarrow> writes_fit rty KR vty (\<lambda>r v. v \<in> KV) ub_safe ub_Exclude b w"
| "col_fits rty KR vty KV (TreeColumn b) w \<longleftrightarrow> writes_fit rty KR vty (\<lambda>r v. v \<in> KV) tb_safe tb_Exclude b w"

text \<open>The columns a program can reach: created by the factory, changed by fitting writes.\<close>

inductive reach :: "'r ScalarType \<Rightarrow> 'r set \<Rightarrow> 'v ScalarType \<Rightarrow> 'v set \<Rightarrow> BufferType_t \<Rightarrow> ('r, 'v) Column \<Rightarrow> bool"
  for rty KR vty KV bt
where
  created: "CreateBuffer vty rty bt = Inr c \<Longrightarrow> reach rty KR vty KV bt c"
| written: "reach rty KR vty KV bt c \<Longrightarrow> col_fits rty KR vty KV c w \<Longrightarrow> col_Apply c w = Inr c' \<Longrightarrow> reach rty KR vty KV bt c'"

lemma CreateBuffer_inv:
  "CreateBuffer vty rty bt = Inr c \<Longrightarrow> col_inv rty KR vty KV c \<and> col_type c = bt"
  by (cases bt) (auto simp: CreateBuffer_def new_IdentityBuffer_inv new_UniqueInlineBuffer_inv new_UniqueBuffer_inv new_TreeBuffer_inv split: if_splits)

context column_types
begin

lemma col_Apply_ok:
  assumes "col_inv rty KR vty KV c" "col_fits rty KR vty KV c w"
  shows "\<exists>c'. col_Apply c w = Inr c' \<and> col_inv rty KR vty KV c' \<and> col_type c' = col_type c"
proof (cases c)
  case (IdentityColumn b)
  then have b: "id_inv vty KV b" "id_type b = vty" using assms(1) by (simp_all add: id_inv_def)
  obtain b' where "id_Apply b w = Inr b'" "id_inv vty KV b'"
    using assms(2) val.id_apply_refines [OF b(1)] b(2) IdentityColumn unfolding id_Apply_def
    by (simp add: writes_fit_def) blast
  with IdentityColumn assms(1) show ?thesis by simp
next
  case (UniqueInlineColumn b)
  then have b: "ui_inv rty KR vty KV b" "ui_rowType b = rty" "ui_valueType b = vty" using assms(1) by (simp_all add: ui_inv_def)
  obtain b' where "ui_Apply b w = Inr b'" "ui_inv rty KR vty KV b'"
    using assms(2) ui_apply_refines [OF b(1)] b(2,3) UniqueInlineColumn unfolding ui_Apply_def
    by (simp add: writes_fit_def) blast
  with UniqueInlineColumn assms(1) show ?thesis by simp
next
  case (UniqueColumn b)
  then have b: "ub_inv rty KR vty KV b" "ub_rowType b = rty" "ub_valueType b = vty" using assms(1) by (simp_all add: ub_inv_def)
  obtain b' where "ub_Apply b w = Inr b'" "ub_inv rty KR vty KV b'"
    using assms(2) ub_apply_refines [OF b(1)] b(2,3) UniqueColumn unfolding ub_Apply_def
    by (simp add: writes_fit_def) blast
  with UniqueColumn assms(1) show ?thesis by simp
next
  case (TreeColumn b)
  then have b: "tb_inv rty KR vty KV b" "tb_rowType b = rty" "tb_valueType b = vty" using assms(1) by (simp_all add: tb_inv_def)
  obtain b' where "tb_Apply b w = Inr b'" "tb_inv rty KR vty KV b'"
    using assms(2) tb_apply_refines [OF b(1)] b(2,3) TreeColumn unfolding tb_Apply_def
    by (simp add: writes_fit_def) blast
  with TreeColumn assms(1) show ?thesis by simp
qed

lemma reach_inv: "reach rty KR vty KV bt c \<Longrightarrow> col_inv rty KR vty KV c \<and> col_type c = bt"
proof (induction rule: reach.induct)
  case (written c w c')
  then show ?case using col_Apply_ok [of c w] by simp
qed (rule CreateBuffer_inv)

end

section \<open>Properties\<close>

text \<open>
  C39. Columns are well typed: a column made by the factory and changed by fitting writes is a buffer
  of the kind its definition asks for, over the given types and with the invariant of that
  buffer; every further fitting write succeeds and leads to such a column again.
\<close>

theorem columns_well_typed:
  assumes "column_types rty KR vty KV" "reach rty KR vty KV bt c"
  shows "col_inv rty KR vty KV c \<and> col_type c = bt \<and>
    (\<forall>w. col_fits rty KR vty KV c w \<longrightarrow> (\<exists>c'. col_Apply c w = Inr c' \<and> reach rty KR vty KV bt c'))"
  using column_types.reach_inv [OF assms] column_types.col_Apply_ok [OF assms(1), of c] reach.written [OF assms(2)] by blast

theorem columns_well_typed_witness:
  "\<exists>c c'. CreateBuffer LongType LongType Unique = Inr c \<and> col_type c = Unique \<and>
     col_Apply c (single_include (long 3) (long 5)) = Inr c' \<and> reach LongType half_range LongType half_range Unique c'"
proof -
  let ?c = "UniqueInlineColumn (new_UniqueInlineBuffer LongType LongType) :: (64 word, 64 word) Column"
  have c: "CreateBuffer LongType LongType Unique = Inr ?c" by (simp add: CreateBuffer_def LongType_def)
  have "col_fits LongType half_range LongType half_range ?c (single_include (long 3) (long 5))"
    unfolding col_fits.simps writes_fit_def single_include_def
    by (rule exI [of _ "[]"], rule exI [of _ "[(3, 5)]"]) (simp add: sample_keys)
  with columns_well_typed [OF long_long.column_types_axioms reach.created [OF c]]
  have "col_type ?c = Unique" "\<exists>c'. col_Apply ?c (single_include (long 3) (long 5)) = Inr c' \<and> reach LongType half_range LongType half_range Unique c'"
    by blast+
  with c show ?thesis by blast
qed

end
