(* ===== verification/StandardTypes.thy ===== *)
theory StandardTypes
  imports BufferFactory
begin

text \<open>
  \<open>FastoreCommon/Type/Standardtypes.cpp\<close>: the types by their names. A \<open>void*\<close> to a value of any of
  the types is a value of \<open>Data\<close>; a type is lifted along the constructor of its values.
\<close>

datatype Data =
    LongData (the_long: "64 word")
  | IntData (the_int: "32 word")
  | BoolData (the_bool: bool)
  | StringData (the_string: string)

definition lift_type :: "('k \<Rightarrow> Data) \<Rightarrow> (Data \<Rightarrow> 'k) \<Rightarrow> 'k ScalarType \<Rightarrow> Data ScalarType" where
  "lift_type box unbox ty =
     \<lparr>TypeName = TypeName ty, TypeSize = TypeSize ty, Compare = (\<lambda>x y. Compare ty (unbox x) (unbox y)),
      IndexOf = CompareIndexOf (\<lambda>x y. Compare ty (unbox x) (unbox y)), CopyOut = (\<lambda>x. CopyOut ty (unbox x)),
      GetPointer = (\<lambda>s. bindE (GetPointer ty s) (\<lambda>x. Inr (box x)))\<rparr>"

text \<open>
  \<open>rest\<close> gives the entries for the names \<open>WString\<close> and \<open>Double\<close>, and the entry without functions that
  \<open>operator[]\<close> makes for a name that is not in the map.
\<close>

definition GetTypeFromName :: "(string \<Rightarrow> Data ScalarType) \<Rightarrow> string \<Rightarrow> Data ScalarType" where
  "GetTypeFromName rest name =
     (if name = ''String'' then lift_type StringData the_string StringType
      else if name = ''Int'' then lift_type IntData the_int IntType
      else if name = ''Long'' then lift_type LongData the_long LongType
      else if name = ''Bool'' then lift_type BoolData the_bool BoolType
      else rest name)"

text \<open>
  \<open>CreateBuffer\<close> by names. The two types are entries of one map, so the comparison of their
  addresses compares the names, also of names that are not types.
\<close>

definition CreateBuffer_named ::
  "(string \<Rightarrow> Data ScalarType) \<Rightarrow> string \<Rightarrow> string \<Rightarrow> BufferType_t \<Rightarrow> err + (Data, Data) Column"
where
  "CreateBuffer_named rest valueType rowType bufferType =
     (if bufferType = Identity \<and> valueType \<noteq> rowType
      then Inl (Throw ''Identity Buffers require rowType and ValueType to be the same'')
      else CreateBuffer (GetTypeFromName rest valueType) (GetTypeFromName rest rowType) bufferType)"

section \<open>The named types keep the laws of their types\<close>

definition named_values :: "string \<Rightarrow> Data set" where
  "named_values name =
     (if name = ''String'' then range StringData
      else if name = ''Int'' then IntData ` half_range
      else if name = ''Long'' then LongData ` half_range
      else range BoolData)"

lemma lift_wire:
  assumes "wire_type ty K" "\<And>x. unbox (box x) = x"
  shows "wire_type (lift_type box unbox ty) (box ` K)"
proof -
  have o: "scalar_order ty K" and w: "\<And>a. a \<in> K \<Longrightarrow> bindE (CopyOut ty a) (GetPointer ty) = Inr a"
    using assms(1) by (simp_all add: wire_type_def wire_type_axioms_def)
  let ?ty = "lift_type box unbox ty"
  have [simp]: "Compare ?ty (box a) (box b) = Compare ty a b" for a b by (simp add: lift_type_def assms(2))
  have i: "IndexOf ?ty = CompareIndexOf (Compare ?ty)" by (simp add: lift_type_def)
  have c: "bindE (CopyOut ?ty (box a)) (GetPointer ?ty) = Inr (box a)" if "a \<in> K" for a
    using w [OF that] by (cases "CopyOut ty a") (simp_all add: lift_type_def assms(2))
  show ?thesis
  proof (intro wire_type.intro scalar_order.intro wire_type_axioms.intro; (elim imageE)?)
    fix a b c x y z
    show "x \<in> K \<Longrightarrow> a = box x \<Longrightarrow> Compare ?ty a a = 0" by (simp add: scalar_order.cmp_refl [OF o])
    show "x \<in> K \<Longrightarrow> y \<in> K \<Longrightarrow> a = box x \<Longrightarrow> b = box y \<Longrightarrow> Compare ?ty a b < 0 \<longleftrightarrow> 0 < Compare ?ty b a"
      by (simp add: scalar_order.cmp_sym [OF o])
    show "Compare ?ty a c \<le> 0" if "x \<in> K" "y \<in> K" "z \<in> K" "a = box x" "b = box y" "c = box z" "Compare ?ty a b \<le> 0" "Compare ?ty b c \<le> 0"
      using scalar_order.cmp_trans [OF o that(1-3)] that by simp
    show "x \<in> K \<Longrightarrow> a = box x \<Longrightarrow> bindE (CopyOut ?ty a) (GetPointer ?ty) = Inr a" by (simp add: c)
  qed (rule i)
qed

lemma named_wire:
  assumes "name \<in> {''String'', ''Int'', ''Long'', ''Bool''}"
  shows "wire_type (GetTypeFromName rest name) (named_values name)"
proof -
  note l = lift_wire [OF stringW.wire_type_axioms, of the_string StringData] lift_wire [OF intW.wire_type_axioms, of the_int IntData]
    lift_wire [OF longW.wire_type_axioms, of the_long LongData] lift_wire [OF boolW.wire_type_axioms, of the_bool BoolData]
  consider "name = ''String''" | "name = ''Int''" | "name = ''Long''" | "name = ''Bool''" using assms by blast
  then show ?thesis by cases (simp_all add: GetTypeFromName_def named_values_def l)
qed

text \<open>A column made by the factory from the names of two standard types, and changed by fitting writes, is well typed.\<close>

lemma named_columns_inv:
  assumes "vname \<in> {''String'', ''Int'', ''Long'', ''Bool''}" "rname \<in> {''String'', ''Int'', ''Long'', ''Bool''}"
    and "reach (GetTypeFromName rest rname) (named_values rname) (GetTypeFromName rest vname) (named_values vname) bt c"
  shows "col_inv (GetTypeFromName rest rname) (named_values rname) (GetTypeFromName rest vname) (named_values vname) c \<and> col_type c = bt"
  using column_types.reach_inv [OF column_types.intro [OF named_wire [OF assms(2)] named_wire [OF assms(1)]] assms(3)] .

text \<open>Only a request for an identity column over two different types is refused.\<close>

lemma CreateBuffer_named_total:
  assumes "vname \<in> {''String'', ''Int'', ''Long'', ''Bool''}" "rname \<in> {''String'', ''Int'', ''Long'', ''Bool''}"
  shows "(\<exists>c. CreateBuffer_named rest vname rname bt = Inr c) \<longleftrightarrow> bt \<noteq> Identity \<or> vname = rname"
proof -
  have n: "TypeName (GetTypeFromName rest name) = name" if "name \<in> {''String'', ''Int'', ''Long'', ''Bool''}" for name
    using that by (auto simp: GetTypeFromName_def lift_type_def StringType_def IntType_def LongType_def BoolType_def)
  show ?thesis by (cases bt) (auto simp: CreateBuffer_named_def CreateBuffer_def n [OF assms(1)] n [OF assms(2)])
qed

end
