(* ===== verification/WorkerHandler.thy ===== *)
theory WorkerHandler
  imports Hive StandardTypes
begin

text \<open>
  The server side of a pod: \<open>FastoreCore/Repository.cpp\<close>, which holds the buffer of one column, and
  \<open>FastoreCore/WorkerHandler.cpp\<close>, which holds the repositories of a pod and keeps them in
  step with the schema. Buffers are used through \<open>IColumnBuffer\<close>; \<open>mk\<close> is the buffer factory
  by the names of types.
\<close>

section \<open>Repositories\<close>

record 'b Repository =
  rp_status :: RepositoryStatus
  rp_def :: ColumnDef
  rp_buffer :: 'b
  rp_revision :: int

definition new_Repository :: "'b factory \<Rightarrow> ColumnDef \<Rightarrow> err + 'b Repository" where
  "new_Repository mk d =
     bindE (mk (def_ValueTypeName d) (def_RowIDTypeName d) (def_BufferType d)) (\<lambda>b.
       Inr \<lparr>rp_status = Online, rp_def = d, rp_buffer = b, rp_revision = 0\<rparr>)"

definition rp_query :: "'b IColumnBuffer \<Rightarrow> 'b Repository \<Rightarrow> Query \<Rightarrow> err + Answer" where
  "rp_query vt repo query =
     bindE (mapE (cb_GetRows vt (rp_buffer repo)) (q_ranges query)) (\<lambda>results.
     bindE (if q_rowIDs query = [] then Inr [] else cb_GetValues vt (rp_buffer repo) (q_rowIDs query)) (\<lambda>values.
       Inr \<lparr>an_rowIDValues = values, an_rangeValues = results\<rparr>))"

definition rp_apply :: "'b IColumnBuffer \<Rightarrow> 'b Repository \<Rightarrow> int \<Rightarrow> ColumnWrites \<Rightarrow> err + 'b Repository" where
  "rp_apply vt repo revision writes =
     bindE (cb_Apply vt (rp_buffer repo) writes) (\<lambda>b. Inr (repo\<lparr>rp_buffer := b, rp_revision := revision\<rparr>))"

definition rp_getStatistic :: "'b IColumnBuffer \<Rightarrow> 'b Repository \<Rightarrow> Statistic" where
  "rp_getStatistic vt repo = cb_GetStatistic vt (rp_buffer repo)"

section \<open>The repositories of a pod\<close>

record 'b Worker =
  wk_podId :: int
  repositories :: "(int, 'b Repository) omap"

text \<open>\<open>_repositories[id]->...\<close>: a column that is not there is a null pointer.\<close>

definition repo_at :: "'b Worker \<Rightarrow> int \<Rightarrow> err + 'b Repository" where
  "repo_at W col = (case map_of (repositories W) col of None \<Rightarrow> Inl NullPointer | Some r \<Rightarrow> Inr r)"

definition CreateRepo :: "'b factory \<Rightarrow> ColumnDef \<Rightarrow> 'b Worker \<Rightarrow> err + 'b Worker" where
  "CreateRepo mk d W =
     bindE (new_Repository mk d) (\<lambda>repo. Inr (W\<lparr>repositories := map_put (def_ColumnID d) repo (repositories W)\<rparr>))"

definition put_cell :: "'b IColumnBuffer \<Rightarrow> int \<Rightarrow> string \<Rightarrow> string \<Rightarrow> 'b Worker \<Rightarrow> err + 'b Worker" where
  "put_cell vt col rowId value W =
     bindE (repo_at W col) (\<lambda>repo.
     bindE (rp_apply vt repo 0 (single_include rowId value)) (\<lambda>repo'.
       Inr (W\<lparr>repositories := map_put col repo' (repositories W)\<rparr>)))"

definition AddColumnToSchema :: "'b IColumnBuffer \<Rightarrow> ColumnDef \<Rightarrow> 'b Worker \<Rightarrow> err + 'b Worker" where
  "AddColumnToSchema vt d W =
     (let columnId = Encode_long (def_ColumnID d)
      in bindE (put_cell vt 0 columnId columnId W) (\<lambda>W.
         bindE (put_cell vt 1 columnId (def_Name d) W) (\<lambda>W.
         bindE (put_cell vt 2 columnId (def_ValueTypeName d) W) (\<lambda>W.
         bindE (put_cell vt 3 columnId (def_RowIDTypeName d) W) (\<lambda>W.
         bindE (put_cell vt 4 columnId (Encode_int (BufferType_number (def_BufferType d))) W) (\<lambda>W.
           put_cell vt 5 columnId (Encode_bool (def_Required d)) W))))))"

text \<open>The value of one row; a value that is not set is the empty string.\<close>

definition get_cell :: "'b IColumnBuffer \<Rightarrow> 'b Worker \<Rightarrow> int \<Rightarrow> string \<Rightarrow> err + string" where
  "get_cell vt W col rowId =
     bindE (repo_at W col) (\<lambda>repo.
     bindE (rp_query vt repo \<lparr>q_rowIDs = [rowId], q_ranges = []\<rparr>) (\<lambda>answer.
     bindE (nthE (an_rowIDValues answer) 0) (\<lambda>v. Inr (case v of None \<Rightarrow> [] | Some s \<Rightarrow> s))))"

definition GetDefFromSchema :: "'b IColumnBuffer \<Rightarrow> int \<Rightarrow> 'b Worker \<Rightarrow> err + ColumnDef" where
  "GetDefFromSchema vt col W =
     (let rowId = Encode_long col
      in bindE (get_cell vt W 1 rowId) (\<lambda>name.
         bindE (get_cell vt W 2 rowId) (\<lambda>valueType.
         bindE (get_cell vt W 3 rowId) (\<lambda>rowType.
         bindE (get_cell vt W 4 rowId) (\<lambda>b. bindE (Decode_int b) (\<lambda>bType.
         bindE (get_cell vt W 5 rowId) (\<lambda>r. bindE (Decode_bool r) (\<lambda>req.
           Inr \<lparr>def_ColumnID = col, def_Name = name, def_ValueTypeName = valueType, def_RowIDTypeName = rowType,
                def_BufferType = BufferType_of bType, def_Required = req\<rparr>))))))))"

definition system_def :: "int \<Rightarrow> string \<Rightarrow> string \<Rightarrow> BufferType_t \<Rightarrow> ColumnDef" where
  "system_def col name valueType bt =
     \<lparr>def_ColumnID = col, def_Name = name, def_ValueTypeName = valueType, def_RowIDTypeName = ''Long'', def_BufferType = bt, def_Required = True\<rparr>"

definition system_columns :: "ColumnDef list" where
  "system_columns =
     [system_def 0 ''Column.ID'' ''Long'' Identity,
      system_def 1 ''Column.Name'' ''String'' Unique,
      system_def 2 ''Column.ValueType'' ''String'' Multi,
      system_def 3 ''Column.RowIDType'' ''String'' Multi,
      system_def 4 ''Column.BufferType'' ''Int'' Multi,
      system_def 5 ''Column.Required'' ''Bool'' Multi,
      system_def TopologyID ''Topology.ID'' ''Long'' Identity,
      system_def HostID ''Host.ID'' ''Long'' Identity,
      system_def PodID ''Pod.ID'' ''Long'' Unique,
      system_def PodHostID ''Pod.HostID'' ''Long'' Multi,
      system_def PodColumnPodID ''PodColumn.PodID'' ''Long'' Multi,
      system_def PodColumnColumnID ''PodColumn.ColumnID'' ''Long'' Multi,
      system_def 500 ''Stash.ID'' ''Long'' Unique,
      system_def 501 ''Stash.HostID'' ''Long'' Multi,
      system_def 600 ''StashColumn.StashID'' ''Long'' Multi,
      system_def 601 ''StashColumn.ColumnID'' ''Long'' Multi]"

definition Bootstrap :: "'b IColumnBuffer \<Rightarrow> 'b factory \<Rightarrow> 'b Worker \<Rightarrow> err + 'b Worker" where
  "Bootstrap vt mk W =
     bindE (foldE (CreateRepo mk) system_columns W) (\<lambda>W'. foldE (AddColumnToSchema vt) system_columns W')"

definition new_Worker :: "'b IColumnBuffer \<Rightarrow> 'b factory \<Rightarrow> int \<Rightarrow> err + 'b Worker" where
  "new_Worker vt mk podId = Bootstrap vt mk \<lparr>wk_podId = podId, repositories = []\<rparr>"

section \<open>Following the schema\<close>

text \<open>The columns the schema gives to the pod; nothing when it has no rows for the pod.\<close>

definition schema_columns :: "'b IColumnBuffer \<Rightarrow> 'b Worker \<Rightarrow> err + int list option" where
  "schema_columns vt W =
     (let podId = \<lparr>boundValue = Encode_long (wk_podId W), inclusive = True\<rparr>;
          rng = \<lparr>ascending = True, limit = 200000, first = Some podId, last_bound = Some podId, start_rowID = None\<rparr>
      in bindE (repo_at W 400) (\<lambda>pods.
         bindE (rp_query vt pods \<lparr>q_rowIDs = [], q_ranges = [rng]\<rparr>) (\<lambda>answer.
         bindE (nthE (an_rangeValues answer) 0) (\<lambda>rows.
           case valueRowsList rows of
             [] \<Rightarrow> Inr None
           | vr # _ \<Rightarrow>
               bindE (repo_at W 401) (\<lambda>columns.
               bindE (rp_query vt columns \<lparr>q_rowIDs = vrRowIDs vr, q_ranges = []\<rparr>) (\<lambda>answer'.
               bindE (mapE (\<lambda>v. Decode_long (case v of None \<Rightarrow> [] | Some s \<Rightarrow> s)) (an_rowIDValues answer')) (\<lambda>ids.
                 Inr (Some (remdups ids)))))))))"

definition ensure_repo :: "'b IColumnBuffer \<Rightarrow> 'b factory \<Rightarrow> int \<Rightarrow> 'b Worker \<Rightarrow> err + 'b Worker" where
  "ensure_repo vt mk col W =
     (case map_of (repositories W) col of
        Some _ \<Rightarrow> Inr W
      | None \<Rightarrow> bindE (GetDefFromSchema vt col W) (\<lambda>d. CreateRepo mk d W))"

definition SyncToSchema :: "'b IColumnBuffer \<Rightarrow> 'b factory \<Rightarrow> 'b Worker \<Rightarrow> err + 'b Worker" where
  "SyncToSchema vt mk W =
     bindE (schema_columns vt W) (\<lambda>found.
       case found of
         None \<Rightarrow> Inr W
       | Some schemaIds \<Rightarrow>
           foldE (ensure_repo vt mk) schemaIds
             (W\<lparr>repositories := filter (\<lambda>(c, _). c \<in> set schemaIds \<or> c \<le> MaxSystemColumnID) (repositories W)\<rparr>))"

section \<open>Requests\<close>

definition wk_apply :: "'b Worker \<Rightarrow> int list \<Rightarrow> (int, PrepareResult) omap" where
  "wk_apply W columnIDs =
     fold (\<lambda>col. map_insert col \<lparr>pr_actualRevision = (case map_of (repositories W) col of None \<Rightarrow> 0 | Some r \<Rightarrow> rp_revision r),
                                 pr_validateRequired = False\<rparr>) columnIDs []"

text \<open>
  The loop of \<open>commit\<close>; \<open>sync\<close> is \<open>syncSchema\<close>. The repository is looked up before the schema is
  followed, and used after it.
\<close>

fun commit_writes :: "'b IColumnBuffer \<Rightarrow> 'b factory \<Rightarrow> Writes \<Rightarrow> bool \<Rightarrow> 'b Worker \<Rightarrow> err + bool \<times> 'b Worker" where
  "commit_writes vt mk [] sync W = Inr (sync, W)"
| "commit_writes vt mk ((col, colwrites) # rest) sync W =
     (let sync1 = (sync \<or> col = PodColumnPodID \<or> col = PodColumnColumnID)
      in case map_of (repositories W) col of
           None \<Rightarrow> commit_writes vt mk rest sync1 W
         | Some _ \<Rightarrow>
             bindE (if sync1 \<and> PodColumnColumnID < col then bindE (SyncToSchema vt mk W) (\<lambda>W1. Inr (False, W1)) else Inr (sync1, W)) (\<lambda>(sync2, W1).
               case map_of (repositories W1) col of
                 None \<Rightarrow> Inl BadPointer
               | Some repo \<Rightarrow>
                   bindE (rp_apply vt repo (rp_revision repo + 1) colwrites) (\<lambda>repo'.
                     commit_writes vt mk rest sync2 (W1\<lparr>repositories := map_put col repo' (repositories W1)\<rparr>))))"

definition wk_commit :: "'b IColumnBuffer \<Rightarrow> 'b factory \<Rightarrow> Writes \<Rightarrow> 'b Worker \<Rightarrow> err + 'b Worker" where
  "wk_commit vt mk writes W =
     bindE (commit_writes vt mk writes False W) (\<lambda>(sync, W'). if sync then SyncToSchema vt mk W' else Inr W')"

definition wk_query :: "'b IColumnBuffer \<Rightarrow> 'b Worker \<Rightarrow> (int, Query) omap \<Rightarrow> err + (int, ReadResult) omap" where
  "wk_query vt W queries =
     mapE (\<lambda>(col, query).
       bindE (repo_at W col) (\<lambda>repo.
       bindE (rp_query vt repo query) (\<lambda>answer.
         Inr (col, \<lparr>rr_answer = answer, rr_revision = rp_revision repo\<rparr>)))) queries"

definition wk_getStatistics :: "'b IColumnBuffer \<Rightarrow> 'b Worker \<Rightarrow> int list \<Rightarrow> Statistic list" where
  "wk_getStatistics vt W columnIDs =
     map (\<lambda>col. case map_of (repositories W) col of None \<Rightarrow> \<lparr>total = 0, unique = 0\<rparr> | Some r \<Rightarrow> rp_getStatistic vt r) columnIDs"

definition wk_getState :: "'b Worker \<Rightarrow> WorkerState" where
  "wk_getState W =
     \<lparr>ws_podID = wk_podId W, ws_repositoryStatus = map (\<lambda>(c, r). (c, rp_status r)) (repositories W), ws_port = 0\<rparr>"

text \<open>Loading of a column.\<close>

definition find_repo :: "'b Worker \<Rightarrow> int \<Rightarrow> err + 'b Repository" where
  "find_repo W col = (case map_of (repositories W) col of None \<Rightarrow> Inl (Throw ''Can't find repo!'') | Some r \<Rightarrow> Inr r)"

definition loadBegin :: "int \<Rightarrow> 'b Worker \<Rightarrow> err + 'b Worker" where
  "loadBegin col W = bindE (find_repo W col) (\<lambda>_. Inr W)"

definition loadWrite :: "'b IColumnBuffer \<Rightarrow> int \<Rightarrow> ColumnWrites \<Rightarrow> 'b Worker \<Rightarrow> err + 'b Worker" where
  "loadWrite vt col writes W =
     bindE (find_repo W col) (\<lambda>repo.
     bindE (rp_apply vt repo (rp_revision repo + 1) writes) (\<lambda>repo'.
       Inr (W\<lparr>repositories := map_put col repo' (repositories W)\<rparr>)))"

definition loadEnd :: "int \<Rightarrow> int \<Rightarrow> 'b Worker \<Rightarrow> err + 'b Worker" where
  "loadEnd col revision W =
     bindE (find_repo W col) (\<lambda>repo. Inr (W\<lparr>repositories := map_put col (repo\<lparr>rp_revision := revision\<rparr>) (repositories W)\<rparr>))"

section \<open>Following the schema keeps the pod in step\<close>

text \<open>The repository the schema asks for: its definition in the column table, an empty buffer, revision zero.\<close>

definition schema_repo :: "'b IColumnBuffer \<Rightarrow> 'b factory \<Rightarrow> 'b Worker \<Rightarrow> int \<Rightarrow> 'b Repository option" where
  "schema_repo vt mk W col =
     (case bindE (GetDefFromSchema vt col W) (new_Repository mk) of Inl _ \<Rightarrow> None | Inr r \<Rightarrow> Some r)"

lemma map_of_filter_keys: "map_of (filter (\<lambda>(c, _). P c) m) k = (if P k then map_of m k else None)"
  by (induction m) auto

lemma omap_filter: "omap m \<Longrightarrow> omap (filter P m)"
  unfolding omap_def sorted_wrt_map by (rule sorted_wrt_filter)

lemma get_cell_cong: "map_of (repositories W) c = map_of (repositories W') c \<Longrightarrow> get_cell vt W c = get_cell vt W' c"
  by (intro ext) (simp add: get_cell_def repo_at_def)

lemma get_cell_reads: "get_cell vt W c r = Inr v \<Longrightarrow> map_of (repositories W) c \<noteq> None"
  by (cases "map_of (repositories W) c") (simp_all add: get_cell_def repo_at_def)

lemma get_def_cong:
  assumes "\<forall>c\<in>{1, 2, 3, 4, 5}. map_of (repositories W) c = map_of (repositories W') c"
  shows "GetDefFromSchema vt col W = GetDefFromSchema vt col W'"
proof -
  have "get_cell vt W c = get_cell vt W' c" if "c \<in> {1, 2, 3, 4, 5}" for c using assms that by (intro get_cell_cong) blast
  then show ?thesis unfolding GetDefFromSchema_def by simp
qed

lemma get_def_reads:
  assumes "GetDefFromSchema vt col W = Inr d"
  shows "def_ColumnID d = col" "c \<in> {1, 2, 3, 4, 5} \<Longrightarrow> map_of (repositories W) c \<noteq> None"
proof -
  obtain a1 a2 a3 a4 a5 where c: "get_cell vt W 1 (Encode_long col) = Inr a1" "get_cell vt W 2 (Encode_long col) = Inr a2"
    "get_cell vt W 3 (Encode_long col) = Inr a3" "get_cell vt W 4 (Encode_long col) = Inr a4"
    "get_cell vt W 5 (Encode_long col) = Inr a5"
    using assms unfolding GetDefFromSchema_def Let_def bindE_Inr_conv by (elim exE conjE) (rule that)
  show "def_ColumnID d = col" using assms unfolding GetDefFromSchema_def Let_def bindE_Inr_conv by (elim exE conjE) (simp, force)
  show "c \<in> {1, 2, 3, 4, 5} \<Longrightarrow> map_of (repositories W) c \<noteq> None" using c [THEN get_cell_reads] by blast
qed

lemma ensure_repo_step:
  assumes "omap (repositories W)" "map_of (repositories W) col = None" "schema_repo vt mk W col = Some r"
  shows "ensure_repo vt mk col W = Inr (W\<lparr>repositories := map_put col r (repositories W)\<rparr>)"
    and "schema_repo vt mk (W\<lparr>repositories := map_put col r (repositories W)\<rparr>) = schema_repo vt mk W"
proof -
  obtain d where d: "GetDefFromSchema vt col W = Inr d" "new_Repository mk d = Inr r"
    using assms(3) by (auto simp: schema_repo_def bindE_Inr_conv split: sum.splits)
  show "ensure_repo vt mk col W = Inr (W\<lparr>repositories := map_put col r (repositories W)\<rparr>)"
    using d get_def_reads(1) [OF d(1)] assms(2) by (simp add: ensure_repo_def CreateRepo_def)
  have "c \<noteq> col" if "c \<in> {1, 2, 3, 4, 5}" for c using get_def_reads(2) [OF d(1) that] assms(2) by auto
  then have "GetDefFromSchema vt x (W\<lparr>repositories := map_put col r (repositories W)\<rparr>) = GetDefFromSchema vt x W" for x
    using assms(1) by (intro get_def_cong) auto
  then show "schema_repo vt mk (W\<lparr>repositories := map_put col r (repositories W)\<rparr>) = schema_repo vt mk W"
    by (intro ext) (simp add: schema_repo_def)
qed

lemma ensure_repos:
  assumes "omap (repositories W)"
    and "\<forall>col\<in>set ids. map_of (repositories W) col = None \<longrightarrow> schema_repo vt mk W col \<noteq> None"
  shows "\<exists>W'. foldE (ensure_repo vt mk) ids W = Inr W' \<and> wk_podId W' = wk_podId W \<and> omap (repositories W') \<and>
    (\<forall>col. map_of (repositories W') col =
      (if map_of (repositories W) col = None \<and> col \<in> set ids then schema_repo vt mk W col else map_of (repositories W) col))"
  using assms
proof (induction ids arbitrary: W)
  case (Cons i ids)
  show ?case
  proof (cases "map_of (repositories W) i")
    case (Some r)
    then have e: "ensure_repo vt mk i W = Inr W" by (simp add: ensure_repo_def)
    have "\<forall>col\<in>set ids. map_of (repositories W) col = None \<longrightarrow> schema_repo vt mk W col \<noteq> None" using Cons.prems(2) by simp
    from Cons.IH [OF Cons.prems(1) this] show ?thesis using e Some by (auto simp: fun_eq_iff)
  next
    case None
    then obtain r where r: "schema_repo vt mk W i = Some r" using Cons.prems(2) by auto
    note step = ensure_repo_step [OF Cons.prems(1) None r]
    let ?W = "W\<lparr>repositories := map_put i r (repositories W)\<rparr>"
    have "omap (repositories ?W)" using Cons.prems(1) by (simp add: omap_put)
    moreover have "\<forall>col\<in>set ids. map_of (repositories ?W) col = None \<longrightarrow> schema_repo vt mk ?W col \<noteq> None"
      using Cons.prems step(2) by auto
    ultimately obtain W' where W': "foldE (ensure_repo vt mk) ids ?W = Inr W'" "wk_podId W' = wk_podId W" "omap (repositories W')"
      "\<And>col. map_of (repositories W') col =
        (if map_of (repositories ?W) col = None \<and> col \<in> set ids then schema_repo vt mk W col else map_of (repositories ?W) col)"
      using Cons.IH [of ?W] step(2) by auto
    have "map_of (repositories W') col =
      (if map_of (repositories W) col = None \<and> col \<in> set (i # ids) then schema_repo vt mk W col else map_of (repositories W) col)" for col
      using W'(4) [of col] Cons.prems(1) None r by auto
    with W'(1-3) step(1) show ?thesis by simp
  qed
qed simp

section \<open>Writes to a column that the same transaction creates\<close>

lemma commit_writes_append:
  "commit_writes vt mk (xs @ ys) sync W = bindE (commit_writes vt mk xs sync W) (\<lambda>(s, W'). commit_writes vt mk ys s W')"
proof (induction xs arbitrary: sync W)
  case (Cons x xs)
  obtain col w where x: "x = (col, w)" by (cases x)
  let ?s = "sync \<or> col = PodColumnPodID \<or> col = PodColumnColumnID"
  show ?case
  proof (cases "map_of (repositories W) col")
    case None
    with x Cons.IH show ?thesis by (simp add: Let_def)
  next
    case (Some repo)
    let ?next = "if ?s \<and> PodColumnColumnID < col then bindE (SyncToSchema vt mk W) (\<lambda>W1. Inr (False, W1)) else Inr (?s, W)"
    show ?thesis
    proof (cases ?next)
      case (Inr q)
      obtain s1 W1 where q: "q = (s1, W1)" by (cases q)
      with x Some Inr Cons.IH show ?thesis
        by (cases "map_of (repositories W1) col"; cases "rp_apply vt (the (map_of (repositories W1) col)) (rp_revision (the (map_of (repositories W1) col)) + 1) w")
          (simp_all add: Let_def)
    qed (use x Some in \<open>simp add: Let_def\<close>)
  qed
qed simp

text \<open>As long as only system tables up to the columns of pods are written, no repository comes or goes.\<close>

lemma commit_system_columns:
  assumes "\<forall>x\<in>set xs. fst x \<le> PodColumnColumnID" "commit_writes vt mk xs sync W = Inr (sync', W')"
  shows "map_of (repositories W') col = None \<longleftrightarrow> map_of (repositories W) col = None"
  using assms
proof (induction xs arbitrary: sync W)
  case (Cons x xs)
  obtain c w where x: "x = (c, w)" "c \<le> PodColumnColumnID" using Cons.prems(1) by (cases x) auto
  show ?case
  proof (cases "map_of (repositories W) c")
    case None
    with Cons x show ?thesis by (simp add: Let_def)
  next
    case (Some repo)
    obtain repo' where r: "commit_writes vt mk xs (sync \<or> c = PodColumnPodID \<or> c = PodColumnColumnID)
        (W\<lparr>repositories := map_put c repo' (repositories W)\<rparr>) = Inr (sync', W')"
      using Cons.prems(2) x Some by (auto simp: Let_def bindE_Inr_conv)
    have "map_of (repositories W') col = None \<longleftrightarrow> col \<notin> insert c (fst ` set (repositories W))"
      using Cons.IH [OF _ r] Cons.prems(1) by (simp add: map_of_eq_None_iff set_map_put)
    moreover have "c \<in> fst ` set (repositories W)" using Some by (force dest: map_of_SomeD)
    ultimately show ?thesis by (auto simp: map_of_eq_None_iff)
  qed
qed simp

lemma commit_loses_writes:
  assumes "\<forall>x\<in>set xs. fst x \<le> PodColumnColumnID" "PodColumnColumnID < col" "map_of (repositories W) col = None"
  shows "wk_commit vt mk (xs @ [(col, w)]) W = wk_commit vt mk xs W"
proof (cases "commit_writes vt mk xs False W")
  case (Inr q)
  obtain s W' where q: "q = (s, W')" by (cases q)
  have "map_of (repositories W') col = None" using commit_system_columns [OF assms(1)] Inr q assms(3) by metis
  moreover have "col \<noteq> PodColumnPodID" "col \<noteq> PodColumnColumnID" using assms(2) by (simp_all add: PodColumnPodID_def PodColumnColumnID_def)
  ultimately have "commit_writes vt mk [(col, w)] s W' = Inr (s, W')" by simp
  then have "commit_writes vt mk (xs @ [(col, w)]) False W = Inr (s, W')" using Inr q by (simp add: commit_writes_append)
  then show ?thesis using Inr q by (simp add: wk_commit_def)
qed (simp add: wk_commit_def commit_writes_append)

section \<open>Properties\<close>

text \<open>
  C40. A pod follows its schema: when the schema lists at least one column for the pod and each
  listed column that the pod does not have can be created from its definition,
  \<open>SyncToSchema\<close> succeeds; it keeps the repositories of system columns and of listed
  columns as they are, drops the others, and adds for each missing column the repository its
  definition asks for, and nothing else.
\<close>

theorem SyncToSchema_correct:
  assumes "omap (repositories W)" "schema_columns vt W = Inr (Some ids)"
    and "\<forall>col\<in>set ids. map_of (repositories W) col = None \<longrightarrow> schema_repo vt mk W col \<noteq> None"
  shows "\<exists>W'. SyncToSchema vt mk W = Inr W' \<and> wk_podId W' = wk_podId W \<and> omap (repositories W') \<and>
    (\<forall>col. map_of (repositories W') col =
      (if col \<in> set ids \<and> map_of (repositories W) col = None then schema_repo vt mk W col
       else if col \<in> set ids \<or> col \<le> MaxSystemColumnID then map_of (repositories W) col
       else None))"
proof -
  let ?W = "W\<lparr>repositories := filter (\<lambda>(c, _). c \<in> set ids \<or> c \<le> MaxSystemColumnID) (repositories W)\<rparr>"
  have "GetDefFromSchema vt x ?W = GetDefFromSchema vt x W" for x
    by (intro get_def_cong) (simp add: map_of_filter_keys MaxSystemColumnID_def)
  then have eq: "schema_repo vt mk ?W = schema_repo vt mk W" by (intro ext) (simp add: schema_repo_def)
  have "omap (repositories ?W)" using assms(1) by (simp add: omap_filter)
  moreover have "\<forall>col\<in>set ids. map_of (repositories ?W) col = None \<longrightarrow> schema_repo vt mk ?W col \<noteq> None"
    using assms(3) by (simp add: eq map_of_filter_keys)
  ultimately obtain W' where W': "foldE (ensure_repo vt mk) ids ?W = Inr W'" "wk_podId W' = wk_podId W" "omap (repositories W')"
    "\<And>col. map_of (repositories W') col =
      (if map_of (repositories ?W) col = None \<and> col \<in> set ids then schema_repo vt mk W col else map_of (repositories ?W) col)"
    using ensure_repos [of ?W ids vt mk] by (auto simp: eq)
  have "SyncToSchema vt mk W = Inr W'" using W'(1) assms(2) by (simp add: SyncToSchema_def)
  with W' show ?thesis by (intro exI [of _ W']) (auto simp: map_of_filter_keys)
qed

definition sample_column :: "64 word \<Rightarrow> 64 word \<Rightarrow> (64 word, 64 word) UniqueInlineBuffer" where
  "sample_column r v = \<lparr>ui_rowType = LongType, ui_valueType = LongType,
     ui_rows = leaf_tree LongType False [(r, Some v)], ui_values = leaf_tree LongType False [(v, Some r)], ui_count = 1\<rparr>"

definition sample_factory :: "(64 word, 64 word) Column factory" where
  "sample_factory valueType rowType bt = CreateBuffer LongType LongType bt"

definition sample_repo :: "int \<Rightarrow> 64 word \<Rightarrow> 64 word \<Rightarrow> int \<times> (64 word, 64 word) Column Repository" where
  "sample_repo col r v = (col, \<lparr>rp_status = Online, rp_def = system_def col [] ''Long'' Unique,
     rp_buffer = UniqueInlineColumn (sample_column r v), rp_revision = 0\<rparr>)"

text \<open>A pod of longs: the column table has one row for column 9, the schema gives column 9 to pod 7.\<close>

definition sample_pod :: "(64 word, 64 word) Column Worker" where
  "sample_pod = \<lparr>wk_podId = 7, repositories =
     [sample_repo 1 9 1, sample_repo 2 9 1, sample_repo 3 9 1, sample_repo 4 9 1, sample_repo 5 9 1,
      sample_repo 400 2 7, sample_repo 401 2 9, sample_repo 10049 2 2]\<rparr>"

lemma sample_column_inv:
  "r \<in> half_range \<Longrightarrow> v \<in> half_range \<Longrightarrow> ui_inv LongType half_range LongType half_range (sample_column r v)"
  unfolding ui_inv_def sample_column_def
  by (auto simp: leaf_tree_inv LongType_def LongCompare_def half_range_def mirror_def)

lemma sample_column_value:
  assumes "r \<in> half_range" "v \<in> half_range"
  shows "ui_GetValues (sample_column r v) [long r] = Inr [Some (long v)]"
proof -
  have "ui_look LongType half_range (sample_column r v) r = Some v"
    using assms by (simp add: unique_look_def row_lookup_def sample_column_def LongType_def LongCompare_def half_range_def)
  then have "ui_GetValuePtr (sample_column r v) r = Inr (Some v)"
    using long_long.ui_GetValuePtr_look [OF sample_column_inv [OF assms] assms(1)] by simp
  then show ?thesis
    by (simp add: ui_GetValues_def ui_GetValue_def sample_column_def LongType_def CopyOutOfArray_def long_def word_bytes)
qed

lemma sample_pod_rows:
  "ui_GetRows (sample_column 2 7) \<lparr>ascending = True, limit = 200000, first = Some \<lparr>boundValue = long 7, inclusive = True\<rparr>,
      last_bound = Some \<lparr>boundValue = long 7, inclusive = True\<rparr>, start_rowID = None\<rparr> =
   Inr \<lparr>valueRowsList = [\<lparr>vrValue = long 7, vrRowIDs = [long 2]\<rparr>], res_eof = True, res_bof = True, limited = False\<rparr>"
  by code_simp

lemma Encode_long_small: "Encode_long 7 = long 7" "Encode_long 9 = long 9"
  by (simp_all add: Encode_long_def long_def)

lemma sample_pod_facts:
  shows "omap (repositories sample_pod)" "schema_columns col_table sample_pod = Inr (Some [9])"
    "GetDefFromSchema col_table 9 sample_pod = Inr \<lparr>def_ColumnID = 9, def_Name = long 1, def_ValueTypeName = long 1,
        def_RowIDTypeName = long 1, def_BufferType = Unique, def_Required = True\<rparr>"
proof -
  have h: "(1 :: 64 word) \<in> half_range" "(2 :: 64 word) \<in> half_range" "(7 :: 64 word) \<in> half_range" "(9 :: 64 word) \<in> half_range"
    by (simp_all add: half_range_def)
  show "omap (repositories sample_pod)" by (simp add: omap_def sample_pod_def sample_repo_def)
  have "Decode_long (long 9) = Inr 9" using Decode_Encode_long [of 9] by (simp add: Encode_long_small)
  then show "schema_columns col_table sample_pod = Inr (Some [9])"
    using sample_column_value [OF h(2) h(4)] sample_pod_rows
    by (simp add: schema_columns_def Let_def repo_at_def sample_pod_def sample_repo_def rp_query_def col_table_def nthE_def Encode_long_small)
  have "get_cell col_table sample_pod c (long 9) = Inr (long 1)" if "c \<in> {1, 2, 3, 4, 5}" for c
    using sample_column_value [OF h(4) h(1)] that
    by (auto simp: get_cell_def repo_at_def sample_pod_def sample_repo_def rp_query_def col_table_def nthE_def)
  moreover have "Decode_int (long 1) = Inr 1" "Decode_bool (long 1) = Inr True" by code_simp+
  ultimately show "GetDefFromSchema col_table 9 sample_pod = Inr \<lparr>def_ColumnID = 9, def_Name = long 1, def_ValueTypeName = long 1,
        def_RowIDTypeName = long 1, def_BufferType = Unique, def_Required = True\<rparr>"
    by (simp add: GetDefFromSchema_def Encode_long_small BufferType_of_def)
qed

theorem SyncToSchema_correct_witness:
  "\<exists>W'. SyncToSchema col_table sample_factory sample_pod = Inr W' \<and>
     map_of (repositories W') 10049 = None \<and> map_of (repositories W') 400 = map_of (repositories sample_pod) 400 \<and>
     map_option (def_ColumnID \<circ> rp_def) (map_of (repositories W') 9) = Some 9"
proof -
  have "map_of (repositories sample_pod) 9 = None" by (simp add: sample_pod_def sample_repo_def)
  moreover have "sample_factory n m Unique = Inr (UniqueInlineColumn (new_UniqueInlineBuffer LongType LongType))" for n m
    by (simp add: sample_factory_def CreateBuffer_def) (simp add: LongType_def)
  then obtain r where "schema_repo col_table sample_factory sample_pod 9 = Some r" "def_ColumnID (rp_def r) = 9"
    by (simp add: schema_repo_def sample_pod_facts(3) new_Repository_def)
  ultimately show ?thesis
    using SyncToSchema_correct [OF sample_pod_facts(1,2), of sample_factory] by (auto simp: MaxSystemColumnID_def)
qed

end
