(* ===== verification/Spec2Isabelle.thy ===== *)
theory Spec2Isabelle
  imports Prelude Scalar BTree BTree_Rep BTree_Search BTree_Insert BTree_Delete BTree_Iter Cursor BTree_Map BTree_Locs
    Buffer IdentityBuffer UniqueColumn UniqueInlineBuffer LeafPointers UniqueBuffer RowTrees TreeBuffer ColumnBuffer Schema
    IDGenerator ServiceAddress Transaction TreeInlineBuffer Effects Hive DatabaseReads DatabaseWrites
    BufferFactory StandardTypes WorkerHandler
begin

text \<open>
  A verification library for Fastore, a distributed column store in C++. The library models the
  column buffers and the B-tree they are built on (\<open>FastoreCommon\<close>), the client with its
  transactions (\<open>FastoreClient\<close>) and the worker that keeps the columns of a pod
  (\<open>FastoreCore\<close>), and proves what their operations do. Paths are relative to \<open>src/Source\<close>.

  \<^bold>\<open>The program.\<close> A column maps row ids to values. On a worker it is kept by a buffer, which has one
  or two B-trees and is chosen by the type of the column: \<open>IdentityBuffer\<close> when values are row ids,
  \<open>UniqueInlineBuffer\<close> and \<open>UniqueBuffer\<close> when no two rows share a value, \<open>TreeBuffer\<close> otherwise. A
  buffer applies includes and excludes and answers range queries. \<open>UniqueBuffer\<close> and \<open>TreeBuffer\<close>
  point from rows into the leaves of the tree of values, and the tree tells them when an insertion
  moves entries. A \<open>Repository\<close> holds a buffer with its revision, a \<open>WorkerHandler\<close> the repositories
  of its pod, which it keeps in step with the schema that is itself stored in columns. A client
  \<open>Database\<close> caches which worker has which column, sends reads to one of them and writes to all of
  them in two phases. A client \<open>Transaction\<close> logs its writes in buffers of its own and merges them
  into what it reads.

  \<^bold>\<open>Conventions.\<close> An operation that can fail returns a value of \<open>err + 'a\<close> (\<open>Prelude\<close>): \<open>Throw\<close> with
  the message of an exception, or the kind of undefined behaviour the code runs into (\<open>NullPointer\<close>,
  \<open>BadPointer\<close>, \<open>OutOfBounds\<close>, \<open>Indeterminate\<close>). Objects are records, passed on and returned. Memory
  in which pointers matter is an explicit store: the nodes of a B-tree by address, the trees of rows
  of a \<open>TreeBuffer\<close> by address. A loop that may not end is a \<open>partial_function (option)\<close>, and \<open>None\<close>
  is the loop that does not end. A remote call, the factory and the answer of the database to a
  transaction are arguments of the definitions that use them.

  \<^bold>\<open>Theories.\<close>
  \<^item> \<open>Prelude\<close>: errors and their sequencing, arrays as lists. \<open>Effects\<close>: \<open>std::map\<close> as an ordered
    list of pairs, computations over a state that may fail or not end, tasks.
  \<^item> \<open>Scalar\<close> (\<open>FastoreCommon/Type\<close>: Scalar.h, BaseTypes.cpp, StringTypes.cpp): comparison, binary
    search and wire format of the types. The locale \<open>scalar_order\<close> has the laws the trees rely on, for
    the keys in a set \<open>K\<close>; it is interpreted for the types, for 64-bit and 32-bit integers on the set
    \<open>half_range\<close> (within which differences do not overflow; where one overflows, the comparison is
    reversed). The binary search and the round trip of the wire format are proved here.
  \<^item> \<open>BTree\<close> (\<open>FastoreCommon/Tree\<close>: BTree.h, BTree.cpp): nodes, paths, insertion, deletion and
    iterators, definitions only. \<open>BTree_Rep\<close>: the abstract tree a store stands for and the invariant
    \<open>btree_inv\<close>. \<open>BTree_Search\<close>, \<open>BTree_Insert\<close>, \<open>BTree_Delete\<close>: that the operations keep the invariant
    and what they do to the list of entries, and the cases in which deletion breaks the tree. \<open>BTree_Iter\<close>, \<open>Cursor\<close>: iterators as positions in the list of entries, the locale
    \<open>cursor\<close> with the loop of range queries, and where \<open>findNearest\<close> ends too early. \<open>BTree_Map\<close>, \<open>BTree_Locs\<close>: a tree as a
    finite map, and in which leaf its entries are.
  \<^item> \<open>Buffer\<close> (\<open>FastoreCommon/Buffer\<close> and the messages of Comm_types.h): the code the buffers repeat,
    positioning and scanning of a range and the application of writes, and the contract
    \<open>column_buffer\<close>, a refinement of writes on a partial map. \<open>IdentityBuffer\<close>, \<open>UniqueInlineBuffer\<close>,
    \<open>UniqueBuffer\<close>, \<open>TreeBuffer\<close>, \<open>TreeInlineBuffer\<close> are the files of those names, each an instance of
    the contract with its range query, and the two buffers for repeated values are equivalent. \<open>UniqueColumn\<close>, \<open>LeafPointers\<close>, \<open>RowTrees\<close> hold what they share.
  \<^item> \<open>Schema\<close> (\<open>FastoreCommon/Schema\<close>, ColumnDef.h, BufferType.h, Encoder.h): column definitions and
    their rows in the column table. \<open>ColumnBuffer\<close> (IColumnBuffer.h): the virtual functions as a
    table, and the contract \<open>include_log\<close> a transaction relies on, interpreted for \<open>TreeBuffer\<close>.
    \<open>BufferFactory\<close>, \<open>StandardTypes\<close> (BufferFactory.cpp, Standardtypes.cpp): the choice of a buffer,
    and that columns stay well typed.
  \<^item> \<open>IDGenerator\<close>, \<open>ServiceAddress\<close> (\<open>FastoreClient\<close>): when a call returns, and what it returns.
  \<^item> \<open>Transaction\<close> (Transaction.cpp): the log, reads of values as an overlay of the log
    on the database, and the faults of the merged range reads.
  \<^item> \<open>Hive\<close>, \<open>DatabaseReads\<close>, \<open>DatabaseWrites\<close> (Database.cpp): the cache and the choice of workers,
    reads, the two phases of a write and the schema.
  \<^item> \<open>WorkerHandler\<close> (\<open>FastoreCore\<close>: Repository.cpp, WorkerHandler.cpp): the requests a worker serves,
    and that a pod follows its schema.

  \<^bold>\<open>Side conditions.\<close> The code is not right in all cases, and the properties name the cases. A
  deletion is \<open>delete_safe\<close> when its leaf is the root or does not underflow, or else the tree holds
  values, no branch on the path is repaired from its left sibling and no full branch loses a child;
  \<open>tree_safe\<close> says so for a key, and \<open>all_safe\<close> for excludes one after the other. \<open>tree_stays\<close> asks that no
  leaf be rebalanced, since leaf pointers are not told of it. \<open>shallow\<close> trees have at most one level of
  branches (4096 entries), on which \<open>findNearest\<close> is right. \<open>bounds_meet\<close> holds of ranges that are not
  empty by their bounds.

  \<^bold>\<open>Fuel and bounds.\<close> The descents of a B-tree take the number of allocated addresses as fuel and
  fail with \<open>NoFuel\<close> without it; the invariant bounds the height by that number, so that the
  properties, which state success, show that it is enough. A node has at most 64 entries. Long and Int
  are words of 64 and 32 bits and subtraction wraps.

  \<^bold>\<open>Abstractions.\<close> Row ids, revisions and column numbers of the client are unbounded integers, and so
  are the indices of the binary search, over at most 64 keys. A \<open>memcpy\<close> between overlapping regions
  moves the bytes as \<open>memmove\<close> does. A key is a value; the sharing of buffers between copies of a
  \<open>std::string\<close> is not modelled. Tasks run in the order in which they are started, one after the
  other; a task that misses the time for writes is a task with an error. A mutex makes its section
  atomic. Unordered containers are visited in a fixed order.

  \<^bold>\<open>Not modelled.\<close> The types Double and WString (floating-point comparison; a conversion that always
  throws). \<open>MultiBimapBuffer\<close>, which nothing includes. \<open>Generator\<close>, the connection pools, the service,
  scheduler, store, log manager and server loop, which are threads, sockets and files. Generated
  communication code. The SQLite module, provider, shell and benchmark, and the C# client.
\<close>

end
